(* ===== verification/K_Prelude.thy ===== *)
theory K_Prelude
  imports Main "HOL-Library.Word" "HOL-Library.Monad_Syntax"
begin

text \<open>
  Shared vocabulary of the development: the machine integer types of
  \<^verbatim>\<open>lib/libc/include/k_types.h\<close>, the outcome type of code that can halt the kernel,
  arrays reached through a pointer, the bit view of an array of words, and the
  search and mask lemmas that the component theories use.

  The kernel is built with assertions on (\<^verbatim>\<open>CONFIG_DEBUG_ASSERTIONS\<close>): a failed
  \<^verbatim>\<open>assert\<close> and a \<^verbatim>\<open>PANIC()\<close> print a message and call \<^verbatim>\<open>halt\<close>, which never
  returns.  A computation that may do so has an option type, and \<open>None\<close> is
  "the kernel has halted".
\<close>

unbundle bit_operations_syntax

section \<open>Machine types and outcomes\<close>

type_synonym u8 = "8 word"
type_synonym u16 = "16 word"
type_synonym u32 = "32 word"
type_synonym u64 = "64 word"

text \<open>The cells reached from a pointer by indexing: \<open>a i\<close> is \<^verbatim>\<open>a[i]\<close>.\<close>

type_synonym 'a arr = "nat \<Rightarrow> 'a"

definition k_assert :: "bool \<Rightarrow> unit option" where
  "k_assert b = (if b then Some () else None)"

definition PANIC :: "'a option" where
  "PANIC = None"

lemma k_assert_simps [simp]:
  "k_assert True = Some ()" "k_assert False = None"
  by (simp_all add: k_assert_def)

lemma k_assert_bind_eq_Some [simp]:
  "(k_assert b \<bind> f = Some y) \<longleftrightarrow> b \<and> f () = Some y"
  by (cases b) simp_all

lemma k_assert_bind [simp]: "b \<Longrightarrow> k_assert b \<bind> f = f ()"
  by simp

section \<open>Collections of facts\<close>

named_theorems unat_bounds \<open>bounds on the numbers that words stand for\<close>
named_theorems mask_bits \<open>the bits of the masks that the code builds\<close>

lemma unat_u8_bound [unat_bounds]: "unat (x :: u8) < 256"
  using unsigned_less [of x] by simp

lemma unat_u16_bound [unat_bounds]: "unat (x :: u16) < 65536"
  using unsigned_less [of x] by simp

lemma unat_u32_bound [unat_bounds]: "unat (x :: u32) < 4294967296"
  using unsigned_less [of x] by simp

lemma unat_u64_bound [unat_bounds]: "unat (x :: u64) < 18446744073709551616"
  using unsigned_less [of x] by simp

section \<open>Masks\<close>

lemma bit_ones_shiftl [mask_bits]:
  "bit (push_bit k (- 1 :: 'a::len word)) i \<longleftrightarrow> k \<le> i \<and> i < LENGTH('a)"
  by (auto simp: bit_simps)

lemma bit_ones_shiftr [mask_bits]:
  "bit (drop_bit k (- 1 :: 'a::len word)) i \<longleftrightarrow> i + k < LENGTH('a)"
  by (auto simp: bit_simps)

lemma bit_exp_minus_one [mask_bits]:
  "bit (push_bit n 1 - 1 :: 'a::len word) i \<longleftrightarrow> i < n \<and> i < LENGTH('a)"
  by (auto simp: push_bit_of_1 mask_eq_exp_minus_1 [symmetric] bit_simps)

lemma bit_single [mask_bits]:
  "bit (push_bit n 1 :: 'a::len word) i \<longleftrightarrow> i = n \<and> i < LENGTH('a)"
  by (auto simp: push_bit_of_1 bit_simps)

lemma bit_power_minus_one [mask_bits]:
  "bit (2 ^ n - 1 :: 'a::len word) i \<longleftrightarrow> i < n \<and> i < LENGTH('a)"
  by (auto simp: mask_eq_exp_minus_1 [symmetric] bit_simps)

lemma bit_power [mask_bits]:
  "bit (2 ^ n :: 'a::len word) i \<longleftrightarrow> i = n \<and> i < LENGTH('a)"
  by (auto simp: bit_simps)

lemma unat_of_nat_small:
  "n < 2 ^ LENGTH('a) \<Longrightarrow> unat (word_of_nat n :: 'a::len word) = n"
  by (simp add: unsigned_of_nat take_bit_nat_eq_self)

lemma unat_add_small:
  "unat a + unat b < 2 ^ LENGTH('a) \<Longrightarrow> unat (a + b) = unat a + unat b"
  for a b :: "'a::len word"
  by (simp add: unat_add_lem)

lemma unat_mult_small:
  "unat a * unat b < 2 ^ LENGTH('a) \<Longrightarrow> unat (a * b) = unat a * unat b"
  for a b :: "'a::len word"
  by (simp add: unat_mult_lem)

lemma unat_push_bit_small:
  "unat a * 2 ^ n < 2 ^ LENGTH('a) \<Longrightarrow> unat (push_bit n a) = unat a * 2 ^ n"
  for a :: "'a::len word"
  by (simp only: unsigned_push_bit_eq) (simp add: push_bit_eq_mult take_bit_nat_eq_self)

lemma not_bit_small:
  assumes "unat (x :: 'a::len word) < 2 ^ n" "n \<le> i"
  shows "\<not> bit x i"
proof -
  have "unat x < 2 ^ i"
    using assms by (meson less_le_trans one_le_numeral power_increasing)
  then have "\<not> bit (unat x) i" by (simp add: bit_iff_odd)
  then show ?thesis by (simp add: bit_simps)
qed

lemma unat_ucast_up:
  "LENGTH('a) \<le> LENGTH('b) \<Longrightarrow> unat (ucast (x :: 'a::len word) :: 'b::len word) = unat x"
  by (simp add: unsigned_ucast_eq take_bit_nat_eq_self_iff unsigned_less
      less_le_trans [OF unsigned_less power_increasing])

lemma and_zero_iff:
  "(x AND m = 0) \<longleftrightarrow> (\<forall>j. bit m j \<longrightarrow> \<not> bit (x :: 'a::len word) j)"
proof
  assume "x AND m = 0"
  then have "bit (x AND m) j = bit (0 :: 'a word) j" for j by simp
  then show "\<forall>j. bit m j \<longrightarrow> \<not> bit x j" by (auto simp: bit_simps)
next
  assume "\<forall>j. bit m j \<longrightarrow> \<not> bit x j"
  then show "x AND m = 0" by (intro bit_word_eqI) (auto simp: bit_simps)
qed

lemma and_full_iff:
  "(x AND m = m) \<longleftrightarrow> (\<forall>j. bit m j \<longrightarrow> bit (x :: 'a::len word) j)"
proof
  assume "x AND m = m"
  then have "bit (x AND m) j = bit m j" for j by simp
  then show "\<forall>j. bit m j \<longrightarrow> bit x j" by (auto simp: bit_simps)
next
  assume "\<forall>j. bit m j \<longrightarrow> bit x j"
  then show "x AND m = m" by (intro bit_word_eqI) (auto simp: bit_simps)
qed

lemma and_mask_full:
  assumes "s \<le> LENGTH('a)"
  shows "(x AND mask s = mask s) \<longleftrightarrow> (\<forall>j. j < s \<longrightarrow> bit (x :: 'a::len word) j)"
  unfolding and_full_iff bit_mask_iff using assms by auto

lemma unat_mask: "n \<le> LENGTH('a) \<Longrightarrow> unat (mask n :: 'a::len word) = 2 ^ n - 1"
proof -
  assume "n \<le> LENGTH('a)"
  then have "(2 :: nat) ^ n - 1 < 2 ^ LENGTH('a)"
    using power_increasing [of n "LENGTH('a)" "2 :: nat"] by (simp add: Suc_le_eq [symmetric])
  moreover have "(mask n :: 'a word) = word_of_nat (2 ^ n - 1)"
    by (simp add: mask_eq_exp_minus_1 of_nat_diff)
  ultimately show ?thesis by (simp only: unat_of_nat_small)
qed

lemma ucast_eq_of_nat: "(ucast x :: 'b::len word) = word_of_nat (unat x)"
  for x :: "'a::len word"
  by (rule bit_word_eqI) (simp add: bit_simps)

lemma unat_drop_bit: "unat (drop_bit n x) = unat x div 2 ^ n"
  for x :: "'a::len word"
  by (subst unsigned_drop_bit_eq) (simp only: drop_bit_eq_div take_bit_nat_eq_self [OF unsigned_less])

lemma unat_and_not_mask:
  assumes "k \<le> LENGTH('a)"
  shows "unat (x AND NOT (mask k) :: 'a::len word) = unat x div 2 ^ k * 2 ^ k"
proof -
  have "x AND NOT (mask k) = push_bit k (drop_bit k x)"
    by (rule bit_word_eqI) (auto simp: bit_simps)
  moreover have "unat x div 2 ^ k * 2 ^ k < 2 ^ LENGTH('a)"
    using div_times_less_eq_dividend [of "unat x" "2 ^ k"] by (rule le_less_trans) (rule unsigned_less)
  ultimately show ?thesis
    by (simp only: unat_push_bit_small unat_drop_bit)
qed

lemma unat_minus_small: "unat b \<le> unat a \<Longrightarrow> unat (a - b) = unat a - unat b"
  for a b :: "'a::len word"
proof -
  assume le: "unat b \<le> unat a"
  have "unat a - unat b < 2 ^ LENGTH('a)"
    by (rule le_less_trans [OF diff_le_self]) (rule unsigned_less)
  moreover have "a - b = word_of_nat (unat a - unat b)" using le by (simp add: of_nat_diff)
  ultimately show ?thesis by (simp only: unat_of_nat_small)
qed

lemma dvd_le_if_less_add: "d dvd a \<Longrightarrow> d dvd b \<Longrightarrow> a < b + d \<Longrightarrow> a \<le> b"
  for a b d :: nat
proof -
  assume "d dvd a" "d dvd b" "a < b + d"
  then obtain k m where km: "a = d * k" "b = d * m" by (auto elim!: dvdE)
  with \<open>a < b + d\<close> have "d * k < d * (m + 1)" by simp
  then have "k \<le> m" by (simp only: mult_less_cancel1) simp
  with km show ?thesis by simp
qed

lemma unat_pos_iff: "0 < unat x \<longleftrightarrow> x \<noteq> 0" for x :: "'a::len word"
  by (metis bot_nat_0.not_eq_extremum unsigned_0 unsigned_eq_0_iff)

lemma scast_nonneg:
  assumes "unat (x :: u32) < 2 ^ 31"
  shows "(scast x :: u64) = ucast x"
proof -
  have "\<not> bit x 31" by (rule not_bit_small [OF assms]) simp
  moreover have "n \<le> 31" if "bit x n" for n
    using bit_imp_le_length [OF that] by simp
  ultimately have "\<not> bit x n" if "31 \<le> n" for n
    using that by (metis le_antisym)
  with \<open>\<not> bit x 31\<close> show ?thesis
    by (intro bit_word_eqI) (auto simp: bit_simps not_less min_def)
qed

lemma or_split_mask:
  fixes x g :: "'a::len word"
  assumes "x AND NOT (mask k) = 0" "g AND mask k = 0"
  shows "(x OR g) AND mask k = x" "(x OR g) AND NOT (mask k) = g"
proof -
  have "(x OR g) AND mask k = (x AND mask k) OR (g AND mask k)" by (simp add: and.commute bit.conj_disj_distrib)
  also have "x AND mask k = (x AND mask k) OR (x AND NOT (mask k))" using assms(1) by simp
  also have "\<dots> = x" by (rule bit_eqI) (auto simp: bit_simps)
  finally show "(x OR g) AND mask k = x" using assms(2) by simp
  have "(x OR g) AND NOT (mask k) = (x AND NOT (mask k)) OR (g AND NOT (mask k))"
    by (simp add: and.commute bit.conj_disj_distrib)
  also have "g AND NOT (mask k) = (g AND mask k) OR (g AND NOT (mask k))" using assms(2) by simp
  also have "\<dots> = g" by (rule bit_eqI) (auto simp: bit_simps)
  finally show "(x OR g) AND NOT (mask k) = g" using assms(1) by simp
qed

lemma small_and_not_mask:
  fixes x :: "'a::len word"
  assumes "unat x < 2 ^ k" "k \<le> LENGTH('a)"
  shows "x AND NOT (mask k) = 0"
proof -
  have "unat (x AND NOT (mask k)) = 0" using assms by (simp add: unat_and_not_mask)
  then show ?thesis by (simp add: unat_eq_zero)
qed

section \<open>The bits of an array of words\<close>

definition abit :: "'a::len word arr \<Rightarrow> nat \<Rightarrow> bool" where
  "abit a i = bit (a (i div LENGTH('a))) (i mod LENGTH('a))"

lemma abit_upd:
  "abit (a(k := w)) i =
     (if i div LENGTH('a) = k then bit w (i mod LENGTH('a)) else abit a i)"
  for a :: "'a::len word arr"
  by (simp add: abit_def)

lemma bit_eq_abit:
  "j < LENGTH('a) \<Longrightarrow> bit (a k) j = abit a (k * LENGTH('a) + j)"
  for a :: "'a::len word arr"
  by (simp add: abit_def)

lemma arr_eq_abitI: "(\<And>i. abit a i = abit b i) \<Longrightarrow> a = b"
  for a b :: "'a::len word arr"
proof (rule ext, rule bit_word_eqI)
  fix k n assume eq: "\<And>i. abit a i = abit b i" and "n < LENGTH('a)"
  then show "bit (a k) n = bit (b k) n" using eq [of "k * LENGTH('a) + n"] by (simp add: bit_eq_abit)
qed

section \<open>Searching a range of indices\<close>

text \<open>The least index of \<open>{lo..<hi}\<close> that satisfies a predicate.\<close>

definition first_from :: "(nat \<Rightarrow> bool) \<Rightarrow> nat \<Rightarrow> nat \<Rightarrow> nat option" where
  "first_from P lo hi = find P [lo..<hi]"

definition first_or :: "(nat \<Rightarrow> bool) \<Rightarrow> nat \<Rightarrow> nat \<Rightarrow> nat" where
  "first_or P lo hi = (case first_from P lo hi of None \<Rightarrow> hi | Some k \<Rightarrow> k)"

lemma first_from_None_iff:
  "first_from P lo hi = None \<longleftrightarrow> (\<forall>i. lo \<le> i \<and> i < hi \<longrightarrow> \<not> P i)"
  by (auto simp: first_from_def find_None_iff)

lemma first_from_Some_iff:
  "first_from P lo hi = Some k \<longleftrightarrow>
     lo \<le> k \<and> k < hi \<and> P k \<and> (\<forall>i. lo \<le> i \<and> i < k \<longrightarrow> \<not> P i)"
proof
  assume "first_from P lo hi = Some k"
  then obtain j where "j < length [lo..<hi]" "P ([lo..<hi] ! j)" "k = [lo..<hi] ! j"
    and "\<forall>i<j. \<not> P ([lo..<hi] ! i)"
    by (auto simp: first_from_def find_Some_iff)
  moreover from this have "\<forall>i. lo \<le> i \<and> i < k \<longrightarrow> \<not> P i"
    by (metis (no_types, lifting) add_diff_inverse_nat le_less_trans length_upt less_diff_conv
        add.commute nat_add_left_cancel_less not_less nth_upt less_or_eq_imp_le)
  ultimately show "lo \<le> k \<and> k < hi \<and> P k \<and> (\<forall>i. lo \<le> i \<and> i < k \<longrightarrow> \<not> P i)"
    by auto
next
  assume k: "lo \<le> k \<and> k < hi \<and> P k \<and> (\<forall>i. lo \<le> i \<and> i < k \<longrightarrow> \<not> P i)"
  then have "k - lo < length [lo..<hi]" "[lo..<hi] ! (k - lo) = k"
    by auto
  moreover from k have "\<forall>i<k - lo. \<not> P ([lo..<hi] ! i)"
    by auto
  ultimately show "first_from P lo hi = Some k"
    using k unfolding first_from_def find_Some_iff by (intro exI [of _ "k - lo"]) auto
qed

lemma first_from_skip:
  "\<not> P lo \<Longrightarrow> first_from P lo hi = first_from P (Suc lo) hi"
  by (cases "lo < hi") (simp_all add: first_from_def upt_conv_Cons)

lemma first_from_skip_to:
  assumes "lo \<le> lo'" and "\<And>i. lo \<le> i \<Longrightarrow> i < lo' \<Longrightarrow> \<not> P i"
  shows "first_from P lo hi = first_from P lo' hi"
  using assms
proof (induction "lo' - lo" arbitrary: lo)
  case 0
  then show ?case by simp
next
  case (Suc d)
  then have "first_from P (Suc lo) hi = first_from P lo' hi" by simp
  moreover from Suc have "\<not> P lo" by simp
  ultimately show ?case by (simp add: first_from_skip)
qed

lemma first_from_hit: "lo < hi \<Longrightarrow> P lo \<Longrightarrow> first_from P lo hi = Some lo"
  by (auto simp: first_from_Some_iff)

lemma first_from_empty: "hi \<le> lo \<Longrightarrow> first_from P lo hi = None"
  by (auto simp: first_from_None_iff)

lemma first_from_cong:
  "(\<And>i. lo \<le> i \<Longrightarrow> i < hi \<Longrightarrow> P i = Q i) \<Longrightarrow> first_from P lo hi = first_from Q lo hi"
  by (auto simp: first_from_def intro: find_cong)

lemma first_from_split:
  assumes "lo \<le> mid"
  shows "first_from P lo hi =
    (case first_from P lo (min mid hi) of Some i \<Rightarrow> Some i | None \<Rightarrow> first_from P mid hi)"
proof (cases "first_from P lo (min mid hi)")
  case None
  then have n: "\<And>i. lo \<le> i \<Longrightarrow> i < min mid hi \<Longrightarrow> \<not> P i" by (auto simp: first_from_None_iff)
  show ?thesis
  proof (cases "mid \<le> hi")
    case True
    with n have "first_from P lo hi = first_from P mid hi"
      by (intro first_from_skip_to assms) auto
    with None show ?thesis by simp
  next
    case False
    with n have "first_from P lo hi = None" "first_from P mid hi = None"
      by (auto simp: first_from_None_iff)
    with None show ?thesis by simp
  qed
next
  case (Some i)
  then have "first_from P lo hi = Some i" by (auto simp: first_from_Some_iff)
  with Some show ?thesis by simp
qed

lemma length_takeWhile_first:
  "length (takeWhile (\<lambda>i. \<not> P i) [0..<n]) = (case first_from P 0 n of None \<Rightarrow> n | Some k \<Rightarrow> k)"
proof (cases "first_from P 0 n")
  case None
  then have "takeWhile (\<lambda>i. \<not> P i) [0..<n] = [0..<n]"
    by (auto simp: first_from_None_iff takeWhile_eq_all_conv)
  then have "length (takeWhile (\<lambda>i. \<not> P i) [0..<n]) = length [0..<n]"
    by (simp only:)
  with None show ?thesis by simp
next
  case (Some k)
  then have k: "k < n" "P k" "\<forall>i<k. \<not> P i" by (auto simp: first_from_Some_iff)
  then have "[0..<n] = [0..<k] @ k # [Suc k..<n]"
    by (metis le0 less_imp_le_nat upt_add_eq_append upt_conv_Cons le_add_diff_inverse)
  moreover have "takeWhile (\<lambda>i. \<not> P i) ([0..<k] @ k # [Suc k..<n]) = [0..<k]"
    using k by (subst takeWhile_append2) auto
  ultimately show ?thesis using Some by simp
qed

lemma first_or_eqI:
  assumes "lo \<le> k" "k < hi" "P k" "\<And>i. lo \<le> i \<Longrightarrow> i < k \<Longrightarrow> \<not> P i"
  shows "first_or P lo hi = k"
proof -
  have "first_from P lo hi = Some k" using assms by (auto simp: first_from_Some_iff)
  then show ?thesis by (simp add: first_or_def)
qed

lemma first_or_none:
  assumes "\<And>i. lo \<le> i \<Longrightarrow> i < hi \<Longrightarrow> \<not> P i"
  shows "first_or P lo hi = hi"
proof -
  have "first_from P lo hi = None" using assms by (auto simp: first_from_None_iff)
  then show ?thesis by (simp add: first_or_def)
qed

lemma first_or_skip_to:
  "lo \<le> lo' \<Longrightarrow> (\<And>i. lo \<le> i \<Longrightarrow> i < lo' \<Longrightarrow> \<not> P i) \<Longrightarrow> first_or P lo hi = first_or P lo' hi"
  by (simp add: first_or_def first_from_skip_to)

lemma first_or_props:
  shows "first_or P lo hi < hi \<Longrightarrow> P (first_or P lo hi)"
    and "lo \<le> i \<Longrightarrow> i < first_or P lo hi \<Longrightarrow> i < hi \<Longrightarrow> \<not> P i"
    and "first_or P lo hi \<le> hi"
    and "lo \<le> hi \<Longrightarrow> lo \<le> first_or P lo hi"
  by (auto simp: first_or_def first_from_None_iff first_from_Some_iff split: option.splits)

lemma first_or_cong:
  "(\<And>i. lo \<le> i \<Longrightarrow> i < hi \<Longrightarrow> P i = Q i) \<Longrightarrow> first_or P lo hi = first_or Q lo hi"
  using first_from_cong [of lo hi P Q] by (simp add: first_or_def)

lemma unat_and_mask: "unat (x AND mask k :: 'a::len word) = unat x mod 2 ^ k" if "k \<le> LENGTH('a)"
  unfolding take_bit_eq_mask [symmetric] using that by (subst unsigned_take_bit_eq) (simp_all add: take_bit_eq_mod)

end
