(* ===== verification/K_Util.thy ===== *)
theory K_Util
  imports K_Prelude
begin

text \<open>
  The helpers of \<^verbatim>\<open>os/include/uapi/util.h\<close> (single bits, masks, alignment, bit fields
  and the BKDR string hash), with \<^verbatim>\<open>unsigned long\<close> as a 64-bit word.
  \<open>ALIGN\<close> is the macro's own quotient-and-product form, at width, so that it wraps
  where the C expression wraps.
\<close>

section \<open>Definitions\<close>

definition BITS_PER_LONG :: nat where
  "BITS_PER_LONG = 64"

definition k_bit :: "nat \<Rightarrow> u64" where
  "k_bit nr = push_bit nr 1"

definition bitmask :: "nat \<Rightarrow> u64" where
  "bitmask nr = k_bit nr - 1"

definition ALIGN :: "u64 \<Rightarrow> u64 \<Rightarrow> u64" where
  "ALIGN sz align = ((sz + align - 1) div align) * align"

definition PAGE_ALIGN :: "u64 \<Rightarrow> u64" where
  "PAGE_ALIGN sz = ALIGN sz 4096"

definition roundup :: "u64 \<Rightarrow> u64 \<Rightarrow> u64" where
  "roundup x y = ((x + (y - 1)) div y) * y"

definition bitfield_get :: "u64 \<Rightarrow> nat \<Rightarrow> nat \<Rightarrow> u64" where
  "bitfield_get value lo width = drop_bit lo value AND bitmask width"

definition bitfield_clean :: "u64 \<Rightarrow> nat \<Rightarrow> nat \<Rightarrow> u64" where
  "bitfield_clean value lo width = value AND NOT (push_bit lo (bitmask width))"

definition bitfield_set :: "u64 \<Rightarrow> nat \<Rightarrow> nat \<Rightarrow> u64 \<Rightarrow> u64" where
  "bitfield_set value lo width bv = bitfield_clean value lo width OR push_bit lo bv"

text \<open>
  \<^verbatim>\<open>BKDRHash\<close> reads bytes up to the terminating zero; the string is the list of the
  bytes before it (plain \<^verbatim>\<open>char\<close> is unsigned on AArch64).
\<close>

fun BKDRHash_loop :: "u64 \<Rightarrow> u8 list \<Rightarrow> u64" where
  "BKDRHash_loop h [] = h"
| "BKDRHash_loop h (c # cs) = BKDRHash_loop (h * 131 + ucast c) cs"

definition BKDRHash :: "u8 list \<Rightarrow> u64" where
  "BKDRHash str = BKDRHash_loop 0 str"

section \<open>Bit fields\<close>

lemma bit_k_bit [mask_bits]: "bit (k_bit n) i \<longleftrightarrow> i = n \<and> i < 64"
  by (simp add: k_bit_def mask_bits)

lemma bit_bitmask [mask_bits]: "bit (bitmask n) i \<longleftrightarrow> i < n \<and> i < 64"
  by (simp add: bitmask_def k_bit_def mask_bits)

lemma bit_bitfield_get:
  "bit (bitfield_get v b w) i \<longleftrightarrow> i < w \<and> i < 64 \<and> bit v (b + i)"
  by (auto simp: bitfield_get_def bit_simps mask_bits)

lemma bit_bitfield_clean:
  "bit (bitfield_clean v b w) i \<longleftrightarrow> bit v i \<and> \<not> (b \<le> i \<and> i < b + w)"
  using bit_imp_le_length [of v i]
  by (auto simp: bitfield_clean_def bit_simps mask_bits)

lemma bitfield_get_clean: "bitfield_get (bitfield_clean v b w) b w = 0"
  by (rule bit_word_eqI) (simp add: bit_bitfield_get bit_bitfield_clean)

lemma bitfield_get_bound: "w < 64 \<Longrightarrow> unat (bitfield_get v b w) < 2 ^ w"
proof -
  assume "w < 64"
  have "bitfield_get v b w = take_bit w (drop_bit b v)"
    by (rule bit_word_eqI) (auto simp: bit_bitfield_get bit_simps)
  then have "unat (bitfield_get v b w) = take_bit w (unat (drop_bit b v))"
    by (simp add: unsigned_take_bit_eq)
  then show ?thesis by simp
qed

section \<open>Alignment\<close>

lemma unat_ALIGN:
  assumes "unat sz + unat align \<le> 2 ^ 64" and "0 < unat align"
  shows "unat (ALIGN sz align) = (unat sz + unat align - 1) div unat align * unat align"
proof -
  have "unat (sz + align - 1) = unat sz + unat align - 1"
  proof -
    have "sz + align - 1 = word_of_nat (unat sz + unat align - 1)"
      using assms(2) by (simp add: of_nat_diff)
    moreover have "unat sz + unat align - 1 < 2 ^ LENGTH(64)"
      using assms by simp
    ultimately show ?thesis
      by (simp only: unat_of_nat_small)
  qed
  then have q: "unat ((sz + align - 1) div align) = (unat sz + unat align - 1) div unat align"
    by (simp add: unat_div)
  have le: "(unat sz + unat align - 1) div unat align * unat align < 2 ^ 64"
    using div_times_less_eq_dividend [of "unat sz + unat align - 1" "unat align"] assms
    by linarith
  show ?thesis
    unfolding ALIGN_def
    using le by (subst unat_mult_small) (simp_all only: q, simp)
qed

end
