(* ===== verification/K_Bitmap.thy ===== *)
theory K_Bitmap
  imports K_Util
begin

text \<open>
  The bitmap library \<^verbatim>\<open>os/lib/libutils\<close>: bit scans of one word (\<^verbatim>\<open>bitops.h\<close>), the search
  functions (\<^verbatim>\<open>find_bit.c\<close>) and the bitmap operations (\<^verbatim>\<open>bitmap.c\<close>, \<^verbatim>\<open>bitmap.h\<close>).
  A bitmap is an array of 64-bit words and its bit \<open>i\<close> is \<open>abit a i\<close>.  Bit positions
  and sizes are natural numbers: a bitmap has far fewer than \<open>2 ^ 64 - 64\<close> bits, so the
  64-bit position arithmetic of the searches does not wrap.  The length argument of
  \<^verbatim>\<open>bitmap_set\<close> and \<^verbatim>\<open>bitmap_clear\<close> is a signed \<^verbatim>\<open>int\<close> and keeps its sign.

  The compiler builtins \<^verbatim>\<open>__builtin_ctzl\<close> and \<^verbatim>\<open>__builtin_clz\<close> are \<open>ctzl\<close> and \<open>clz\<close>;
  both are undefined in C at 0, and the code calls them on nonzero words only.
\<close>

section \<open>Bit scans\<close>

definition ctzl :: "u64 \<Rightarrow> nat" where
  "ctzl w = length (takeWhile (\<lambda>i. \<not> bit w i) [0..<64])"

definition clz :: "u32 \<Rightarrow> nat" where
  "clz w = length (takeWhile (\<lambda>i. \<not> bit w (31 - i)) [0..<32])"

definition raw_ffs :: "u64 \<Rightarrow> nat" where
  "raw_ffs word = ctzl word"

definition ffz :: "u64 \<Rightarrow> nat" where
  "ffz x = raw_ffs (NOT x)"

definition fls :: "u32 \<Rightarrow> nat" where
  "fls x = (if x \<noteq> 0 then 32 - clz x else 0)"

definition fls_step :: "nat \<Rightarrow> nat \<times> u64 \<Rightarrow> nat \<times> u64" where
  "fls_step k nw =
     (if snd nw AND push_bit (64 - k) (- 1) = 0 then (fst nw - k, push_bit k (snd nw)) else nw)"

definition raw_fls :: "u64 \<Rightarrow> nat" where
  "raw_fls word =
     (let nw = fls_step 2 (fls_step 4 (fls_step 8 (fls_step 16 (fls_step 32 (63, word)))))
      in if snd nw AND push_bit 63 (- 1) = 0 then fst nw - 1 else fst nw)"

definition fls64 :: "u64 \<Rightarrow> nat" where
  "fls64 x = (if x = 0 then 0 else raw_fls x + 1)"

definition fls_long :: "u64 \<Rightarrow> nat" where
  "fls_long l = fls64 l"

definition raw_sw_hweight64 :: "u64 \<Rightarrow> u64" where
  "raw_sw_hweight64 w =
     (let res = w - (drop_bit 1 w AND 0x5555555555555555);
          res = (res AND 0x3333333333333333) + (drop_bit 2 res AND 0x3333333333333333);
          res = (res + drop_bit 4 res) AND 0x0F0F0F0F0F0F0F0F;
          res = res + drop_bit 8 res;
          res = res + drop_bit 16 res
      in (res + drop_bit 32 res) AND 0x00000000000000FF)"

definition hweight_long :: "u64 \<Rightarrow> u64" where
  "hweight_long w = raw_sw_hweight64 w"

definition rol32 :: "u32 \<Rightarrow> u32 \<Rightarrow> u32" where
  "rol32 word shift =
     push_bit (unat shift) word OR drop_bit (unat ((- shift) AND 31)) word"

section \<open>Masks and sizes\<close>

definition BIT_MASK :: "nat \<Rightarrow> u64" where
  "BIT_MASK nr = push_bit (nr mod BITS_PER_LONG) 1"

definition BIT_WORD :: "nat \<Rightarrow> nat" where
  "BIT_WORD nr = nr div BITS_PER_LONG"

definition BITS_TO_LONGS :: "nat \<Rightarrow> nat" where
  "BITS_TO_LONGS nr = (nr + 64 - 1) div 64"

definition BITMAP_FIRST_WORD_MASK :: "nat \<Rightarrow> u64" where
  "BITMAP_FIRST_WORD_MASK start = push_bit (start mod BITS_PER_LONG) (- 1)"

definition BITMAP_LAST_WORD_MASK :: "nat \<Rightarrow> u64" where
  "BITMAP_LAST_WORD_MASK nbits =
     (if nbits mod BITS_PER_LONG \<noteq> 0 then push_bit (nbits mod BITS_PER_LONG) 1 - 1 else - 1)"

section \<open>Searching\<close>

text \<open>
  One word fetched by \<^verbatim>\<open>_find_next_bit\<close>: the first bitmap, masked by the optional second
  one and inverted for the searches for zeros.
\<close>

definition fetch_word :: "u64 arr \<Rightarrow> u64 arr option \<Rightarrow> u64 \<Rightarrow> u64 arr" where
  "fetch_word addr1 addr2 invert k =
     (case addr2 of None \<Rightarrow> addr1 k | Some b \<Rightarrow> addr1 k AND b k) XOR invert"

function find_word_loop :: "u64 arr \<Rightarrow> nat \<Rightarrow> nat \<Rightarrow> u64 \<Rightarrow> nat" where
  "find_word_loop f nbits start tmp =
     (if tmp \<noteq> 0 then min (start + raw_ffs tmp) nbits
      else if start + BITS_PER_LONG \<ge> nbits then nbits
      else find_word_loop f nbits (start + BITS_PER_LONG) (f ((start + BITS_PER_LONG) div BITS_PER_LONG)))"
  by pat_completeness auto
termination
  by (relation "measure (\<lambda>(f, nbits, start, tmp). nbits - start)") (auto simp: BITS_PER_LONG_def)

declare find_word_loop.simps [simp del]

definition raw_find_next_bit :: "u64 arr \<Rightarrow> u64 arr option \<Rightarrow> nat \<Rightarrow> nat \<Rightarrow> u64 \<Rightarrow> nat" where
  "raw_find_next_bit addr1 addr2 nbits start invert =
     (if start \<ge> nbits then nbits
      else find_word_loop (fetch_word addr1 addr2 invert) nbits
             (start div BITS_PER_LONG * BITS_PER_LONG)
             (fetch_word addr1 addr2 invert (start div BITS_PER_LONG) AND BITMAP_FIRST_WORD_MASK start))"

definition find_next_bit :: "u64 arr \<Rightarrow> nat \<Rightarrow> nat \<Rightarrow> nat" where
  "find_next_bit addr sz offset = raw_find_next_bit addr None sz offset 0"

definition find_next_zero_bit :: "u64 arr \<Rightarrow> nat \<Rightarrow> nat \<Rightarrow> nat" where
  "find_next_zero_bit addr sz offset = raw_find_next_bit addr None sz offset (- 1)"

definition find_next_and_bit :: "u64 arr \<Rightarrow> u64 arr \<Rightarrow> nat \<Rightarrow> nat \<Rightarrow> nat" where
  "find_next_and_bit addr1 addr2 sz offset = raw_find_next_bit addr1 (Some addr2) sz offset 0"

function find_first_bit_loop :: "u64 arr \<Rightarrow> nat \<Rightarrow> nat \<Rightarrow> nat" where
  "find_first_bit_loop addr sz idx =
     (if idx * BITS_PER_LONG < sz
      then if addr idx \<noteq> 0 then min (idx * BITS_PER_LONG + raw_ffs (addr idx)) sz
           else find_first_bit_loop addr sz (idx + 1)
      else sz)"
  by pat_completeness auto
termination
  by (relation "measure (\<lambda>(addr, sz, idx). sz - idx * BITS_PER_LONG)") (auto simp: BITS_PER_LONG_def)

declare find_first_bit_loop.simps [simp del]

definition find_first_bit :: "u64 arr \<Rightarrow> nat \<Rightarrow> nat" where
  "find_first_bit addr sz = find_first_bit_loop addr sz 0"

function find_first_zero_bit_loop :: "u64 arr \<Rightarrow> nat \<Rightarrow> nat \<Rightarrow> nat" where
  "find_first_zero_bit_loop addr sz idx =
     (if idx * BITS_PER_LONG < sz
      then if addr idx \<noteq> - 1 then min (idx * BITS_PER_LONG + ffz (addr idx)) sz
           else find_first_zero_bit_loop addr sz (idx + 1)
      else sz)"
  by pat_completeness auto
termination
  by (relation "measure (\<lambda>(addr, sz, idx). sz - idx * BITS_PER_LONG)") (auto simp: BITS_PER_LONG_def)

declare find_first_zero_bit_loop.simps [simp del]

definition find_first_zero_bit :: "u64 arr \<Rightarrow> nat \<Rightarrow> nat" where
  "find_first_zero_bit addr sz = find_first_zero_bit_loop addr sz 0"

section \<open>Bitmap operations\<close>

text \<open>
  The loop of \<^verbatim>\<open>bitmap_set\<close> and \<^verbatim>\<open>bitmap_clear\<close> handles the words that are covered up
  to their end; \<open>upd w m\<close> is the word update with mask \<open>m\<close>.  The state is the word
  index \<open>p\<close>, the length left, the bits left in the word and the mask.
\<close>

function bitmap_words_loop ::
  "(u64 \<Rightarrow> u64 \<Rightarrow> u64) \<Rightarrow> nat \<Rightarrow> int \<Rightarrow> int \<Rightarrow> u64 \<Rightarrow> u64 arr \<Rightarrow> nat \<times> int \<times> u64 \<times> u64 arr" where
  "bitmap_words_loop upd p len bits msk bm =
     (if len - bits \<ge> 0
      then bitmap_words_loop upd (p + 1) (len - bits) 64 (- 1) (bm(p := upd (bm p) msk))
      else (p, len, msk, bm))"
  by pat_completeness auto
termination
  by (relation "measures [\<lambda>(upd, p, len, bits, msk, bm). if bits = 64 then 0 else 1,
                          \<lambda>(upd, p, len, bits, msk, bm). nat len]") auto

declare bitmap_words_loop.simps [simp del]

definition bitmap_range :: "(u64 \<Rightarrow> u64 \<Rightarrow> u64) \<Rightarrow> u64 arr \<Rightarrow> nat \<Rightarrow> int \<Rightarrow> u64 arr" where
  "bitmap_range upd bm start len =
     (let sz = nat ((int start + len) mod 2 ^ 32);
          (p, left, msk, bm') =
            bitmap_words_loop upd (BIT_WORD start) len (64 - int (start mod BITS_PER_LONG))
              (BITMAP_FIRST_WORD_MASK start) bm
      in if left \<noteq> 0 then bm'(p := upd (bm' p) (msk AND BITMAP_LAST_WORD_MASK sz)) else bm')"

definition bitmap_set :: "u64 arr \<Rightarrow> nat \<Rightarrow> int \<Rightarrow> u64 arr" where
  "bitmap_set bm start len = bitmap_range (\<lambda>w m. w OR m) bm start len"

definition bitmap_clear :: "u64 arr \<Rightarrow> nat \<Rightarrow> int \<Rightarrow> u64 arr" where
  "bitmap_clear bm start len = bitmap_range (\<lambda>w m. w AND NOT m) bm start len"

definition bitmap_zero :: "u64 arr \<Rightarrow> nat \<Rightarrow> u64 arr" where
  "bitmap_zero dst nbits = (\<lambda>k. if k < BITS_TO_LONGS nbits then 0 else dst k)"

definition bitmap_fill :: "u64 arr \<Rightarrow> nat \<Rightarrow> u64 arr" where
  "bitmap_fill dst nbits =
     (\<lambda>k. if k < BITS_TO_LONGS nbits - 1 then - 1 else dst k)
       (BITS_TO_LONGS nbits - 1 := BITMAP_LAST_WORD_MASK nbits)"

definition bitmap_empty :: "u64 arr \<Rightarrow> nat \<Rightarrow> bool" where
  "bitmap_empty src nbits \<longleftrightarrow> find_first_bit src nbits = nbits"

definition bitmap_full :: "u64 arr \<Rightarrow> nat \<Rightarrow> bool" where
  "bitmap_full src nbits \<longleftrightarrow> find_first_zero_bit src nbits = nbits"

definition raw_bitmap_weight :: "u64 arr \<Rightarrow> nat \<Rightarrow> u64" where
  "raw_bitmap_weight bitmap bits =
     (let lim = bits div BITS_PER_LONG;
          w = fold (\<lambda>k w. w + hweight_long (bitmap k)) [0..<lim] 0
      in if bits mod BITS_PER_LONG \<noteq> 0
         then w + hweight_long (bitmap lim AND BITMAP_LAST_WORD_MASK bits) else w)"

definition raw_bitmap_or :: "u64 arr \<Rightarrow> u64 arr \<Rightarrow> u64 arr \<Rightarrow> nat \<Rightarrow> u64 arr" where
  "raw_bitmap_or dst bitmap1 bitmap2 bits =
     fold (\<lambda>k d. d(k := bitmap1 k OR bitmap2 k)) [0..<BITS_TO_LONGS bits] dst"

definition raw_bitmap_and :: "u64 arr \<Rightarrow> u64 arr \<Rightarrow> u64 arr \<Rightarrow> nat \<Rightarrow> bool \<times> u64 arr" where
  "raw_bitmap_and dst bitmap1 bitmap2 bits =
     (let lim = bits div BITS_PER_LONG;
          rd = fold (\<lambda>k rd. (fst rd OR (bitmap1 k AND bitmap2 k), (snd rd)(k := bitmap1 k AND bitmap2 k)))
                 [0..<lim] (0, dst);
          v = bitmap1 lim AND bitmap2 lim AND BITMAP_LAST_WORD_MASK bits
      in if bits mod BITS_PER_LONG \<noteq> 0 then (fst rd OR v \<noteq> 0, (snd rd)(lim := v))
         else (fst rd \<noteq> 0, snd rd))"

definition raw_bitmap_equal :: "u64 arr \<Rightarrow> u64 arr \<Rightarrow> nat \<Rightarrow> bool" where
  "raw_bitmap_equal bitmap1 bitmap2 bits =
     (let lim = bits div BITS_PER_LONG
      in list_all (\<lambda>k. bitmap1 k = bitmap2 k) [0..<lim] \<and>
         (bits mod BITS_PER_LONG \<noteq> 0 \<longrightarrow>
            (bitmap1 lim XOR bitmap2 lim) AND BITMAP_LAST_WORD_MASK bits = 0))"

definition test_and_set_bit :: "nat \<Rightarrow> u64 arr \<Rightarrow> bool \<times> u64 arr" where
  "test_and_set_bit nr addr =
     (let msk = BIT_MASK nr; p = BIT_WORD nr; old = addr p
      in (old AND msk \<noteq> 0, addr(p := old OR msk)))"

definition test_and_clear_bit :: "nat \<Rightarrow> u64 arr \<Rightarrow> bool \<times> u64 arr" where
  "test_and_clear_bit nr addr =
     (let msk = BIT_MASK nr; p = BIT_WORD nr; old = addr p
      in (old AND msk \<noteq> 0, addr(p := old AND NOT msk)))"

section \<open>Bit scans find the lowest bit\<close>

lemma ctzl_eq_first: "w \<noteq> 0 \<Longrightarrow> first_from (bit w) 0 64 = Some (ctzl w)"
proof -
  assume "w \<noteq> 0"
  then obtain i where "bit w i" by (auto simp: bit_eq_iff)
  then have "first_from (bit w) 0 64 \<noteq> None"
    using bit_imp_le_length [of w i] by (auto simp: first_from_None_iff)
  then show ?thesis
    unfolding ctzl_def length_takeWhile_first by auto
qed

lemma ctzl_props:
  assumes "w \<noteq> 0"
  shows "ctzl w < 64" and "bit w (ctzl w)" and "i < ctzl w \<Longrightarrow> \<not> bit w i"
  using ctzl_eq_first [OF assms] by (auto simp: first_from_Some_iff)

section \<open>The searches return the next index\<close>

text \<open>A word whose bits below \<open>lo\<close> are masked out, seen as positions of the array.\<close>

lemma masked_word_bit:
  "bit (f (start div 64) AND push_bit (lo mod 64) (- 1 :: u64)) i \<longleftrightarrow>
     i < 64 \<and> lo mod 64 \<le> i \<and> abit f (start div 64 * 64 + i)"
proof (cases "i < 64")
  case True
  then show ?thesis by (auto simp: bit_simps mask_bits abit_def)
next
  case False
  then show ?thesis by (simp add: bit_simps)
qed

lemma find_word_loop_hit:
  "tmp \<noteq> 0 \<Longrightarrow> find_word_loop f nbits start tmp = min (start + ctzl tmp) nbits"
  by (subst find_word_loop.simps) (simp add: raw_ffs_def)

lemma find_word_loop_last:
  "nbits \<le> start + 64 \<Longrightarrow> find_word_loop f nbits start 0 = nbits"
  by (subst find_word_loop.simps) (simp add: BITS_PER_LONG_def)

lemma find_word_loop_next:
  "\<not> nbits \<le> start + 64 \<Longrightarrow>
     find_word_loop f nbits start 0 = find_word_loop f nbits (start + 64) (f ((start + 64) div 64))"
  by (subst find_word_loop.simps) (simp only: BITS_PER_LONG_def, simp)

lemma find_word_loop_first:
  assumes "start mod 64 = 0" "start \<le> lo" "lo < start + 64" "lo < nbits"
    and "tmp = f (start div 64) AND push_bit (lo mod 64) (- 1)"
  shows "find_word_loop f nbits start tmp = first_or (abit f) lo nbits"
  using assms
proof (induction f nbits start tmp arbitrary: lo rule: find_word_loop.induct)
  case (1 f nbits start tmp)
  have start: "start div 64 * 64 = start"
    using "1.prems"(1) by (metis add.right_neutral div_mult_mod_eq)
  have "lo mod 64 = (start mod 64 + (lo - start)) mod 64"
    using "1.prems"(2) by (simp only: mod_add_left_eq le_add_diff_inverse)
  then have lo: "lo = start + lo mod 64"
    using "1.prems"(1-3) by simp
  have tmp: "bit tmp i \<longleftrightarrow> i < 64 \<and> lo \<le> start + i \<and> abit f (start + i)" for i
    unfolding "1.prems"(5) masked_word_bit start using lo by linarith
  show ?case
  proof (cases "tmp = 0")
    case False
    note c = ctzl_props [OF False]
    have clear: "\<not> abit f j" if "lo \<le> j" "j < start + ctzl tmp" for j
      using c(3) [of "j - start"] tmp [of "j - start"] c(1) "1.prems"(2) that by simp
    have "find_word_loop f nbits start tmp = min (start + ctzl tmp) nbits"
      using False by (rule find_word_loop_hit)
    also have "\<dots> = first_or (abit f) lo nbits"
    proof (cases "start + ctzl tmp < nbits")
      case True
      with c(2) tmp [of "ctzl tmp"] clear show ?thesis
        by (subst first_or_eqI [of _ "start + ctzl tmp"]) auto
    next
      case False
      with clear show ?thesis by (subst first_or_none) auto
    qed
    finally show ?thesis .
  next
    case True
    have clear: "\<not> abit f j" if "lo \<le> j" "j < start + 64" for j
      using tmp [of "j - start"] True "1.prems"(2) that by auto
    show ?thesis
    proof (cases "nbits \<le> start + 64")
      case True
      then show ?thesis
        unfolding \<open>tmp = 0\<close> find_word_loop_last [OF True]
        by (intro first_or_none [symmetric] clear) auto
    next
      case False
      have IH: "find_word_loop f nbits (start + 64) (f ((start + 64) div 64)) =
          first_or (abit f) (start + 64) nbits"
        using "1.IH" [of "start + 64"] \<open>tmp = 0\<close> False "1.prems"(1)
        by (simp add: BITS_PER_LONG_def)
      have "find_word_loop f nbits start tmp = first_or (abit f) (start + 64) nbits"
        unfolding \<open>tmp = 0\<close> find_word_loop_next [OF False] IH ..
      also have "\<dots> = first_or (abit f) lo nbits"
        using clear "1.prems"(3) by (intro first_or_skip_to [symmetric]) auto
      finally show ?thesis .
    qed
  qed
qed

lemma raw_find_next_bit_first:
  "raw_find_next_bit a b nbits start iv = first_or (abit (fetch_word a b iv)) start nbits"
proof (cases "start < nbits")
  case True
  have "start mod 64 < 64" by simp
  then have "start < start div 64 * 64 + 64" by (metis add_less_cancel_left div_mult_mod_eq)
  then have "find_word_loop (fetch_word a b iv) nbits (start div 64 * 64)
      (fetch_word a b iv (start div 64) AND push_bit (start mod 64) (- 1)) =
      first_or (abit (fetch_word a b iv)) start nbits"
    using True by (intro find_word_loop_first) simp_all
  with True show ?thesis
    by (simp add: raw_find_next_bit_def BITS_PER_LONG_def BITMAP_FIRST_WORD_MASK_def)
next
  case False
  then show ?thesis by (simp add: raw_find_next_bit_def first_or_none)
qed

lemma find_next_bit_first: "find_next_bit a n i = first_or (abit a) i n"
  by (simp add: find_next_bit_def raw_find_next_bit_first fetch_word_def [abs_def])

lemma find_next_zero_bit_first: "find_next_zero_bit a n i = first_or (\<lambda>j. \<not> abit a j) i n"
  unfolding find_next_zero_bit_def raw_find_next_bit_first
  by (rule first_or_cong) (simp add: fetch_word_def abit_def bit_simps)

lemma find_next_and_bit_first:
  "find_next_and_bit a b n i = first_or (\<lambda>j. abit a j \<and> abit b j) i n"
  unfolding find_next_and_bit_def raw_find_next_bit_first
  by (rule first_or_cong) (simp add: fetch_word_def abit_def bit_simps)

lemma word_search_step:
  assumes nz: "w \<noteq> 0" and w: "\<And>i. i < 64 \<Longrightarrow> bit w i \<longleftrightarrow> P (idx * 64 + i)" and lt: "idx * 64 < n"
  shows "min (idx * 64 + ctzl w) n = first_or P (idx * 64) n"
proof -
  note c = ctzl_props [OF nz]
  have clear: "\<not> P j" if "idx * 64 \<le> j" "j < idx * 64 + ctzl w" for j
    using c(3) [of "j - idx * 64"] w [of "j - idx * 64"] c(1) that by simp
  show ?thesis
  proof (cases "idx * 64 + ctzl w < n")
    case True
    then have "first_or P (idx * 64) n = idx * 64 + ctzl w"
      using c w [of "ctzl w"] clear by (intro first_or_eqI) auto
    with True show ?thesis by simp
  next
    case False
    then have "first_or P (idx * 64) n = n"
      using clear by (intro first_or_none) auto
    with False show ?thesis by simp
  qed
qed

lemma word_search_skip:
  assumes "\<And>i. i < 64 \<Longrightarrow> \<not> P (idx * 64 + i)"
  shows "first_or P (idx * 64) n = first_or P (Suc idx * 64) n"
proof (rule first_or_skip_to)
  fix j assume "idx * 64 \<le> j" "j < Suc idx * 64"
  then show "\<not> P j" using assms [of "j - idx * 64"] by simp
qed simp

lemma find_first_bit_loop_first:
  "find_first_bit_loop a n idx = first_or (abit a) (idx * 64) n"
proof (induction a n idx rule: find_first_bit_loop.induct)
  case (1 a n idx)
  have w: "bit (a idx) i \<longleftrightarrow> abit a (idx * 64 + i)" if "i < 64" for i
    using that by (simp add: abit_def)
  show ?case
  proof (cases "idx * 64 < n")
    case lt: True
    show ?thesis
    proof (cases "a idx = 0")
      case True
      with w have "\<not> abit a (idx * 64 + i)" if "i < 64" for i using that by force
      then have "first_or (abit a) (idx * 64) n = first_or (abit a) (Suc idx * 64) n"
        by (rule word_search_skip)
      moreover have "find_first_bit_loop a n (idx + 1) = first_or (abit a) ((idx + 1) * 64) n"
        using lt True by (intro "1.IH") (simp_all add: BITS_PER_LONG_def)
      ultimately show ?thesis
        using lt True by (subst find_first_bit_loop.simps) (simp add: BITS_PER_LONG_def)
    next
      case False
      with lt show ?thesis
        by (subst find_first_bit_loop.simps)
           (simp add: BITS_PER_LONG_def raw_ffs_def word_search_step [OF False w lt])
    qed
  next
    case False
    then show ?thesis
      by (subst find_first_bit_loop.simps) (simp add: BITS_PER_LONG_def first_or_none)
  qed
qed

lemma find_first_zero_bit_loop_first:
  "find_first_zero_bit_loop a n idx = first_or (\<lambda>j. \<not> abit a j) (idx * 64) n"
proof (induction a n idx rule: find_first_zero_bit_loop.induct)
  case (1 a n idx)
  have w: "bit (NOT (a idx)) i \<longleftrightarrow> \<not> abit a (idx * 64 + i)" if "i < 64" for i
    using that by (simp add: abit_def bit_simps)
  show ?case
  proof (cases "idx * 64 < n")
    case lt: True
    show ?thesis
    proof (cases "a idx = - 1")
      case True
      then have "\<not> \<not> abit a (idx * 64 + i)" if "i < 64" for i using that by (simp add: abit_def)
      then have "first_or (\<lambda>j. \<not> abit a j) (idx * 64) n = first_or (\<lambda>j. \<not> abit a j) (Suc idx * 64) n"
        by (rule word_search_skip)
      moreover have "find_first_zero_bit_loop a n (idx + 1) =
          first_or (\<lambda>j. \<not> abit a j) ((idx + 1) * 64) n"
        using lt True by (intro "1.IH") (simp_all add: BITS_PER_LONG_def)
      ultimately show ?thesis
        using lt True by (subst find_first_zero_bit_loop.simps) (simp add: BITS_PER_LONG_def)
    next
      case False
      then have "NOT (a idx) \<noteq> 0" by (metis bit.compl_zero bit.double_compl)
      from word_search_step [OF this w lt] lt False show ?thesis
        by (subst find_first_zero_bit_loop.simps) (simp add: BITS_PER_LONG_def raw_ffs_def ffz_def)
    qed
  next
    case False
    then show ?thesis
      by (subst find_first_zero_bit_loop.simps) (simp add: BITS_PER_LONG_def first_or_none)
  qed
qed

lemmas find_first_loops = find_first_bit_loop_first find_first_zero_bit_loop_first

lemma find_first_bit_first: "find_first_bit a n = first_or (abit a) 0 n"
  by (simp add: find_first_bit_def find_first_loops)

lemma find_first_zero_bit_first: "find_first_zero_bit a n = first_or (\<lambda>j. \<not> abit a j) 0 n"
  by (simp add: find_first_zero_bit_def find_first_loops)

section \<open>Setting and clearing a range\<close>

text \<open>
  A word update sets the bits of the mask to \<open>v\<close>: \<open>True\<close> for \<^verbatim>\<open>bitmap_set\<close> and
  \<open>False\<close> for \<^verbatim>\<open>bitmap_clear\<close>.
\<close>

definition sets_bits :: "(u64 \<Rightarrow> u64 \<Rightarrow> u64) \<Rightarrow> bool \<Rightarrow> bool" where
  "sets_bits upd v \<longleftrightarrow> (\<forall>w m i. i < 64 \<longrightarrow> bit (upd w m) i = (if bit m i then v else bit w i))"

lemma sets_bits_or: "sets_bits (\<lambda>w m. w OR m) True"
  by (simp add: sets_bits_def bit_simps)

lemma sets_bits_andnot: "sets_bits (\<lambda>w m. w AND NOT m) False"
  by (simp add: sets_bits_def bit_simps)

lemma abit_word_upd:
  assumes "sets_bits upd v"
  shows "abit (bm(p := upd (bm p) m)) i =
           (if i div 64 = p \<and> bit m (i mod 64) then v else abit bm i)"
  using assms by (auto simp: sets_bits_def abit_def)

lemma abit_set_from:
  assumes "sets_bits upd v" "off < 64"
  shows "abit (bm(p := upd (bm p) (push_bit off (- 1)))) i =
           (if p * 64 + off \<le> i \<and> i < Suc p * 64 then v else abit bm i)"
proof -
  have "i div 64 = p \<and> off \<le> i mod 64 \<longleftrightarrow> p * 64 + off \<le> i \<and> i < Suc p * 64"
  proof
    assume "i div 64 = p \<and> off \<le> i mod 64"
    moreover have "i = i div 64 * 64 + i mod 64" "i mod 64 < 64" by simp_all
    ultimately show "p * 64 + off \<le> i \<and> i < Suc p * 64" by simp
  next
    assume a: "p * 64 + off \<le> i \<and> i < Suc p * 64"
    then have "i div 64 = p"
      by (simp add: div_nat_eqI)
    moreover have "i = i div 64 * 64 + i mod 64" by simp
    ultimately show "i div 64 = p \<and> off \<le> i mod 64" using a by simp
  qed
  then show ?thesis
    by (auto simp: abit_word_upd [OF assms(1)] bit_simps)
qed

lemma bitmap_words_loop_sets:
  assumes u: "sets_bits upd v" and off: "off < 64"
  shows "\<exists>p' off' left bm'.
     bitmap_words_loop upd p (int len) (64 - int off) (push_bit off (- 1)) bm =
       (p', int left, push_bit off' (- 1), bm') \<and>
     off' + left < 64 \<and> p' * 64 + off' + left = p * 64 + off + len \<and> p * 64 + off \<le> p' * 64 + off' \<and>
     (\<forall>i. abit bm' i = (if p * 64 + off \<le> i \<and> i < p' * 64 + off' then v else abit bm i))"
  using off
proof (induction len arbitrary: p off bm rule: less_induct)
  case (less len)
  show ?case
  proof (cases "64 \<le> len + off")
    case False
    then show ?thesis
      by (subst bitmap_words_loop.simps) (auto intro!: exI [of _ off] exI [of _ len])
  next
    case True
    define len' bm1 where "len' = len + off - 64" and
      "bm1 = bm(p := upd (bm p) (push_bit off (- 1)))"
    have step: "bitmap_words_loop upd p (int len) (64 - int off) (push_bit off (- 1)) bm =
        bitmap_words_loop upd (Suc p) (int len') (64 - int 0) (push_bit 0 (- 1)) bm1"
      using True by (subst bitmap_words_loop.simps) (simp add: len'_def bm1_def of_nat_diff algebra_simps)
    have bm1: "abit bm1 i = (if p * 64 + off \<le> i \<and> i < Suc p * 64 then v else abit bm i)" for i
      unfolding bm1_def using u less.prems by (rule abit_set_from)
    have "len' < len" using True less.prems by (simp add: len'_def)
    from less.IH [OF this, of 0 "Suc p" bm1] obtain p' off' left bm' where
      IH: "bitmap_words_loop upd (Suc p) (int len') (64 - int 0) (push_bit 0 (- 1)) bm1 =
        (p', int left, push_bit off' (- 1), bm')"
      "off' + left < 64" "p' * 64 + off' + left = Suc p * 64 + len'" "Suc p * 64 \<le> p' * 64 + off'"
      "\<forall>i. abit bm' i = (if Suc p * 64 \<le> i \<and> i < p' * 64 + off' then v else abit bm1 i)"
      by auto
    have "p' * 64 + off' + left = p * 64 + off + len"
      using IH(3) True by (simp add: len'_def)
    moreover have "\<forall>i. abit bm' i = (if p * 64 + off \<le> i \<and> i < p' * 64 + off' then v else abit bm i)"
      using IH(4,5) bm1 less.prems by auto
    ultimately show ?thesis
      unfolding step IH(1) using IH(2,4) less.prems by auto
  qed
qed

lemma bitmap_range_sets:
  assumes u: "sets_bits upd v" and b: "start + len < 2 ^ 32"
  shows "abit (bitmap_range upd bm start (int len)) i =
           (if start \<le> i \<and> i < start + len then v else abit bm i)"
proof -
  have start: "BIT_WORD start * 64 + start mod 64 = start"
    by (simp add: BIT_WORD_def BITS_PER_LONG_def)
  obtain p off left bm' where
    L: "bitmap_words_loop upd (BIT_WORD start) (int len) (64 - int (start mod 64))
          (push_bit (start mod 64) (- 1)) bm = (p, int left, push_bit off (- 1), bm')"
    "off + left < 64" "p * 64 + off + left = start + len" "start \<le> p * 64 + off"
    "\<forall>i. abit bm' i = (if start \<le> i \<and> i < p * 64 + off then v else abit bm i)"
    using bitmap_words_loop_sets [OF u, of "start mod 64" "BIT_WORD start" len bm] start by auto
  have sz: "nat ((int start + int len) mod 2 ^ 32) = start + len"
    using b by (simp flip: of_nat_add)
  have eq: "bitmap_range upd bm start (int len) =
     (if left \<noteq> 0 then bm'(p := upd (bm' p) (push_bit off (- 1) AND BITMAP_LAST_WORD_MASK (start + len)))
      else bm')"
    unfolding bitmap_range_def sz BITMAP_FIRST_WORD_MASK_def BITS_PER_LONG_def L(1) by simp
  show ?thesis
  proof (cases "left = 0")
    case True
    then show ?thesis using L(3,5) by (simp add: eq)
  next
    case False
    have m: "(start + len) mod 64 = off + left"
      unfolding L(3) [symmetric] using L(2) by (simp add: add.assoc)
    have msk: "bit (push_bit off (- 1 :: u64) AND BITMAP_LAST_WORD_MASK (start + len)) j \<longleftrightarrow>
        off \<le> j \<and> j < off + left" for j
      unfolding BITMAP_LAST_WORD_MASK_def BITS_PER_LONG_def m
      using False L(2) by (auto simp: bit_simps mask_bits)
    have "i div 64 = p \<and> off \<le> i mod 64 \<and> i mod 64 < off + left \<longleftrightarrow>
        p * 64 + off \<le> i \<and> i < p * 64 + off + left"
    proof
      assume "i div 64 = p \<and> off \<le> i mod 64 \<and> i mod 64 < off + left"
      moreover have "i = i div 64 * 64 + i mod 64" by simp
      ultimately show "p * 64 + off \<le> i \<and> i < p * 64 + off + left" by linarith
    next
      assume a: "p * 64 + off \<le> i \<and> i < p * 64 + off + left"
      then have "i div 64 = p" using L(2) by (simp add: div_nat_eqI)
      moreover have "i = i div 64 * 64 + i mod 64" by simp
      ultimately show "i div 64 = p \<and> off \<le> i mod 64 \<and> i mod 64 < off + left" using a by simp
    qed
    then have "abit (bitmap_range upd bm start (int len)) i =
        (if p * 64 + off \<le> i \<and> i < start + len then v
         else if start \<le> i \<and> i < p * 64 + off then v else abit bm i)"
      using False L(3,5) by (simp only: eq if_True abit_word_upd [OF u] msk simp_thms)
    moreover have "p * 64 + off \<le> start + len" using L(3) by linarith
    ultimately show ?thesis
      using L(4) by (cases "p * 64 + off \<le> i") simp_all
  qed
qed

lemma abit_bitmap_set:
  "start + len < 2 ^ 32 \<Longrightarrow>
     abit (bitmap_set bm start (int len)) i = (start \<le> i \<and> i < start + len \<or> abit bm i)"
  unfolding bitmap_set_def using bitmap_range_sets [OF sets_bits_or, of start len bm i] by auto

lemma abit_bitmap_clear:
  "start + len < 2 ^ 32 \<Longrightarrow>
     abit (bitmap_clear bm start (int len)) i = (abit bm i \<and> \<not> (start \<le> i \<and> i < start + len))"
  unfolding bitmap_clear_def using bitmap_range_sets [OF sets_bits_andnot, of start len bm i] by auto

lemma bitmap_set_one: "i < 2 ^ 31 \<Longrightarrow> abit (bitmap_set bm i 1) j \<longleftrightarrow> j = i \<or> abit bm j"
  using abit_bitmap_set [of i 1 bm j] by auto

lemma bitmap_clear_one: "i < 2 ^ 31 \<Longrightarrow> abit (bitmap_clear bm i 1) j \<longleftrightarrow> j \<noteq> i \<and> abit bm j"
  using abit_bitmap_clear [of i 1 bm j] by auto

section \<open>Operations on whole bitmaps\<close>

lemma bit_BIT_MASK [mask_bits]: "bit (BIT_MASK nr) i \<longleftrightarrow> i = nr mod 64"
  by (auto simp: BIT_MASK_def BITS_PER_LONG_def mask_bits)

lemma and_BIT_MASK: "(w AND BIT_MASK nr \<noteq> 0) \<longleftrightarrow> bit w (nr mod 64)"
  by (auto simp: and_zero_iff mask_bits)

lemma div_mod_64_eq: "i div 64 = j div 64 \<Longrightarrow> i mod 64 = j mod 64 \<Longrightarrow> i = (j :: nat)"
  by (metis div_mult_mod_eq)

lemma test_and_set_bit_props:
  "fst (test_and_set_bit nr a) = abit a nr"
  "abit (snd (test_and_set_bit nr a)) i \<longleftrightarrow> i = nr \<or> abit a i"
proof -
  show "fst (test_and_set_bit nr a) = abit a nr"
    by (simp add: test_and_set_bit_def and_BIT_MASK abit_def BIT_WORD_def BITS_PER_LONG_def Let_def)
  show "abit (snd (test_and_set_bit nr a)) i \<longleftrightarrow> i = nr \<or> abit a i"
    using div_mod_64_eq [of i nr]
    by (auto simp: test_and_set_bit_def Let_def abit_def BIT_WORD_def BITS_PER_LONG_def bit_or_iff mask_bits)
qed

lemma test_and_clear_bit_props:
  "fst (test_and_clear_bit nr a) = abit a nr"
  "abit (snd (test_and_clear_bit nr a)) i \<longleftrightarrow> i \<noteq> nr \<and> abit a i"
proof -
  show "fst (test_and_clear_bit nr a) = abit a nr"
    by (simp add: test_and_clear_bit_def and_BIT_MASK abit_def BIT_WORD_def BITS_PER_LONG_def Let_def)
  show "abit (snd (test_and_clear_bit nr a)) i \<longleftrightarrow> i \<noteq> nr \<and> abit a i"
    using div_mod_64_eq [of i nr]
    by (auto simp: test_and_clear_bit_def Let_def abit_def BIT_WORD_def BITS_PER_LONG_def bit_simps mask_bits)
qed

lemma bit_LAST_WORD_MASK:
  "n mod 64 \<noteq> 0 \<Longrightarrow> bit (BITMAP_LAST_WORD_MASK n) i \<longleftrightarrow> i < n mod 64"
  using mod_less_divisor [of 64 n] by (auto simp: BITMAP_LAST_WORD_MASK_def BITS_PER_LONG_def mask_bits)

text \<open>The positions below \<open>n\<close>: those of the full words and those of the partial last word.\<close>

lemma below_words:
  "i < n \<longleftrightarrow> i div 64 < n div 64 \<or> n mod 64 \<noteq> 0 \<and> i div 64 = n div 64 \<and> i mod 64 < n mod 64"
  for i n :: nat
proof -
  define p r q s where "p = i div 64" "r = i mod 64" "q = n div 64" "s = n mod 64"
  then have "i = 64 * p + r" "n = 64 * q + s" "r < 64" "s < 64" by simp_all
  then have "i < n \<longleftrightarrow> p < q \<or> s \<noteq> 0 \<and> p = q \<and> r < s" by (cases p q rule: linorder_cases) auto
  then show ?thesis by (simp only: p_r_q_s_def)
qed

lemma below_wordsE:
  assumes "i < (n :: nat)"
  obtains "i div 64 < n div 64" | "n mod 64 \<noteq> 0" "i div 64 = n div 64" "i mod 64 < n mod 64"
  using assms below_words by blast

lemma word_below: "k < n div 64 \<Longrightarrow> j < 64 \<Longrightarrow> k * 64 + j < (n :: nat)"
  by (simp add: below_words [of _ n])

lemma last_word_below: "j < n mod 64 \<Longrightarrow> n div 64 * 64 + j < (n :: nat)"
  using div_mult_mod_eq [of n 64] by linarith

lemma fold_upd_upto:
  "fold (\<lambda>k d. d(k := f k)) [0..<n] d = (\<lambda>k. if k < n then f k else d k)"
  by (induction n) (auto simp: fun_eq_iff)

lemma raw_bitmap_or_words:
  "raw_bitmap_or dst a b n k = (if k < BITS_TO_LONGS n then a k OR b k else dst k)"
  by (simp add: raw_bitmap_or_def fold_upd_upto)

lemma below_longs: "i < n \<Longrightarrow> i div 64 < BITS_TO_LONGS n"
proof -
  assume "i < n"
  then have "i div 64 \<le> (n - 1) div 64" by (intro div_le_mono) simp
  also have "(n - 1) div 64 < (n - 1) div 64 + 1" by simp
  also have "\<dots> = (n - 1 + 64) div 64" by simp
  finally show ?thesis using \<open>i < n\<close> by (simp add: BITS_TO_LONGS_def)
qed

lemma abit_raw_bitmap_or: "i < n \<Longrightarrow> abit (raw_bitmap_or dst a b n) i \<longleftrightarrow> abit a i \<or> abit b i"
  by (simp add: abit_def raw_bitmap_or_words below_longs bit_or_iff)

lemma bitmap_and_fold:
  fixes a b :: "u64 arr"
  defines "step \<equiv> (\<lambda>k rd. (fst rd OR (a k AND b k), (snd rd)(k := a k AND b k)))"
  shows "snd (fold step [0..<n] (0, dst)) = (\<lambda>k. if k < n then a k AND b k else dst k)"
    and "fst (fold step [0..<n] (0, dst)) = 0 \<longleftrightarrow> (\<forall>k<n. a k AND b k = 0)"
  by (induction n) (auto simp: step_def fun_eq_iff less_Suc_eq or_eq_0_iff)

lemma and_words_zero_iff:
  fixes a b :: "u64 arr"
  shows "(\<forall>k<n div 64. a k AND b k = 0) \<and>
      (n mod 64 \<noteq> 0 \<longrightarrow> a (n div 64) AND b (n div 64) AND BITMAP_LAST_WORD_MASK n = 0)
    \<longleftrightarrow> \<not> (\<exists>i<n. abit a i \<and> abit b i)"
proof
  assume z: "(\<forall>k<n div 64. a k AND b k = 0) \<and>
      (n mod 64 \<noteq> 0 \<longrightarrow> a (n div 64) AND b (n div 64) AND BITMAP_LAST_WORD_MASK n = 0)"
  have "\<not> (abit a i \<and> abit b i)" if "i < n" for i
  proof (cases rule: below_wordsE [OF that])
    case 1
    with z have "a (i div 64) AND b (i div 64) = 0" by simp
    then have "\<not> bit (a (i div 64) AND b (i div 64)) (i mod 64)" by simp
    then show ?thesis by (simp add: abit_def bit_and_iff)
  next
    case 2
    with z have "a (i div 64) AND b (i div 64) AND BITMAP_LAST_WORD_MASK n = 0" by simp
    then have "\<not> bit (a (i div 64) AND b (i div 64) AND BITMAP_LAST_WORD_MASK n) (i mod 64)" by simp
    moreover have "bit (BITMAP_LAST_WORD_MASK n) (i mod 64)" using 2 by (simp add: bit_LAST_WORD_MASK)
    ultimately show ?thesis by (simp add: abit_def bit_and_iff)
  qed
  then show "\<not> (\<exists>i<n. abit a i \<and> abit b i)" by blast
next
  assume nz: "\<not> (\<exists>i<n. abit a i \<and> abit b i)"
  have word: "\<not> (bit (a k) j \<and> bit (b k) j)" if "k * 64 + j < n" "j < 64" for k j
    using nz that by (simp add: bit_eq_abit)
  have "a k AND b k = 0" if "k < n div 64" for k
  proof (rule bit_word_eqI)
    fix j assume "j < LENGTH(64)"
    with word [of k j] word_below [OF that, of j] show "bit (a k AND b k) j = bit 0 j"
      by (simp add: bit_and_iff)
  qed
  moreover have "a (n div 64) AND b (n div 64) AND BITMAP_LAST_WORD_MASK n = 0" if "n mod 64 \<noteq> 0"
  proof (rule bit_word_eqI)
    fix j assume "j < LENGTH(64)"
    with word [of "n div 64" j] last_word_below [of j n]
    show "bit (a (n div 64) AND b (n div 64) AND BITMAP_LAST_WORD_MASK n) j = bit 0 j"
      by (auto simp: bit_and_iff bit_LAST_WORD_MASK [OF that])
  qed
  ultimately show "(\<forall>k<n div 64. a k AND b k = 0) \<and>
      (n mod 64 \<noteq> 0 \<longrightarrow> a (n div 64) AND b (n div 64) AND BITMAP_LAST_WORD_MASK n = 0)"
    by blast
qed

lemma raw_bitmap_and_result:
  "fst (raw_bitmap_and dst a b n) \<longleftrightarrow> (\<exists>i<n. abit a i \<and> abit b i)"
  "i < n \<Longrightarrow> abit (snd (raw_bitmap_and dst a b n)) i \<longleftrightarrow> abit a i \<and> abit b i"
proof -
  show "fst (raw_bitmap_and dst a b n) \<longleftrightarrow> (\<exists>i<n. abit a i \<and> abit b i)"
    using and_words_zero_iff [of n a b]
    by (auto simp: raw_bitmap_and_def Let_def BITS_PER_LONG_def bitmap_and_fold or_eq_0_iff)
  assume "i < n"
  then show "abit (snd (raw_bitmap_and dst a b n)) i \<longleftrightarrow> abit a i \<and> abit b i"
    by (cases rule: below_wordsE)
       (simp_all add: raw_bitmap_and_def Let_def BITS_PER_LONG_def bitmap_and_fold abit_def bit_and_iff
        bit_LAST_WORD_MASK)
qed

lemma raw_bitmap_equal_iff: "raw_bitmap_equal a b n \<longleftrightarrow> (\<forall>i<n. abit a i = abit b i)"
proof
  assume e: "raw_bitmap_equal a b n"
  show "\<forall>i<n. abit a i = abit b i"
  proof (intro allI impI)
    fix i assume "i < n"
    then show "abit a i = abit b i"
    proof (cases rule: below_wordsE)
      case 1
      with e show ?thesis by (simp add: raw_bitmap_equal_def abit_def BITS_PER_LONG_def list_all_iff Let_def)
    next
      case 2
      with e have "(a (n div 64) XOR b (n div 64)) AND BITMAP_LAST_WORD_MASK n = 0"
        by (simp add: raw_bitmap_equal_def BITS_PER_LONG_def Let_def)
      with 2 show ?thesis by (simp add: and_zero_iff bit_LAST_WORD_MASK bit_xor_iff abit_def)
    qed
  qed
next
  assume e: "\<forall>i<n. abit a i = abit b i"
  have "a k = b k" if "k < n div 64" for k
  proof (rule bit_word_eqI)
    fix j assume "j < LENGTH(64)"
    with that have "k * 64 + j < n" "j < 64" using word_below by simp_all
    with e show "bit (a k) j = bit (b k) j" by (simp add: bit_eq_abit)
  qed
  moreover have "bit (a (n div 64)) j = bit (b (n div 64)) j" if "j < n mod 64" for j
  proof -
    have "n div 64 * 64 + j < n" "j < 64"
      using that last_word_below mod_less_divisor [of 64 n] by simp_all
    with e show ?thesis by (simp add: bit_eq_abit)
  qed
  ultimately show "raw_bitmap_equal a b n"
    by (auto simp: raw_bitmap_equal_def Let_def BITS_PER_LONG_def list_all_iff and_zero_iff bit_LAST_WORD_MASK bit_xor_iff)
qed

section \<open>The highest set bit\<close>

text \<open>
  The state \<open>(n, w)\<close> of the halving search of \<^verbatim>\<open>__fls\<close>: \<open>w\<close> is the word shifted so that
  bit \<open>n\<close> is on top, and the highest set bit \<open>h\<close> is among the \<open>m\<close> positions up to \<open>n\<close>.
\<close>

definition fls_inv :: "u64 \<Rightarrow> nat \<Rightarrow> nat \<Rightarrow> nat \<times> u64 \<Rightarrow> bool" where
  "fls_inv x h m nw \<longleftrightarrow> snd nw = push_bit (63 - fst nw) x \<and> h \<le> fst nw \<and> fst nw \<le> 63 \<and> fst nw < h + m"

lemma fls_top_zero:
  assumes "bit x h" "\<And>i. bit x i \<Longrightarrow> i \<le> h" "fls_inv x h m (n, w)" "0 < k" "k < 64"
  shows "(w AND push_bit (64 - k) (- 1) = 0) \<longleftrightarrow> h + k \<le> n"
proof -
  have w: "w = push_bit (63 - n) x" and n: "h \<le> n" "n \<le> 63" using assms(3) by (simp_all add: fls_inv_def)
  have b: "bit w j \<longleftrightarrow> j < 64 \<and> 63 - n \<le> j \<and> bit x (j - (63 - n))" for j
    by (auto simp: w bit_simps)
  show ?thesis
  proof
    assume "w AND push_bit (64 - k) (- 1) = 0"
    then have "\<not> (64 - k \<le> j \<and> bit w j)" for j
      using b [of j] unfolding and_zero_iff bit_ones_shiftl by auto
    from this [of "h + (63 - n)"] show "h + k \<le> n" using assms(1,4,5) n by (auto simp: b)
  next
    assume "h + k \<le> n"
    then show "w AND push_bit (64 - k) (- 1) = 0"
      unfolding and_zero_iff bit_ones_shiftl b using assms(4,5) n by (auto dest!: assms(2))
  qed
qed

lemma fls_step_inv:
  assumes "bit x h" "\<And>i. bit x i \<Longrightarrow> i \<le> h" "fls_inv x h (2 * k) nw" "0 < k" "k < 64"
  shows "fls_inv x h k (fls_step k nw)"
proof -
  obtain n w where nw: "nw = (n, w)" by fastforce
  note top = fls_top_zero [OF assms(1,2) assms(3) [unfolded nw] assms(4,5)]
  show ?thesis
  proof (cases "h + k \<le> n")
    case True
    have "push_bit k (push_bit (63 - n) x) = push_bit (63 - (n - k)) x"
      using True assms(3) by (simp add: nw fls_inv_def add.commute)
    with True top assms(3) show ?thesis by (auto simp: nw fls_step_def fls_inv_def)
  next
    case False
    with top assms(3) show ?thesis by (auto simp: nw fls_step_def fls_inv_def)
  qed
qed

lemma raw_fls_highest:
  assumes "x \<noteq> 0"
  shows "bit x (raw_fls x)" "\<And>i. bit x i \<Longrightarrow> i \<le> raw_fls x"
proof -
  define h where "h = Max {i. bit x i}"
  have fin: "finite {i. bit x i}" "{i. bit x i} \<noteq> {}"
    using assms bit_imp_le_length [of x] by (auto intro: finite_subset [of _ "{..<64}"] bit_word_eqI)
  have h: "bit x h" "\<And>i. bit x i \<Longrightarrow> i \<le> h"
    using Max_in [OF fin] Max_ge [OF fin(1)] by (auto simp: h_def)
  have "h \<le> 63" using bit_imp_le_length [OF h(1)] by simp
  then have "fls_inv x h 64 (63, x)" by (simp add: fls_inv_def)
  note step = fls_step_inv [OF h]
  define nw where "nw = fls_step 2 (fls_step 4 (fls_step 8 (fls_step 16 (fls_step 32 (63, x)))))"
  have "fls_inv x h 2 nw"
    using step [of 32 "(63, x)"] step [of 16] step [of 8] step [of 4] step [of 2] \<open>fls_inv x h 64 (63, x)\<close>
    by (simp add: nw_def)
  then have inv: "fls_inv x h 2 (fst nw, snd nw)" by simp
  then have n: "h \<le> fst nw" "fst nw < h + 2" by (simp_all add: fls_inv_def)
  have "raw_fls x = (if h + 1 \<le> fst nw then fst nw - 1 else fst nw)"
    using fls_top_zero [OF h inv, of 1] by (simp add: raw_fls_def Let_def nw_def [symmetric])
  with n have "raw_fls x = h" by auto
  with h show "bit x (raw_fls x)" "\<And>i. bit x i \<Longrightarrow> i \<le> raw_fls x" by simp_all
qed
section \<open>Properties\<close>

text \<open>
  C4.  The five searches of \<^verbatim>\<open>find_bit.c\<close> are exact: each returns the least position from
  its start on, below the size, that is set (clear, or set in both bitmaps), and the size
  when there is none, whatever the bits past the size are.
\<close>

theorem find_bit_exact:
  "find_first_bit a n = first_or (abit a) 0 n \<and>
   find_first_zero_bit a n = first_or (\<lambda>j. \<not> abit a j) 0 n \<and>
   find_next_bit a n i = first_or (abit a) i n \<and>
   find_next_zero_bit a n i = first_or (\<lambda>j. \<not> abit a j) i n \<and>
   find_next_and_bit a b n i = first_or (\<lambda>j. abit a j \<and> abit b j) i n"
  by (intro conjI find_first_bit_first find_first_zero_bit_first find_next_bit_first
      find_next_zero_bit_first find_next_and_bit_first)

text \<open>
  C5.  \<^verbatim>\<open>bitmap_set\<close> and \<^verbatim>\<open>bitmap_clear\<close> change exactly the bits of their range, across
  any number of words, as long as the end of the range fits the 32-bit \<^verbatim>\<open>size\<close>.
\<close>

theorem bitmap_set_clear_exact:
  assumes "start + len < 2 ^ 32"
  shows "(\<forall>i. abit (bitmap_set bm start (int len)) i \<longleftrightarrow> abit bm i \<or> start \<le> i \<and> i < start + len) \<and>
    (\<forall>i. abit (bitmap_clear bm start (int len)) i \<longleftrightarrow> abit bm i \<and> \<not> (start \<le> i \<and> i < start + len))"
  using abit_bitmap_set [OF assms] abit_bitmap_clear [OF assms] by auto

theorem bitmap_set_clear_exact_witness:
  "abit (bitmap_set (\<lambda>_. 0) 60 10) 69 \<and> \<not> abit (bitmap_set (\<lambda>_. 0) 60 10) 70"
proof -
  have "\<not> abit (\<lambda>_. 0 :: u64) i" for i by (simp add: abit_def)
  then show ?thesis using bitmap_set_clear_exact [of 60 10 "\<lambda>_. 0"] by simp
qed

text \<open>
  C10.  The operations on two bitmaps are the pointwise ones on their first \<open>n\<close> bits, the
  partial last word included: union, intersection with its "not empty" result, equality;
  \<^verbatim>\<open>test_and_set_bit\<close> and \<^verbatim>\<open>test_and_clear_bit\<close> return the old bit and change only it.
\<close>

theorem bitmap_ops_pointwise:
  "(raw_bitmap_equal a b n \<longleftrightarrow> (\<forall>i<n. abit a i = abit b i)) \<and>
   (fst (raw_bitmap_and dst a b n) \<longleftrightarrow> (\<exists>i<n. abit a i \<and> abit b i)) \<and>
   (i < n \<longrightarrow> (abit (snd (raw_bitmap_and dst a b n)) i \<longleftrightarrow> abit a i \<and> abit b i) \<and>
              (abit (raw_bitmap_or dst a b n) i \<longleftrightarrow> abit a i \<or> abit b i)) \<and>
   fst (test_and_set_bit k a) = abit a k \<and> fst (test_and_clear_bit k a) = abit a k \<and>
   (abit (snd (test_and_set_bit k a)) i \<longleftrightarrow> i = k \<or> abit a i) \<and>
   (abit (snd (test_and_clear_bit k a)) i \<longleftrightarrow> i \<noteq> k \<and> abit a i)"
  using raw_bitmap_equal_iff raw_bitmap_and_result abit_raw_bitmap_or test_and_set_bit_props
    test_and_clear_bit_props by simp

theorem bitmap_ops_pointwise_witness:
  "(69 :: nat) < 70 \<and>
   abit (raw_bitmap_or (\<lambda>_. 0) ((\<lambda>_. 0)(1 := 32)) (\<lambda>_. 0) 70) 69"
  using bitmap_ops_pointwise [of "(\<lambda>_. 0)(1 := 32)" "\<lambda>_. 0" 70 "\<lambda>_. 0" 69 0] by (simp add: abit_def bit_iff_odd)

text \<open>
  C9.  \<^verbatim>\<open>__ffs\<close> and \<^verbatim>\<open>__fls\<close> of a nonzero word are the positions of its lowest and
  highest set bit, and \<^verbatim>\<open>fls64\<close> is 0 for 0 and one more than \<^verbatim>\<open>__fls\<close> otherwise.
\<close>

theorem bit_scans_exact:
  assumes "x \<noteq> 0"
  shows "bit x (raw_ffs x) \<and> bit x (raw_fls x) \<and> (\<forall>i. bit x i \<longrightarrow> raw_ffs x \<le> i \<and> i \<le> raw_fls x) \<and>
    fls64 x = raw_fls x + 1 \<and> fls64 0 = 0"
  using raw_fls_highest [OF assms] ctzl_props [OF assms] assms
  by (auto simp: raw_ffs_def fls64_def not_less [symmetric])

theorem bit_scans_exact_witness:
  "bit (0x50 :: u64) (raw_ffs 0x50) \<and> fls64 0x50 = raw_fls 0x50 + 1"
  using bit_scans_exact [of "0x50"] by simp

end
