(* ===== verification/K_Alloc.thy ===== *)
theory K_Alloc
  imports K_Prelude
begin

text \<open>
  The contract between the kernel's memory manager and its callers.  A run of a heap is
  a sequence of allocations and releases with a ledger of the blocks that are live, and
  a block allocator is a heap whose operations obey four laws; for every one of them the
  live blocks of a run are pairwise disjoint, apart from what was in use at the start, and
  every live block can be released.
\<close>

section \<open>Runs\<close>

text \<open>
  Runs of a heap with its ledger of live blocks: every block is released with the
  address and size it was allocated with.
\<close>

inductive heap_run ::
  "('s \<Rightarrow> u64 \<Rightarrow> (u64 \<times> 's) option) \<Rightarrow> ('s \<Rightarrow> u64 \<Rightarrow> u64 \<Rightarrow> 's option) \<Rightarrow>
   's \<Rightarrow> 's \<Rightarrow> (u64 \<times> u64) list \<Rightarrow> bool"
  for alloc free s0 where
  run_start: "heap_run alloc free s0 s0 []"
| run_alloc: "heap_run alloc free s0 s live \<Longrightarrow> alloc s sz = Some (a, s') \<Longrightarrow> a \<noteq> 0
    \<Longrightarrow> heap_run alloc free s0 s' ((a, sz) # live)"
| run_null: "heap_run alloc free s0 s live \<Longrightarrow> alloc s sz = Some (0, s')
    \<Longrightarrow> heap_run alloc free s0 s' live"
| run_free: "heap_run alloc free s0 s live \<Longrightarrow> (a, sz) \<in> set live \<Longrightarrow> free s a sz = Some s'
    \<Longrightarrow> heap_run alloc free s0 s' (remove1 (a, sz) live)"

definition disjoint_blocks :: "('b \<Rightarrow> nat set) \<Rightarrow> 'b list \<Rightarrow> bool" where
  "disjoint_blocks B = sorted_wrt (\<lambda>x y. B x \<inter> B y = {})"

lemma disjoint_blocks_remove1:
  assumes "disjoint_blocks B xs" "x \<in> set xs"
  shows "disjoint_blocks B (remove1 x xs)" (is ?dis)
    and "\<Union> (B ` set (remove1 x xs)) = \<Union> (B ` set xs) - B x" (is ?un)
proof -
  have "?dis \<and> ?un"
    using assms
  proof (induction xs)
    case (Cons y xs)
    then have y: "\<forall>z\<in>set xs. B y \<inter> B z = {}" and xs: "disjoint_blocks B xs"
      by (simp_all add: disjoint_blocks_def)
    show ?case
    proof (cases "x = y")
      case True
      with y xs show ?thesis by auto
    next
      case False
      with Cons.prems have x: "x \<in> set xs" by simp
      have "set (remove1 x xs) \<subseteq> set xs" by (rule set_remove1_subset)
      with y have "\<forall>z\<in>set (remove1 x xs). B y \<inter> B z = {}" by blast
      moreover have "B y \<inter> B x = {}" using y x by blast
      ultimately show ?thesis
        using Cons.IH [OF xs x] False by (auto simp: disjoint_blocks_def)
    qed
  qed simp
  then show ?dis ?un by simp_all
qed

section \<open>The interface\<close>

text \<open>
  \<open>owner s a sz\<close> says that a block of size \<open>sz\<close> may start at \<open>a\<close>, \<open>block s a sz\<close> is the
  set of bytes it takes, and \<open>used s\<close> is the set of bytes that are taken.  An address 0
  is the null pointer.
\<close>

locale block_allocator =
  fixes wf :: "'s \<Rightarrow> bool"
    and owner :: "'s \<Rightarrow> u64 \<Rightarrow> u64 \<Rightarrow> bool"
    and block :: "'s \<Rightarrow> u64 \<Rightarrow> u64 \<Rightarrow> nat set"
    and used :: "'s \<Rightarrow> nat set"
    and alloc :: "'s \<Rightarrow> u64 \<Rightarrow> (u64 \<times> 's) option"
    and free :: "'s \<Rightarrow> u64 \<Rightarrow> u64 \<Rightarrow> 's option"
  assumes alloc_null: "wf s \<Longrightarrow> alloc s sz = Some (0, s') \<Longrightarrow> s' = s"
    and alloc_geom: "wf s \<Longrightarrow> alloc s sz = Some (a, s') \<Longrightarrow> wf s' \<and> owner s' = owner s \<and> block s' = block s"
    and alloc_block: "wf s \<Longrightarrow> alloc s sz = Some (a, s') \<Longrightarrow> a \<noteq> 0 \<Longrightarrow>
        owner s a sz \<and> block s a sz \<inter> used s = {} \<and> used s' = used s \<union> block s a sz"
    and free_block: "wf s \<Longrightarrow> owner s a sz \<Longrightarrow> block s a sz \<subseteq> used s \<Longrightarrow>
        \<exists>s'. free s a sz = Some s' \<and> wf s' \<and> owner s' = owner s \<and> block s' = block s
           \<and> used s' = used s - block s a sz"
begin

lemma heap_run_ledger:
  assumes "heap_run alloc free s0 s live" "wf s0"
  shows "wf s \<and> owner s = owner s0 \<and> block s = block s0 \<and>
    (\<forall>(a, sz)\<in>set live. owner s0 a sz \<and> block s0 a sz \<inter> used s0 = {}) \<and>
    disjoint_blocks (case_prod (block s0)) live \<and>
    used s = used s0 \<union> \<Union> (case_prod (block s0) ` set live)"
  using assms
proof (induction rule: heap_run.induct)
  case run_start
  then show ?case by (simp add: disjoint_blocks_def)
next
  case (run_alloc s live sz a s')
  then have IH: "wf s" "owner s = owner s0" "block s = block s0"
    "\<forall>(a, sz)\<in>set live. owner s0 a sz \<and> block s0 a sz \<inter> used s0 = {}"
    "disjoint_blocks (case_prod (block s0)) live"
    "used s = used s0 \<union> \<Union> (case_prod (block s0) ` set live)" by simp_all
  have new: "wf s'" "owner s' = owner s" "block s' = block s" "owner s a sz" 
    "block s a sz \<inter> used s = {}" "used s' = used s \<union> block s a sz"
    using alloc_geom [OF IH(1) run_alloc(2)] alloc_block [OF IH(1) run_alloc(2,3)] by simp_all
  have "\<forall>y\<in>set live. block s0 a sz \<inter> case_prod (block s0) y = {}"
    using new(5) IH(3,6) by auto
  moreover have "block s0 a sz \<inter> used s0 = {}" using new(5) IH(3,6) by auto
  ultimately show ?case
    using IH new by (simp add: disjoint_blocks_def Un_ac)
next
  case (run_null s live sz s')
  then have "wf s" by simp
  then have "s' = s" using run_null(2) by (rule alloc_null)
  with run_null show ?case by simp
next
  case (run_free s live a sz s')
  then have IH: "wf s" "owner s = owner s0" "block s = block s0"
    "\<forall>(a, sz)\<in>set live. owner s0 a sz \<and> block s0 a sz \<inter> used s0 = {}"
    "disjoint_blocks (case_prod (block s0)) live"
    "used s = used s0 \<union> \<Union> (case_prod (block s0) ` set live)" by simp_all
  have own: "owner s a sz" "block s a sz \<inter> used s0 = {}" "block s a sz \<subseteq> used s"
    using IH run_free(2) by auto
  have new: "wf s'" "owner s' = owner s" "block s' = block s" "used s' = used s - block s a sz"
    using free_block [OF IH(1) own(1,3)] run_free(3) by auto
  note dis = disjoint_blocks_remove1 [OF IH(5) run_free(2)]
  have "used s' = used s0 \<union> \<Union> (case_prod (block s0) ` set (remove1 (a, sz) live))"
    unfolding dis(2) using new(4) IH(3,6) own(2) by auto
  moreover have "\<forall>(a, sz)\<in>set (remove1 (a, sz) live). owner s0 a sz \<and> block s0 a sz \<inter> used s0 = {}"
    using IH(4) set_remove1_subset [of "(a, sz)" live] by blast
  ultimately show ?case using IH new dis(1) by simp
qed

lemma live_block_free:
  assumes "heap_run alloc free s0 s live" "wf s0" "(a, sz) \<in> set live"
  shows "\<exists>s'. free s a sz = Some s'"
proof -
  have "wf s" "owner s a sz" "block s a sz \<subseteq> used s"
    using heap_run_ledger [OF assms(1,2)] assms(3) by auto
  then show ?thesis using free_block by blast
qed

end

end
