(* ===== verification/K_Gran.thy ===== *)
theory K_Gran
  imports K_Util K_Alloc
begin

text \<open>
  The granule allocator \<^verbatim>\<open>os/core/mm/mm_gran.c\<close> with \<^verbatim>\<open>os/core/include/gran.h\<close>, the only
  dynamic memory manager of the kernel: page tables, ASID bitmaps, mappings and ELF
  segments all come from it.

  \<open>gat\<close> is the flexible array \<^verbatim>\<open>gat[]\<close>, the words from its address on; the table
  proper is the first \<open>SIZEOF_GAT (ngranules g)\<close> of them.  Bit \<open>i\<close> of the table,
  \<open>abit (gat g) i\<close>, is set when granule \<open>i\<close> is in use.  Word expressions keep their C
  widths: \<^verbatim>\<open>1 << log2gran\<close> and \<^verbatim>\<open>granidx << log2gran\<close> are 32-bit \<^verbatim>\<open>int\<close>s that are
  sign-extended to 64 bits, and granule counts are 32-bit.  The loop counters \<^verbatim>\<open>granidx\<close>
  and \<^verbatim>\<open>bitidx\<close> are natural numbers.

  A pointer result is its address, with 0 for \<^verbatim>\<open>NULL\<close>.
\<close>

section \<open>Data\<close>

record mm_gran =
  log2gran :: u8
  ngranules :: u32
  heapstart :: u64
  gat :: "u32 arr"

definition SIZEOF_GAT :: "u32 \<Rightarrow> u32" where
  "SIZEOF_GAT n = drop_bit 5 (n + 31)"

text \<open>\<^verbatim>\<open>sizeof(struct mm_gran)\<close> is 24: the table starts at offset 16 and the tail is padded.\<close>

definition SIZEOF_MM_GRAN :: "u32 \<Rightarrow> u64" where
  "SIZEOF_MM_GRAN n = 24 + 4 * ucast (SIZEOF_GAT n - 1)"

text \<open>\<^verbatim>\<open>1 << k\<close>, an \<^verbatim>\<open>int\<close>.\<close>

definition int_shl1 :: "u8 \<Rightarrow> u32" where
  "int_shl1 k = push_bit (unat k) 1"

section \<open>Initialisation\<close>

text \<open>Aligned start, and number of granules up to the end, for one heap range.\<close>

definition gran_layout :: "u64 \<Rightarrow> u64 \<Rightarrow> u8 \<Rightarrow> u8 \<Rightarrow> u64 \<times> u32" where
  "gran_layout start sz lgran lalign =
     (let msk = scast (int_shl1 lalign - 1) :: u64;
          alignedstart = (start + msk) AND NOT msk;
          msk = scast (int_shl1 lgran - 1) :: u64;
          heapend = start + sz;
          alignedsize = (heapend - alignedstart) AND NOT msk
      in (alignedstart, ucast (drop_bit (unat lgran) alignedsize)))"

text \<open>
  \<^verbatim>\<open>gran_initialize\<close> puts the header at the start of the heap.  \<open>mem\<close> is what the
  memory at the table's address holds before the call: the function does not write it.
\<close>

definition gran_initialize :: "u32 arr \<Rightarrow> u64 \<Rightarrow> u64 \<Rightarrow> u8 \<Rightarrow> u8 \<Rightarrow> (u64 \<times> mm_gran) option" where
  "gran_initialize mem start sz lgran lalign = do {
     k_assert (start \<noteq> 0 \<and> 0 < sz \<and> 0 < lgran \<and> lgran < 32 \<and> lalign \<le> lgran);
     let n0 = snd (gran_layout start sz lgran lalign);
     let gran_head = (ucast (SIZEOF_MM_GRAN n0) :: u32);
     let (alignedstart, n) = gran_layout (start + ucast gran_head) (sz - ucast gran_head) lgran lalign;
     Some (start, \<lparr>log2gran = lgran, ngranules = n, heapstart = alignedstart, gat = mem\<rparr>)
   }"

definition gran_release :: "mm_gran option \<Rightarrow> unit option" where
  "gran_release g = k_assert (g \<noteq> None)"

section \<open>Allocation\<close>

text \<open>Number of granules for a size: \<^verbatim>\<open>(size + tmpmask) >> log2gran\<close>, truncated to 32 bits.\<close>

definition granules_for :: "mm_gran \<Rightarrow> u64 \<Rightarrow> u32" where
  "granules_for g sz =
     ucast (drop_bit (unat (log2gran g)) (sz + scast (int_shl1 (log2gran g) - 1)))"

text \<open>
  \<^verbatim>\<open>0xffffffff >> (32 - n)\<close>, for \<open>n\<close> from 1 to 32.  (At \<open>n = 0\<close> the C shift is undefined;
  \<^verbatim>\<open>gran_alloc\<close> excludes it and \<^verbatim>\<open>gran_free\<close> reaches it only for size 0.)
\<close>

definition low_mask :: "u32 \<Rightarrow> u32" where
  "low_mask n = drop_bit (unat (32 - n)) (- 1)"

definition gran_mark_allocated :: "mm_gran \<Rightarrow> u64 \<Rightarrow> u32 \<Rightarrow> mm_gran option" where
  "gran_mark_allocated g alloc n =
     (let granno = ucast (drop_bit (unat (log2gran g)) (alloc - heapstart g)) :: u32;
          gatidx = unat (drop_bit 5 granno);
          gatbit = granno AND 31;
          avail = 32 - gatbit
      in if n > avail then do {
           let gatmask = (push_bit (unat gatbit) (- 1) :: u32);
           k_assert (gat g gatidx AND gatmask = 0);
           let t = (gat g)(gatidx := gat g gatidx OR gatmask);
           let gatmask = low_mask (n - avail);
           k_assert (t (gatidx + 1) AND gatmask = 0);
           Some (g\<lparr>gat := t(gatidx + 1 := t (gatidx + 1) OR gatmask)\<rparr>)
         } else do {
           let gatmask = push_bit (unat gatbit) (low_mask n);
           k_assert (gat g gatidx AND gatmask = 0);
           Some (g\<lparr>gat := (gat g)(gatidx := gat g gatidx OR gatmask)\<rparr>)
         })"

text \<open>
  How far the inner loop of \<^verbatim>\<open>gran_alloc\<close> may skip: 16, 8, 4 or 2 positions while the
  low half-word, byte, nibble or pair is full; \<open>None\<close> when the request fits here; else 1.
\<close>

definition scan_shift :: "u32 \<Rightarrow> u32 \<Rightarrow> nat option" where
  "scan_shift msk cur =
     (if cur AND 0x0000ffff = 0x0000ffff then Some 16
      else if cur AND 0x000000ff = 0x000000ff then Some 8
      else if cur AND 0x0000000f = 0x0000000f then Some 4
      else if cur AND 0x00000003 = 0x00000003 then Some 2
      else if cur AND msk = 0 then None
      else Some 1)"

text \<open>The inner loop: \<open>Some alloc\<close> when it finds a place, \<open>None\<close> when it runs out.\<close>

function gran_scan ::
  "mm_gran \<Rightarrow> nat \<Rightarrow> u32 \<Rightarrow> nat \<Rightarrow> nat \<Rightarrow> u64 \<Rightarrow> u32 \<Rightarrow> u32 \<Rightarrow> u64 option" where
  "gran_scan g n msk granidx bitidx alloc cur nxt =
     (if bitidx < 32 \<and> granidx + bitidx + n \<le> unat (ngranules g)
      then if cur = 0xffffffff then None
           else case scan_shift msk cur of
                  None \<Rightarrow> Some alloc
                | Some shift \<Rightarrow>
                    gran_scan g n msk granidx (bitidx + shift)
                      (alloc + scast (push_bit (unat (log2gran g)) (word_of_nat shift :: u32)))
                      (drop_bit shift cur OR push_bit (32 - shift) nxt)
                      (drop_bit shift nxt)
      else None)"
  by pat_completeness auto
termination
  by (relation "measure (\<lambda>(g, n, msk, granidx, bitidx, alloc, cur, nxt). 32 - bitidx)")
     (auto simp: scan_shift_def split: if_splits)

declare gran_scan.simps [simp del]

text \<open>
  The outer loop over the words of the table.  Its test \<^verbatim>\<open>granidx < gran->ngranules\<close>
  for reading \<^verbatim>\<open>next\<close> repeats the loop condition, so the word after the current one is
  always read, at the last word too.
\<close>

function gran_search :: "mm_gran \<Rightarrow> nat \<Rightarrow> u32 \<Rightarrow> nat \<Rightarrow> u64 option" where
  "gran_search g n msk granidx =
     (if granidx < unat (ngranules g)
      then let gatidx = granidx div 32; cur = gat g gatidx
           in if cur = 0xffffffff then gran_search g n msk (granidx + 32)
              else let nxt = (if granidx < unat (ngranules g) then gat g (gatidx + 1) else 0xffffffff);
                       alloc = heapstart g + scast (push_bit (unat (log2gran g)) (word_of_nat granidx :: u32))
                   in case gran_scan g n msk granidx 0 alloc cur nxt of
                        Some a \<Rightarrow> Some a
                      | None \<Rightarrow> gran_search g n msk (granidx + 32)
      else None)"
  by pat_completeness auto
termination
  by (relation "measure (\<lambda>(g, n, msk, granidx). unat (ngranules g) - granidx)") auto

declare gran_search.simps [simp del]

definition gran_alloc :: "mm_gran \<Rightarrow> u64 \<Rightarrow> (u64 \<times> mm_gran) option" where
  "gran_alloc g sz = do {
     k_assert (sz \<le> scast (32 * int_shl1 (log2gran g)));
     if 0 < sz then do {
       let n = granules_for g sz;
       k_assert (n \<le> 32);
       case gran_search g (unat n) (low_mask n) 0 of
         None \<Rightarrow> Some (0, g)
       | Some alloc \<Rightarrow> do { g' \<leftarrow> gran_mark_allocated g alloc n; Some (alloc, g') }
     } else Some (0, g)
   }"

definition gran_free :: "mm_gran \<Rightarrow> u64 \<Rightarrow> u64 \<Rightarrow> mm_gran option" where
  "gran_free g memory sz = do {
     k_assert (memory \<noteq> 0 \<and> sz \<le> scast (32 * int_shl1 (log2gran g)));
     let granno = (ucast (drop_bit (unat (log2gran g)) (memory - heapstart g)) :: u32);
     let gatidx = unat (drop_bit 5 granno);
     let gatbit = granno AND 31;
     let n = granules_for g sz;
     let avail = 32 - gatbit;
     if n > avail then do {
       let gatmask = (push_bit (unat gatbit) (- 1) :: u32);
       k_assert (gat g gatidx AND gatmask = gatmask);
       let t = (gat g)(gatidx := gat g gatidx AND NOT gatmask);
       let gatmask = low_mask (n - avail);
       k_assert (t (gatidx + 1) AND gatmask = gatmask);
       Some (g\<lparr>gat := t(gatidx + 1 := t (gatidx + 1) AND NOT gatmask)\<rparr>)
     } else do {
       let gatmask = push_bit (unat gatbit) (low_mask n);
       k_assert (gat g gatidx AND gatmask = gatmask);
       Some (g\<lparr>gat := (gat g)(gatidx := gat g gatidx AND NOT gatmask)\<rparr>)
     }
   }"

section \<open>Well-formed allocators\<close>

text \<open>
  The sizes for which no \<^verbatim>\<open>int\<close> expression of the allocator overflows: the largest
  request, 32 granules, and the offset of every granule stay below \<open>2 ^ 31\<close>.  The
  kernel's heap, below 2 GiB in 4 KiB granules, is of this kind.
\<close>

abbreviation gshift :: "mm_gran \<Rightarrow> nat" where
  "gshift g \<equiv> unat (log2gran g)"

abbreviation gcount :: "mm_gran \<Rightarrow> nat" where
  "gcount g \<equiv> unat (ngranules g)"

definition wf_gran :: "mm_gran \<Rightarrow> bool" where
  "wf_gran g \<longleftrightarrow> gshift g \<le> 25 \<and> gcount g * 2 ^ gshift g \<le> 2 ^ 31 \<and>
     0 < unat (heapstart g) \<and> unat (heapstart g) + gcount g * 2 ^ gshift g < 2 ^ 64"

definition gran_addr :: "mm_gran \<Rightarrow> nat \<Rightarrow> u64" where
  "gran_addr g i = heapstart g + word_of_nat (i * 2 ^ gshift g)"

definition granule_count :: "mm_gran \<Rightarrow> u64 \<Rightarrow> nat" where
  "granule_count g sz = (unat sz + 2 ^ gshift g - 1) div 2 ^ gshift g"

definition valid_request :: "mm_gran \<Rightarrow> u64 \<Rightarrow> bool" where
  "valid_request g sz \<longleftrightarrow> 0 < unat sz \<and> unat sz \<le> 32 * 2 ^ gshift g"

text \<open>Granules \<open>i\<close> to \<open>i + n - 1\<close> are all free.\<close>

definition free_run :: "mm_gran \<Rightarrow> nat \<Rightarrow> nat \<Rightarrow> bool" where
  "free_run g n i \<longleftrightarrow> (\<forall>j\<in>{i..<i + n}. \<not> abit (gat g) j)"

definition used_run :: "mm_gran \<Rightarrow> nat \<Rightarrow> nat \<Rightarrow> bool" where
  "used_run g n i \<longleftrightarrow> (\<forall>j\<in>{i..<i + n}. abit (gat g) j)"

definition first_fit :: "mm_gran \<Rightarrow> nat \<Rightarrow> nat option" where
  "first_fit g n = first_from (free_run g n) 0 (Suc (gcount g) - n)"

section \<open>The word expressions\<close>

lemma unat_int_shl1: "unat k < 32 \<Longrightarrow> unat (int_shl1 k) = 2 ^ unat k"
  unfolding int_shl1_def by (subst unat_push_bit_small) (simp_all add: power_strict_increasing_iff [of 2 _ 32, simplified])

lemma scast_int_shl1_minus:
  assumes "unat k < 32"
  shows "(scast (int_shl1 k - 1) :: u64) = mask (unat k)"
  using assms by (intro bit_word_eqI) (auto simp: int_shl1_def bit_simps mask_bits)

lemma unat_max_request:
  assumes "unat k \<le> 25"
  shows "unat (scast (32 * int_shl1 k) :: u64) = 32 * 2 ^ unat k"
proof -
  have le: "(2::nat) ^ unat k \<le> 2 ^ 25" using assms by (rule power_increasing) simp
  then have "unat (32 * int_shl1 k) = 32 * 2 ^ unat k"
    using assms by (subst unat_mult_small) (simp_all add: unat_int_shl1)
  moreover from this le have "unat (32 * int_shl1 k) < 2 ^ 31" by simp
  ultimately show ?thesis
    by (simp add: scast_nonneg unat_ucast_up)
qed

lemma scast_shifted:
  assumes "s * 2 ^ L < 2 ^ 31"
  shows "(scast (push_bit L (word_of_nat s :: u32)) :: u64) = word_of_nat (s * 2 ^ L)"
proof -
  have s: "s < 2 ^ 31" 
    using assms by (metis le_less_trans le_numeral_extra(3) mult.right_neutral mult_le_mono2 one_le_numeral one_le_power)
  then have "unat (push_bit L (word_of_nat s :: u32)) = s * 2 ^ L"
    using assms by (subst unat_push_bit_small) (simp_all add: unat_of_nat_small)
  moreover from this assms have "unat (push_bit L (word_of_nat s :: u32)) < 2 ^ 31" by simp
  ultimately show ?thesis
    by (intro unsigned_word_eqI [where 'a = nat])
       (simp add: scast_nonneg unat_ucast_up unat_of_nat_small less_trans [OF assms]
          del: of_nat_mult of_nat_power)
qed

lemma gran_addr_add:
  assumes "s * 2 ^ gshift g < 2 ^ 31"
  shows "gran_addr g i + scast (push_bit (gshift g) (word_of_nat s :: u32)) = gran_addr g (i + s)"
  unfolding scast_shifted [OF assms] by (simp add: gran_addr_def algebra_simps)

lemma not_free_run: "abit (gat g) j \<Longrightarrow> i \<le> j \<Longrightarrow> j < i + n \<Longrightarrow> \<not> free_run g n i"
  by (auto simp: free_run_def)

section \<open>The search is first-fit\<close>

text \<open>What the inner loop knows of the 64-bit window: its low half shows the granules from \<open>p\<close> on.\<close>

definition window :: "mm_gran \<Rightarrow> nat \<Rightarrow> u32 \<Rightarrow> bool" where
  "window g p cur \<longleftrightarrow> (\<forall>j<32. bit cur j \<longleftrightarrow> abit (gat g) (p + j))"

lemma window_start: "window g (32 * k) (gat g k)"
  using bit_eq_abit [of _ "gat g" k] by (auto simp: window_def mult.commute)

lemma window_shift:
  assumes "window g (32 * k + b) cur" "0 < s" "s < 32" "b + s < 32"
  shows "window g (32 * k + (b + s)) (drop_bit s cur OR push_bit (32 - s) (drop_bit b (gat g (k + 1))))"
  unfolding window_def
proof (intro allI impI)
  fix j :: nat assume j: "j < 32"
  show "bit (drop_bit s cur OR push_bit (32 - s) (drop_bit b (gat g (k + 1)))) j =
    abit (gat g) (32 * k + (b + s) + j)"
  proof (cases "j + s < 32")
    case True
    with assms(1) have "bit cur (s + j) = abit (gat g) (32 * k + b + (s + j))"
      by (simp add: window_def)
    moreover have "\<not> 32 - s \<le> j" using True by simp
    ultimately show ?thesis using j by (simp add: bit_simps add.assoc)
  next
    case False
    define e where "e = 32 - s"
    then have e: "s + e = 32" using assms(3) by simp
    with False obtain d where d: "j = e + d"
      by (metis add.commute add_le_cancel_right le_Suc_ex not_less)
    then have "\<not> bit cur (s + j)" using False bit_imp_le_length [of cur "s + j"] by auto
    then have "bit (drop_bit s cur OR push_bit e (drop_bit b (gat g (k + 1)))) j = bit (gat g (k + 1)) (b + d)"
      using j d by (simp add: bit_simps)
    also have "\<dots> = abit (gat g) ((k + 1) * 32 + (b + d))"
      using assms(4) e j d bit_eq_abit [of "b + d" "gat g" "k + 1"] by simp
    also have "(k + 1) * 32 + (b + d) = 32 * k + (b + s) + j"
      using d e by simp
    finally show ?thesis by (simp only: e_def)
  qed
qed

lemma window_full:
  "window g p cur \<Longrightarrow> \<forall>j. j < s \<longrightarrow> bit cur j \<Longrightarrow> s \<le> 32 \<Longrightarrow> p \<le> i \<Longrightarrow> i < p + s \<Longrightarrow> 0 < n
     \<Longrightarrow> \<not> free_run g n i"
  by (rule not_free_run [of g i]) (auto simp: window_def dest: spec [of _ "i - p"])

lemma window_fits:
  assumes "window g p cur" "\<And>j. bit msk j \<longleftrightarrow> j < n" "n \<le> 32"
  shows "(cur AND msk = 0) \<longleftrightarrow> free_run g n p"
proof
  assume "cur AND msk = 0"
  show "free_run g n p" unfolding free_run_def
  proof
    fix j assume "j \<in> {p..<p + n}"
    with assms \<open>cur AND msk = 0\<close> show "\<not> abit (gat g) j"
      by (auto simp: and_zero_iff window_def dest!: spec [of _ "j - p"])
  qed
next
  assume "free_run g n p"
  with assms show "cur AND msk = 0"
    by (auto simp: and_zero_iff window_def free_run_def)
qed


lemma scan_shift_None:
  assumes "scan_shift msk cur = None"
  shows "cur AND msk = 0"
  using assms by (auto simp: scan_shift_def split: if_splits)

lemma scan_shift_Some:
  assumes "scan_shift msk cur = Some s" "window g p cur" "\<And>j. bit msk j \<longleftrightarrow> j < n" "0 < n" "n \<le> 32"
  shows "0 < s" "s \<le> 16" "\<And>i. p \<le> i \<Longrightarrow> i < p + s \<Longrightarrow> \<not> free_run g n i"
proof -
  have masks: "0x0000ffff = (mask 16 :: u32)" "0x000000ff = (mask 8 :: u32)"
    "0x0000000f = (mask 4 :: u32)" "0x00000003 = (mask 2 :: u32)"
    by (simp_all add: mask_eq_exp_minus_1)
  note full = and_mask_full [where 'a = 32, simplified]
  have cases: "s \<in> {16, 8, 4, 2} \<and> (\<forall>j. j < s \<longrightarrow> bit cur j) \<or> s = 1 \<and> cur AND msk \<noteq> 0"
    using assms(1) unfolding scan_shift_def masks by (auto simp: full split: if_splits)
  then show "0 < s" "s \<le> 16" by auto
  fix i assume i: "p \<le> i" "i < p + s"
  from cases show "\<not> free_run g n i"
  proof
    assume "s \<in> {16, 8, 4, 2} \<and> (\<forall>j. j < s \<longrightarrow> bit cur j)"
    with i assms show ?thesis by (intro window_full [of g p cur s]) auto
  next
    assume "s = 1 \<and> cur AND msk \<noteq> 0"
    with i window_fits [OF assms(2,3,5)] show ?thesis by (auto simp: le_less_Suc_eq)
  qed
qed

lemma gran_scan_first_fit:
  assumes "wf_gran g" "0 < n" "n \<le> 32" "\<And>j. bit msk j \<longleftrightarrow> j < n"
    and "b < 32 \<Longrightarrow> window g (32 * k + b) cur"
  shows "gran_scan g n msk (32 * k) b (gran_addr g (32 * k + b)) cur (drop_bit b (gat g (k + 1))) =
    map_option (gran_addr g) (first_from (free_run g n) (32 * k + b) (min (32 * k + 32) (Suc (gcount g) - n)))"
  using assms(5)
proof (induction "32 - b" arbitrary: b cur rule: less_induct)
  case less
  let ?hi = "min (32 * k + 32) (Suc (gcount g) - n)"
  show ?case
  proof (cases "b < 32 \<and> 32 * k + b + n \<le> gcount g")
    case False
    then have "?hi \<le> 32 * k + b" by auto
    moreover have "gran_scan g n msk (32 * k) b a cur x = None" for a x
      using False by (subst gran_scan.simps) auto
    ultimately show ?thesis by (simp add: first_from_empty)
  next
    case True
    then have w: "window g (32 * k + b) cur" using less.prems by simp
    have step: "gran_scan g n msk (32 * k) b a cur x =
      (if cur = 0xffffffff then None else case scan_shift msk cur of None \<Rightarrow> Some a
       | Some s \<Rightarrow> gran_scan g n msk (32 * k) (b + s)
           (a + scast (push_bit (gshift g) (word_of_nat s :: u32)))
           (drop_bit s cur OR push_bit (32 - s) x) (drop_bit s x))" for a x
      using True by (subst gran_scan.simps) simp
    show ?thesis
    proof (cases "cur = 0xffffffff")
      case all: True
      have "cur = - 1" unfolding all by simp
      then have "\<forall>j. j < 32 \<longrightarrow> bit cur j" by (simp add: bit_simps)
      then have "first_from (free_run g n) (32 * k + b) ?hi = None"
        using window_full [OF w _ _ _ _ assms(2), of 32] by (auto simp: first_from_None_iff)
      then show ?thesis unfolding step using all by simp
    next
      case some: False
      show ?thesis
      proof (cases "scan_shift msk cur")
        case None
        then have "free_run g n (32 * k + b)"
          using window_fits [OF w assms(4,3)] scan_shift_None by blast
        then have "first_from (free_run g n) (32 * k + b) ?hi = Some (32 * k + b)"
          using True by (intro first_from_hit) auto
        then show ?thesis using None some by (simp add: step)
      next
        case (Some s)
        note s = scan_shift_Some [OF Some w assms(4,2,3)]
        have le: "s * 2 ^ gshift g < 2 ^ 31"
        proof -
          have "s * 2 ^ gshift g \<le> 16 * 2 ^ 25"
            using s(2) assms(1) by (intro mult_le_mono power_increasing) (auto simp: wf_gran_def)
          then show ?thesis by simp
        qed
        have "first_from (free_run g n) (32 * k + b) ?hi = first_from (free_run g n) (32 * k + (b + s)) ?hi"
          using s(3) by (intro first_from_skip_to) auto
        moreover have "window g (32 * k + (b + s))
            (drop_bit s cur OR push_bit (32 - s) (drop_bit b (gat g (k + 1))))" if "b + s < 32"
          using that s by (intro window_shift w) auto
        moreover have "32 - (b + s) < 32 - b" using True s(1) by (intro diff_less_mono2) auto
        note less.hyps [OF this calculation(2)]
        ultimately show ?thesis
          using some Some
          by (simp add: step gran_addr_add [OF le] add.assoc drop_bit_drop_bit add.commute [of s b])
      qed
    qed
  qed
qed

lemma gran_search_first_fit:
  assumes "wf_gran g" "0 < n" "n \<le> 32" "\<And>j. bit msk j \<longleftrightarrow> j < n"
  shows "gran_search g n msk (32 * k) =
    map_option (gran_addr g) (first_from (free_run g n) (32 * k) (Suc (gcount g) - n))"
proof (induction "gcount g - 32 * k" arbitrary: k rule: less_induct)
  case less
  let ?hi = "Suc (gcount g) - n"
  show ?case
  proof (cases "32 * k < gcount g")
    case False
    then have "?hi \<le> 32 * k" using assms(2) by simp
    then show ?thesis using False by (subst gran_search.simps) (simp add: first_from_empty)
  next
    case True
    have "gcount g - 32 * (k + 1) < gcount g - 32 * k"
      using True by (intro diff_less_mono2) auto
    from less [OF this] have IH: "gran_search g n msk (32 * k + 32) =
        map_option (gran_addr g) (first_from (free_run g n) (32 * k + 32) ?hi)"
      by (simp only: distrib_left mult_1_right)
    have w: "window g (32 * k) (gat g k)" by (rule window_start)
    show ?thesis
    proof (cases "gat g k = 0xffffffff")
      case all: True
      have "gat g k = - 1" unfolding all by simp
      then have "\<forall>j. j < 32 \<longrightarrow> bit (gat g k) j" by (simp add: bit_simps)
      then have "first_from (free_run g n) (32 * k) ?hi = first_from (free_run g n) (32 * k + 32) ?hi"
        using window_full [OF w _ _ _ _ assms(2), of 32] by (intro first_from_skip_to) auto
      then show ?thesis
        using True all IH by (subst gran_search.simps) simp
    next
      case False
      have "32 * k * 2 ^ gshift g < gcount g * 2 ^ gshift g"
        using True by simp
      also have "\<dots> \<le> 2 ^ 31" using assms(1) by (simp add: wf_gran_def)
      finally have "gran_addr g (32 * k) =
          heapstart g + scast (push_bit (gshift g) (word_of_nat (32 * k) :: u32))"
        by (simp only: scast_shifted gran_addr_def)
      then have "gran_search g n msk (32 * k) =
         (case gran_scan g n msk (32 * k) 0 (gran_addr g (32 * k)) (gat g k) (gat g (k + 1)) of
            Some a \<Rightarrow> Some a | None \<Rightarrow> gran_search g n msk (32 * k + 32))"
        using True False by (subst gran_search.simps) (simp add: Let_def)
      also have "gran_scan g n msk (32 * k) 0 (gran_addr g (32 * k)) (gat g k) (gat g (k + 1)) =
         map_option (gran_addr g) (first_from (free_run g n) (32 * k) (min (32 * k + 32) ?hi))"
        using gran_scan_first_fit [OF assms, of 0 k "gat g k"] w by simp
      finally show ?thesis
        using IH first_from_split [of "32 * k" "32 * k + 32" "free_run g n" ?hi]
        by (simp split: option.splits)
    qed
  qed
qed

lemma bit_low_mask [mask_bits]: "n \<le> 32 \<Longrightarrow> bit (low_mask (word_of_nat n)) j \<longleftrightarrow> j < n"
proof -
  assume n: "n \<le> 32"
  then have "(32 :: u32) - word_of_nat n = word_of_nat (32 - n)" by (simp add: of_nat_diff)
  then have "unat ((32 :: u32) - word_of_nat n) = 32 - n"
    using n by (simp add: unat_of_nat_small del: of_nat_diff)
  with n show ?thesis by (simp add: low_mask_def bit_mask_iff mask_bits) auto
qed

lemma granules_for_eq:
  assumes "wf_gran g" "unat sz \<le> 32 * 2 ^ gshift g"
  shows "granules_for g sz = word_of_nat (granule_count g sz)" "granule_count g sz \<le> 32"
    "0 < unat sz \<Longrightarrow> 0 < granule_count g sz"
proof -
  let ?G = "2 ^ gshift g :: nat"
  have L: "gshift g \<le> 25" using assms(1) by (simp add: wf_gran_def)
  have G: "?G \<le> 2 ^ 25" using L by (rule power_increasing) simp
  have G1: "1 \<le> ?G" by simp
  have m: "unat (mask (gshift g) :: u64) = ?G - 1"
    using L by (simp add: unat_mask)
  have "unat (sz + mask (gshift g)) = unat sz + (?G - 1)"
    using assms(2) G by (subst unat_add_small) (simp_all add: m)
  then have u: "unat (drop_bit (gshift g) (sz + mask (gshift g))) = granule_count g sz"
    using G1 by (simp only: granule_count_def unat_drop_bit) simp
  have "unat sz + ?G - 1 < 33 * ?G" using assms(2) G1 by linarith
  then have "(unat sz + ?G - 1) div ?G < 33" by (simp add: div_less_iff_less_mult)
  then show "granule_count g sz \<le> 32" by (simp add: granule_count_def)
  show "granules_for g sz = word_of_nat (granule_count g sz)"
    using L by (simp add: granules_for_def scast_int_shl1_minus u [symmetric])
  show "0 < granule_count g sz" if "0 < unat sz"
    using that by (simp add: granule_count_def div_greater_zero_iff)
qed

section \<open>Marking and clearing ranges of the table\<close>

definition gat_mask :: "nat \<Rightarrow> nat \<Rightarrow> nat \<Rightarrow> u32" where
  "gat_mask i n k = horner_sum of_bool 2 (map (\<lambda>j. i \<le> 32 * k + j \<and> 32 * k + j < i + n) [0..<32])"

lemma bit_gat_mask: "bit (gat_mask i n k) j \<longleftrightarrow> j < 32 \<and> i \<le> 32 * k + j \<and> 32 * k + j < i + n"
  unfolding gat_mask_def bit_horner_sum_bit_word_iff by (auto simp: min_def)

definition gat_or :: "u32 arr \<Rightarrow> nat \<Rightarrow> nat \<Rightarrow> u32 arr" where
  "gat_or a i n = (\<lambda>k. a k OR gat_mask i n k)"

definition gat_andnot :: "u32 arr \<Rightarrow> nat \<Rightarrow> nat \<Rightarrow> u32 arr" where
  "gat_andnot a i n = (\<lambda>k. a k AND NOT (gat_mask i n k))"

lemma abit_gat_or: "abit (gat_or a i n) j \<longleftrightarrow> abit a j \<or> i \<le> j \<and> j < i + n"
proof -
  have "bit (gat_mask i n (j div 32)) (j mod 32) \<longleftrightarrow> i \<le> j \<and> j < i + n"
    by (simp add: bit_gat_mask)
  then show ?thesis by (simp add: abit_def gat_or_def bit_or_iff)
qed

lemma abit_gat_andnot: "abit (gat_andnot a i n) j \<longleftrightarrow> abit a j \<and> \<not> (i \<le> j \<and> j < i + n)"
proof -
  have "bit (gat_mask i n (j div 32)) (j mod 32) \<longleftrightarrow> i \<le> j \<and> j < i + n"
    by (simp add: bit_gat_mask)
  then show ?thesis by (auto simp add: abit_def gat_andnot_def bit_and_iff bit_not_iff)
qed

lemma gat_mask_first:
  assumes "r < 32" "i = 32 * q + r"
  shows "r + n \<le> 32 \<Longrightarrow> gat_mask i n q = push_bit r (low_mask (word_of_nat n))"
    and "32 < r + n \<Longrightarrow> gat_mask i n q = push_bit r (- 1)"
  using assms by (intro bit_word_eqI; auto simp: bit_gat_mask bit_simps bit_low_mask)+

lemma gat_mask_second:
  assumes "r < 32" "i = 32 * q + r" "n \<le> 32" "32 < r + n"
  shows "gat_mask i n (Suc q) = low_mask (word_of_nat (n - (32 - r)))"
proof (rule bit_word_eqI)
  fix j assume "j < LENGTH(32)"
  moreover have "bit (low_mask (word_of_nat (n - (32 - r)))) j \<longleftrightarrow> j < n - (32 - r)"
    using assms(3) by (intro bit_low_mask) simp
  ultimately show "bit (gat_mask i n (Suc q)) j = bit (low_mask (word_of_nat (n - (32 - r)))) j"
    using assms by (auto simp only: bit_gat_mask) auto
qed

lemma gat_mask_other:
  assumes "r < 32" "i = 32 * q + r" "n \<le> 32" "k \<noteq> q" "k = Suc q \<longrightarrow> r + n \<le> 32"
  shows "gat_mask i n k = 0"
proof (rule bit_word_eqI)
  fix j assume "j < LENGTH(32)"
  then have j: "j < 32" by simp
  have "k < q \<or> k = q + 1 \<or> q + 2 \<le> k" using assms(4) by linarith
  with j assms show "bit (gat_mask i n k) j = bit 0 j" by (auto simp: bit_gat_mask)
qed

lemma free_run_masks:
  "free_run g n i \<longleftrightarrow> (\<forall>k. gat g k AND gat_mask i n k = 0)"
proof
  assume f: "free_run g n i"
  show "\<forall>k. gat g k AND gat_mask i n k = 0"
  proof
    fix k
    show "gat g k AND gat_mask i n k = 0"
      using f bit_eq_abit [of _ "gat g" k] by (auto simp: and_zero_iff bit_gat_mask free_run_def mult.commute)
  qed
next
  assume "\<forall>k. gat g k AND gat_mask i n k = 0"
  then have "\<not> bit (gat g (j div 32)) (j mod 32)" if "i \<le> j" "j < i + n" for j
    using that by (simp add: and_zero_iff bit_gat_mask)
  then show "free_run g n i" by (auto simp: free_run_def abit_def)
qed

lemma used_run_masks:
  "used_run g n i \<longleftrightarrow> (\<forall>k. gat g k AND gat_mask i n k = gat_mask i n k)"
proof
  assume f: "used_run g n i"
  show "\<forall>k. gat g k AND gat_mask i n k = gat_mask i n k"
  proof
    fix k
    show "gat g k AND gat_mask i n k = gat_mask i n k"
      using f bit_eq_abit [of _ "gat g" k] by (auto simp: and_full_iff bit_gat_mask used_run_def mult.commute)
  qed
next
  assume "\<forall>k. gat g k AND gat_mask i n k = gat_mask i n k"
  then have "bit (gat g (j div 32)) (j mod 32)" if "i \<le> j" "j < i + n" for j
    using that by (simp add: and_full_iff bit_gat_mask)
  then show "used_run g n i" by (auto simp: used_run_def abit_def)
qed


text \<open>The position of a granule in the table.\<close>

lemma granule_number:
  assumes "wf_gran g" "i < gcount g"
  shows "(ucast (drop_bit (gshift g) (gran_addr g i - heapstart g)) :: u32) = word_of_nat i"
proof -
  have "i * 2 ^ gshift g < gcount g * 2 ^ gshift g" using assms(2) by simp
  also have "\<dots> \<le> 2 ^ 31" using assms(1) by (simp add: wf_gran_def)
  finally have b: "i * 2 ^ gshift g < 2 ^ 31" .
  have "gran_addr g i - heapstart g = word_of_nat (i * 2 ^ gshift g)"
    by (simp add: gran_addr_def)
  moreover have "unat (word_of_nat (i * 2 ^ gshift g) :: u64) = i * 2 ^ gshift g"
    using b by (intro unat_of_nat_small) (simp add: less_trans)
  ultimately have "unat (drop_bit (gshift g) (gran_addr g i - heapstart g)) = i"
    by (simp only: unat_drop_bit) simp
  then show ?thesis by (simp only: ucast_eq_of_nat)
qed

lemma granule_position:
  assumes "i < 2 ^ 32"
  shows "unat (drop_bit 5 (word_of_nat i :: u32)) = i div 32"
    and "unat ((word_of_nat i :: u32) AND 31) = i mod 32"
    and "(32 :: u32) - (word_of_nat i AND 31) = word_of_nat (32 - i mod 32)"
proof -
  have u: "unat (word_of_nat i :: u32) = i" using assms by (intro unat_of_nat_small) simp
  show "unat (drop_bit 5 (word_of_nat i :: u32)) = i div 32" by (simp only: unat_drop_bit u) simp
  have "31 = (mask 5 :: u32)" by (simp add: mask_eq_exp_minus_1)
  then have "(word_of_nat i :: u32) AND 31 = word_of_nat (take_bit 5 i)"
    by (simp only: take_bit_eq_mask [symmetric] take_bit_of_nat)
  then have m: "(word_of_nat i :: u32) AND 31 = word_of_nat (i mod 32)"
    by (simp only: take_bit_eq_mod) simp
  show "unat ((word_of_nat i :: u32) AND 31) = i mod 32"
    unfolding m by (intro unat_of_nat_small) (simp add: less_trans [of _ 32])
  show "(32 :: u32) - (word_of_nat i AND 31) = word_of_nat (32 - i mod 32)"
    unfolding m by (simp add: of_nat_diff)
qed

lemma word_of_nat_less_small:
  "m < 2 ^ 32 \<Longrightarrow> n < 2 ^ 32 \<Longrightarrow> (word_of_nat m < (word_of_nat n :: u32)) \<longleftrightarrow> m < n"
  by (simp add: word_less_nat_alt unat_of_nat_small)

lemma gran_mark_allocated_eq:
  assumes "wf_gran g" "i < gcount g" "n \<le> 32"
  shows "gran_mark_allocated g (gran_addr g i) (word_of_nat n) =
    (if free_run g n i then Some (g\<lparr>gat := gat_or (gat g) i n\<rparr>) else None)"
proof -
  define q r where "q = i div 32" and "r = i mod 32"
  have i: "i = 32 * q + r" "r < 32" by (simp_all add: q_def r_def)
  have i32: "i < 2 ^ 32" using assms(2) unat_u32_bound [of "ngranules g"] by simp
  define av where "av = (word_of_nat (32 - r) :: u32)"
  note pos = granule_position [OF i32, folded q_def r_def, folded av_def]
  have less: "(av < word_of_nat n) \<longleftrightarrow> 32 < r + n"
    unfolding av_def using i(2) assms(3) by (subst word_of_nat_less_small) auto
  note other = gat_mask_other [OF i(2,1) assms(3)]
  show ?thesis
  proof (cases "32 < r + n")
    case False
    then have m: "gat_mask i n q = push_bit r (low_mask (word_of_nat n))"
      using gat_mask_first(1) [OF i(2,1)] by simp
    have zero: "gat_mask i n k = 0" if "k \<noteq> q" for k
      using other [OF that] False by simp
    then have "gat_or (gat g) i n = (gat g)(q := gat g q OR gat_mask i n q)"
      by (auto simp: gat_or_def fun_eq_iff)
    moreover have "free_run g n i \<longleftrightarrow> gat g q AND gat_mask i n q = 0"
      unfolding free_run_masks using zero by (metis and_zero_eq)
    ultimately show ?thesis
      unfolding gran_mark_allocated_def Let_def granule_number [OF assms(1,2)] pos less m [symmetric]
      using False by simp
  next
    case True
    have m1: "gat_mask i n q = push_bit r (- 1)"
      using gat_mask_first(2) [OF i(2,1)] True by simp
    have m2: "gat_mask i n (Suc q) = low_mask (word_of_nat n - av)"
      using gat_mask_second [OF i(2,1) assms(3) True] True i(2) by (simp add: of_nat_diff av_def algebra_simps)
    have zero: "gat_mask i n k = 0" if "k \<noteq> q" "k \<noteq> Suc q" for k
      using other [OF that(1)] that(2) by simp
    then have "gat_or (gat g) i n =
        (gat g)(q := gat g q OR gat_mask i n q, Suc q := gat g (Suc q) OR gat_mask i n (Suc q))"
      by (auto simp: gat_or_def fun_eq_iff)
    moreover have "free_run g n i \<longleftrightarrow>
        gat g q AND gat_mask i n q = 0 \<and> gat g (Suc q) AND gat_mask i n (Suc q) = 0"
      unfolding free_run_masks using zero by (metis and_zero_eq)
    ultimately show ?thesis
      unfolding gran_mark_allocated_def Let_def granule_number [OF assms(1,2)] pos less
        m1 [symmetric] m2 [symmetric]
      using True by (simp add: k_assert_def)
  qed
qed

lemma unat_gran_addr:
  assumes "wf_gran g" "i \<le> gcount g"
  shows "unat (gran_addr g i) = unat (heapstart g) + i * 2 ^ gshift g"
proof -
  have "i * 2 ^ gshift g \<le> gcount g * 2 ^ gshift g" using assms(2) by simp
  then have "unat (heapstart g) + i * 2 ^ gshift g < 2 ^ 64"
    using assms(1) unfolding wf_gran_def by linarith
  moreover from this have "unat (word_of_nat (i * 2 ^ gshift g) :: u64) = i * 2 ^ gshift g"
    by (intro unat_of_nat_small) simp
  ultimately show ?thesis
    unfolding gran_addr_def by (subst unat_add_small) (simp_all only: len_num1, simp_all)
qed

lemma gran_addr_nonzero:
  assumes "wf_gran g" "i \<le> gcount g"
  shows "gran_addr g i \<noteq> 0"
proof -
  have "0 < unat (gran_addr g i)"
    unfolding unat_gran_addr [OF assms] using assms(1) by (simp add: wf_gran_def)
  then show ?thesis by auto
qed

lemma gran_free_eq:
  assumes "wf_gran g" "i < gcount g" "unat sz \<le> 32 * 2 ^ gshift g" "granule_count g sz = n"
  shows "gran_free g (gran_addr g i) sz =
    (if used_run g n i then Some (g\<lparr>gat := gat_andnot (gat g) i n\<rparr>) else None)"
proof -
  have n: "granules_for g sz = word_of_nat n" "n \<le> 32"
    using granules_for_eq [OF assms(1,3)] assms(4) by simp_all
  have guard: "gran_addr g i \<noteq> 0 \<and> sz \<le> scast (32 * int_shl1 (log2gran g))"
    using gran_addr_nonzero [OF assms(1) less_imp_le [OF assms(2)]] assms(1,3)
    by (simp add: word_le_nat_alt unat_max_request wf_gran_def)
  define q r where "q = i div 32" and "r = i mod 32"
  have i: "i = 32 * q + r" "r < 32" by (simp_all add: q_def r_def)
  have i32: "i < 2 ^ 32" using assms(2) unat_u32_bound [of "ngranules g"] by simp
  define av where "av = (word_of_nat (32 - r) :: u32)"
  note pos = granule_position [OF i32, folded q_def r_def, folded av_def]
  have less: "(av < word_of_nat n) \<longleftrightarrow> 32 < r + n"
    unfolding av_def using i(2) n(2) by (subst word_of_nat_less_small) auto
  note other = gat_mask_other [OF i(2,1) n(2)]
  show ?thesis
  proof (cases "32 < r + n")
    case False
    then have m: "gat_mask i n q = push_bit r (low_mask (word_of_nat n))"
      using gat_mask_first(1) [OF i(2,1)] by simp
    have zero: "gat_mask i n k = 0" if "k \<noteq> q" for k
      using other [OF that] False by simp
    then have "gat_andnot (gat g) i n = (gat g)(q := gat g q AND NOT (gat_mask i n q))"
      by (auto simp: gat_andnot_def fun_eq_iff)
    moreover have "used_run g n i \<longleftrightarrow> gat g q AND gat_mask i n q = gat_mask i n q"
      unfolding used_run_masks using zero by (metis and_zero_eq)
    ultimately show ?thesis
      unfolding gran_free_def Let_def n(1) k_assert_bind [OF guard] granule_number [OF assms(1,2)] pos less m [symmetric]
      using False by simp
  next
    case True
    have m1: "gat_mask i n q = push_bit r (- 1)"
      using gat_mask_first(2) [OF i(2,1)] True by simp
    have m2: "gat_mask i n (Suc q) = low_mask (word_of_nat n - av)"
      using gat_mask_second [OF i(2,1) n(2) True] True i(2) by (simp add: of_nat_diff av_def algebra_simps)
    have zero: "gat_mask i n k = 0" if "k \<noteq> q" "k \<noteq> Suc q" for k
      using other [OF that(1)] that(2) by simp
    then have "gat_andnot (gat g) i n =
        (gat g)(q := gat g q AND NOT (gat_mask i n q), Suc q := gat g (Suc q) AND NOT (gat_mask i n (Suc q)))"
      by (auto simp: gat_andnot_def fun_eq_iff)
    moreover have "used_run g n i \<longleftrightarrow>
        gat g q AND gat_mask i n q = gat_mask i n q \<and> gat g (Suc q) AND gat_mask i n (Suc q) = gat_mask i n (Suc q)"
      unfolding used_run_masks using zero by (metis and_zero_eq)
    ultimately show ?thesis
      unfolding gran_free_def Let_def n(1) k_assert_bind [OF guard] granule_number [OF assms(1,2)] pos less
        m1 [symmetric] m2 [symmetric]
      using True by (simp add: k_assert_def)
  qed
qed



section \<open>Allocation and release as table updates\<close>

lemma first_fit_Some:
  assumes "first_fit g n = Some i" "0 < n"
  shows "i < gcount g" "i + n \<le> gcount g" "free_run g n i" "\<And>j. j < i \<Longrightarrow> \<not> free_run g n j"
  using assms by (auto simp: first_fit_def first_from_Some_iff)

lemma gran_alloc_eq:
  assumes "wf_gran g" "valid_request g sz" "granule_count g sz = n"
  shows "gran_alloc g sz =
    Some (case first_fit g n of
            None \<Rightarrow> (0, g)
          | Some i \<Rightarrow> (gran_addr g i, g\<lparr>gat := gat_or (gat g) i n\<rparr>))"
proof -
  have sz: "0 < unat sz" "unat sz \<le> 32 * 2 ^ gshift g"
    using assms(2) by (simp_all add: valid_request_def)
  have n: "granules_for g sz = word_of_nat n" "n \<le> 32" "0 < n"
    using granules_for_eq [OF assms(1) sz(2)] sz(1) assms(3) by simp_all
  have guard: "sz \<le> scast (32 * int_shl1 (log2gran g))" "0 < sz"
    using assms(1) sz by (simp_all add: word_le_nat_alt word_less_nat_alt unat_max_request wf_gran_def)
  have un: "unat (word_of_nat n :: u32) = n" using n(2) by (intro unat_of_nat_small) simp
  have le: "(word_of_nat n :: u32) \<le> 32" using n(2) by (simp add: word_le_nat_alt un)
  have search: "gran_search g n (low_mask (word_of_nat n)) 0 = map_option (gran_addr g) (first_fit g n)"
    using gran_search_first_fit [OF assms(1) n(3,2) bit_low_mask [OF n(2)], of 0]
    by (simp add: first_fit_def)
  show ?thesis
  proof (cases "first_fit g n")
    case None
    then show ?thesis using guard le by (simp add: gran_alloc_def n(1) un search)
  next
    case (Some i)
    note i = first_fit_Some [OF Some n(3)]
    show ?thesis
      using guard le Some i(3) by (simp add: gran_alloc_def n(1) un search gran_mark_allocated_eq [OF assms(1) i(1) n(2)])
  qed
qed

lemma gat_andnot_or: "free_run g n i \<Longrightarrow> gat_andnot (gat_or (gat g) i n) i n = gat g"
  by (rule arr_eq_abitI) (auto simp: abit_gat_or abit_gat_andnot free_run_def)

section \<open>The granule heap is a block allocator\<close>

definition gran_used :: "mm_gran \<Rightarrow> nat set" where
  "gran_used g = {x. unat (heapstart g) \<le> x \<and> (x - unat (heapstart g)) div 2 ^ gshift g < gcount g \<and>
     abit (gat g) ((x - unat (heapstart g)) div 2 ^ gshift g)}"

definition gran_block :: "mm_gran \<Rightarrow> u64 \<Rightarrow> u64 \<Rightarrow> nat set" where
  "gran_block g a sz = {unat a ..< unat a + granule_count g sz * 2 ^ gshift g}"

definition gran_owner :: "mm_gran \<Rightarrow> u64 \<Rightarrow> u64 \<Rightarrow> bool" where
  "gran_owner g a sz \<longleftrightarrow> valid_request g sz \<and>
     (\<exists>i. a = gran_addr g i \<and> i + granule_count g sz \<le> gcount g)"

lemma mem_gran_block:
  assumes "wf_gran g" "i + granule_count g sz \<le> gcount g"
  shows "x \<in> gran_block g (gran_addr g i) sz \<longleftrightarrow>
    unat (heapstart g) \<le> x \<and> i \<le> (x - unat (heapstart g)) div 2 ^ gshift g \<and>
    (x - unat (heapstart g)) div 2 ^ gshift g < i + granule_count g sz"
proof -
  let ?G = "2 ^ gshift g :: nat" and ?H = "unat (heapstart g)"
  have a: "unat (gran_addr g i) = ?H + i * ?G"
    using assms by (intro unat_gran_addr) simp_all
  have "(i \<le> (x - ?H) div ?G) \<longleftrightarrow> i * ?G \<le> x - ?H"
    by (simp add: less_eq_div_iff_mult_less_eq)
  moreover have "((x - ?H) div ?G < i + granule_count g sz) \<longleftrightarrow> x - ?H < (i + granule_count g sz) * ?G"
    by (simp add: div_less_iff_less_mult)
  ultimately show ?thesis unfolding gran_block_def a by (auto simp: algebra_simps)
qed


lemma gat_update_simps [simp]:
  "wf_gran (g\<lparr>gat := t\<rparr>) = wf_gran g" "gran_addr (g\<lparr>gat := t\<rparr>) = gran_addr g"
  "granule_count (g\<lparr>gat := t\<rparr>) = granule_count g" "valid_request (g\<lparr>gat := t\<rparr>) = valid_request g"
  "gran_block (g\<lparr>gat := t\<rparr>) = gran_block g" "gran_owner (g\<lparr>gat := t\<rparr>) = gran_owner g"
  by (simp_all add: wf_gran_def gran_addr_def granule_count_def valid_request_def gran_block_def
      gran_owner_def fun_eq_iff)

lemma gran_alloc_cases:
  assumes "wf_gran g" "gran_alloc g sz = Some (a, g')"
  obtains (null) "a = 0" "g' = g"
  | (found) i where "valid_request g sz" "first_fit g (granule_count g sz) = Some i" "0 < granule_count g sz"
      "a = gran_addr g i" "g' = g\<lparr>gat := gat_or (gat g) i (granule_count g sz)\<rparr>"
proof -
  have m: "unat (scast (32 * int_shl1 (log2gran g)) :: u64) = 32 * 2 ^ gshift g"
    using assms(1) by (intro unat_max_request) (simp add: wf_gran_def)
  have le: "unat sz \<le> 32 * 2 ^ gshift g"
    using assms(2) unfolding gran_alloc_def k_assert_bind_eq_Some word_le_nat_alt m by (rule conjunct1)
  show ?thesis
  proof (cases "unat sz = 0")
    case True
    then have "sz = 0" by (simp add: unsigned_eq_0_iff)
    then show ?thesis using assms(2) by (intro null) (simp_all add: gran_alloc_def)
  next
    case False
    then have v: "valid_request g sz" using le by (simp add: valid_request_def)
    have n: "0 < granule_count g sz" using granules_for_eq(3) [OF assms(1) le] False by simp
    show ?thesis
    proof (cases "first_fit g (granule_count g sz)")
      case None
      then show ?thesis using gran_alloc_eq [OF assms(1) v refl] assms(2) by (intro null) simp_all
    next
      case (Some i)
      then show ?thesis
        using gran_alloc_eq [OF assms(1) v refl] assms(2) v n by (intro found [of i]) simp_all
    qed
  qed
qed

lemma gran_used_or:
  assumes "wf_gran g" "i + granule_count g sz \<le> gcount g"
  shows "gran_used (g\<lparr>gat := gat_or (gat g) i (granule_count g sz)\<rparr>) =
    gran_used g \<union> gran_block g (gran_addr g i) sz"
  using mem_gran_block [OF assms] assms(2) by (auto simp: gran_used_def abit_gat_or)

lemma gran_used_andnot:
  assumes "wf_gran g" "i + granule_count g sz \<le> gcount g"
  shows "gran_used (g\<lparr>gat := gat_andnot (gat g) i (granule_count g sz)\<rparr>) =
    gran_used g - gran_block g (gran_addr g i) sz"
  using mem_gran_block [OF assms] assms(2) by (auto simp: gran_used_def abit_gat_andnot)

lemma granule_byte:
  "(unat (heapstart g) + j * 2 ^ gshift g - unat (heapstart g)) div 2 ^ gshift g = j"
  by simp

lemma used_run_if_block:
  assumes "wf_gran g" "i + granule_count g sz \<le> gcount g" "gran_block g (gran_addr g i) sz \<subseteq> gran_used g"
  shows "used_run g (granule_count g sz) i"
  unfolding used_run_def
proof
  fix j assume "j \<in> {i..<i + granule_count g sz}"
  then have "unat (heapstart g) + j * 2 ^ gshift g \<in> gran_block g (gran_addr g i) sz"
    by (subst mem_gran_block [OF assms(1,2)]) simp
  with assms(3) show "abit (gat g) j" by (auto simp: gran_used_def)
qed

lemma gran_free_block:
  assumes "wf_gran g" "gran_owner g a sz" "gran_block g a sz \<subseteq> gran_used g"
  shows "\<exists>g'. gran_free g a sz = Some g' \<and> wf_gran g' \<and> gran_owner g' = gran_owner g \<and>
    gran_block g' = gran_block g \<and> gran_used g' = gran_used g - gran_block g a sz"
proof -
  from assms(2) obtain i where v: "valid_request g sz" and a: "a = gran_addr g i"
    and i: "i + granule_count g sz \<le> gcount g" by (auto simp: gran_owner_def)
  have le: "unat sz \<le> 32 * 2 ^ gshift g" "0 < granule_count g sz"
    using v granules_for_eq(3) [OF assms(1)] by (simp_all add: valid_request_def)
  with i have lt: "i < gcount g" by simp
  show ?thesis
    using gran_free_eq [OF assms(1) lt le(1) refl] used_run_if_block [OF assms(1) i] assms(3)
      gran_used_andnot [OF assms(1) i]
    by (simp add: a assms(1))
qed

lemma gran_alloc_block:
  assumes "wf_gran g" "gran_alloc g sz = Some (a, g')" "a \<noteq> 0"
  shows "gran_owner g a sz \<and> gran_block g a sz \<inter> gran_used g = {} \<and>
    gran_used g' = gran_used g \<union> gran_block g a sz"
  using assms(1,2)
proof (cases rule: gran_alloc_cases)
  case (found i)
  note i = first_fit_Some [OF found(2,3)]
  have "gran_block g a sz \<inter> gran_used g = {}"
    using i(3) mem_gran_block [OF assms(1) i(2)] by (auto simp: found(4) gran_used_def free_run_def)
  then show ?thesis
    using found i gran_used_or [OF assms(1) i(2)] by (auto simp: gran_owner_def)
qed (simp add: assms(3))

interpretation gran: block_allocator wf_gran gran_owner gran_block gran_used gran_alloc gran_free
proof
  show "s' = s" if "wf_gran s" "gran_alloc s sz = Some (0, s')" for s sz s'
    using that
  proof (cases rule: gran_alloc_cases)
    case (found i)
    then have "i < gcount s" using first_fit_Some by blast
    then show ?thesis using found(4) gran_addr_nonzero [OF that(1), of i] by simp
  qed
  show "wf_gran s' \<and> gran_owner s' = gran_owner s \<and> gran_block s' = gran_block s"
    if "wf_gran s" "gran_alloc s sz = Some (a, s')" for s sz a s'
    using that by (cases rule: gran_alloc_cases) (simp_all add: that(1))
qed (rule gran_alloc_block gran_free_block; assumption)+

section \<open>The layout of the heap\<close>

lemma gran_layout_eq:
  assumes "unat lgran < 32" "unat lalign < 32" "unat start + unat sz < 2 ^ 64" "unat sz < 2 ^ 32"
    and "2 ^ unat lalign \<le> unat sz"
    and "gran_layout start sz lgran lalign = (a, n)"
  shows "2 ^ unat lalign dvd unat a" "unat start \<le> unat a" "unat a < unat start + 2 ^ unat lalign"
    "unat n = (unat start + unat sz - unat a) div 2 ^ unat lgran"
proof -
  let ?A = "2 ^ unat lalign :: nat"
  have a: "a = (start + mask (unat lalign)) AND NOT (mask (unat lalign))"
    and n: "n = ucast (drop_bit (unat lgran) ((start + sz - a) AND NOT (mask (unat lgran))))"
    using assms(1,2,6) by (auto simp: gran_layout_def Let_def scast_int_shl1_minus)
  have A1: "1 \<le> ?A" by simp
  have m: "unat (mask (unat lalign) :: u64) = ?A - 1" using assms(2) by (simp add: unat_mask)
  have s: "unat (start + mask (unat lalign)) = unat start + (?A - 1)"
    using assms(3,5) A1 by (subst unat_add_small) (simp_all add: m)
  have a': "unat a = (unat start + (?A - 1)) div ?A * ?A"
    unfolding a s [symmetric] using assms(2) by (intro unat_and_not_mask) simp
  have dm: "(unat start + (?A - 1)) div ?A * ?A + (unat start + (?A - 1)) mod ?A = unat start + (?A - 1)"
    by (rule div_mult_mod_eq)
  have ml: "(unat start + (?A - 1)) mod ?A < ?A" by simp
  show "?A dvd unat a" unfolding a' by simp
  show lo: "unat start \<le> unat a" using dm ml a' A1 by linarith
  show hi: "unat a < unat start + ?A" using dm a' A1 by linarith
  have "unat (start + sz) = unat start + unat sz" using assms(3) by (subst unat_add_small) simp_all
  then have d: "unat (start + sz - a) = unat start + unat sz - unat a"
    using hi assms(5) by (subst unat_minus_small) simp_all
  have "unat (drop_bit (unat lgran) ((start + sz - a) AND NOT (mask (unat lgran)))) =
      (unat start + unat sz - unat a) div 2 ^ unat lgran"
    using assms(1) by (simp only: unat_drop_bit) (subst unat_and_not_mask, simp_all add: d)
  moreover have "(unat start + unat sz - unat a) div 2 ^ unat lgran < 2 ^ 32"
    using div_le_dividend [of "unat start + unat sz - unat a" "2 ^ unat lgran"] lo assms(4) by linarith
  ultimately show "unat n = (unat start + unat sz - unat a) div 2 ^ unat lgran"
    unfolding n ucast_eq_of_nat by (simp only:) (rule unat_of_nat_small, simp)
qed

lemma unat_SIZEOF_GAT: "unat n + 31 < 2 ^ 32 \<Longrightarrow> unat (SIZEOF_GAT n) = (unat n + 31) div 32"
proof -
  assume "unat n + 31 < 2 ^ 32"
  then have "unat (n + 31) = unat n + 31" by (subst unat_add_small) simp_all
  then show ?thesis by (simp only: SIZEOF_GAT_def unat_drop_bit) simp
qed

lemma unat_gran_head:
  assumes "0 < unat n" "unat n < 2 ^ 31"
  shows "unat (ucast (SIZEOF_MM_GRAN n) :: u32) = 20 + 4 * unat (SIZEOF_GAT n)"
proof -
  have w: "unat (SIZEOF_GAT n) = (unat n + 31) div 32" using assms by (intro unat_SIZEOF_GAT) simp
  then have w1: "1 \<le> unat (SIZEOF_GAT n)" and w2: "unat (SIZEOF_GAT n) \<le> 2 ^ 26"
    using assms by (simp_all add: Suc_le_eq)
  have "unat (SIZEOF_GAT n - 1) = unat (SIZEOF_GAT n) - 1"
    using w1 by (subst unat_minus_small) simp_all
  then have u: "unat (ucast (SIZEOF_GAT n - 1) :: u64) = unat (SIZEOF_GAT n) - 1"
    by (simp add: unat_ucast_up)
  have "unat (4 * ucast (SIZEOF_GAT n - 1) :: u64) = 4 * (unat (SIZEOF_GAT n) - 1)"
    using w2 by (subst unat_mult_small) (simp_all add: u)
  then have "unat (SIZEOF_MM_GRAN n) = 24 + 4 * (unat (SIZEOF_GAT n) - 1)"
    unfolding SIZEOF_MM_GRAN_def using w2 by (subst unat_add_small) simp_all
  then show ?thesis
    unfolding ucast_eq_of_nat using w1 w2 by (simp only:) (subst unat_of_nat_small, simp_all)
qed


text \<open>The first layout, the one the size of the header is computed from.\<close>

lemma gran_head_room:
  assumes "unat start + unat sz < 2 ^ 64" "unat sz \<le> 2 ^ 31" "64 \<le> unat sz"
    and "0 < unat lgran" "unat lgran \<le> 25" "unat lalign \<le> unat lgran" "2 * 2 ^ unat lgran \<le> unat sz"
    and l0: "gran_layout start sz lgran lalign = (a0, n0)"
    and hdr: "hdr = (ucast (SIZEOF_MM_GRAN n0) :: u32)"
  shows "unat hdr = 20 + 4 * unat (SIZEOF_GAT n0)" "unat hdr + 2 ^ unat lalign \<le> unat sz"
    and "unat n0 < 2 ^ 31" "2 ^ unat lalign dvd unat a0" "unat a0 < unat start + 2 ^ unat lalign"
    and "unat n0 = (unat start + unat sz - unat a0) div 2 ^ unat lgran"
proof -
  let ?G = "2 ^ unat lgran :: nat" and ?A = "2 ^ unat lalign :: nat"
  have AG: "?A \<le> ?G" using assms(6) by (rule power_increasing) simp
  have G2: "2 \<le> ?G" using power_increasing [of 1 "unat lgran" "2 :: nat"] assms(4) by simp
  have f0: "unat start \<le> unat a0" "unat a0 < unat start + ?A"
      "unat n0 = (unat start + unat sz - unat a0) div ?G" "?A dvd unat a0"
    using gran_layout_eq [OF _ _ _ _ _ l0] assms AG by simp_all
  have "?G \<le> unat start + unat sz - unat a0" using f0(2) AG assms(7) by linarith
  then have n0: "0 < unat n0" unfolding f0(3) by (simp add: div_greater_zero_iff)
  have "unat n0 * 2 \<le> unat n0 * ?G" using G2 by simp
  also have "\<dots> \<le> unat start + unat sz - unat a0" unfolding f0(3) by (rule div_times_less_eq_dividend)
  finally have n0': "unat n0 * 2 \<le> unat sz" using f0(1) by linarith
  then show lt: "unat n0 < 2 ^ 31" using assms(2) by simp
  have "unat (SIZEOF_GAT n0) = (unat n0 + 31) div 32" using lt by (intro unat_SIZEOF_GAT) simp
  then have q: "unat (SIZEOF_GAT n0) * 32 \<le> unat n0 + 31" by (simp only: div_times_less_eq_dividend)
  show h: "unat hdr = 20 + 4 * unat (SIZEOF_GAT n0)"
    unfolding hdr using n0 lt by (intro unat_gran_head) simp_all
  show "unat hdr + ?A \<le> unat sz" using q n0' AG assms(3,7) unfolding h by linarith
  show "?A dvd unat a0" "unat a0 < unat start + ?A"
    "unat n0 = (unat start + unat sz - unat a0) div ?G" using f0 by simp_all
qed

lemma gran_initialize_eq:
  assumes "0 < unat start" "unat start + unat sz < 2 ^ 64" "unat sz \<le> 2 ^ 31" "64 \<le> unat sz"
    and "0 < unat lgran" "unat lgran \<le> 25" "unat lalign \<le> unat lgran" "2 * 2 ^ unat lgran \<le> unat sz"
  obtains a n where "gran_initialize mem start sz lgran lalign =
      Some (start, \<lparr>log2gran = lgran, ngranules = n, heapstart = a, gat = mem\<rparr>)"
    "2 ^ unat lalign dvd unat a" "unat start + 20 + 4 * unat (SIZEOF_GAT n) \<le> unat a"
    "unat a \<le> unat start + unat sz" "unat n = (unat start + unat sz - unat a) div 2 ^ unat lgran"
proof -
  let ?G = "2 ^ unat lgran :: nat" and ?A = "2 ^ unat lalign :: nat"
  have AG: "?A \<le> ?G" using assms(7) by (rule power_increasing) simp
  have "start \<noteq> 0" using assms(1) by auto
  obtain a0 n0 where l0: "gran_layout start sz lgran lalign = (a0, n0)" by fastforce
  define hdr where "hdr = (ucast (SIZEOF_MM_GRAN n0) :: u32)"
  note h = gran_head_room [OF assms(2-8) l0 hdr_def]
  have hu: "unat (ucast hdr :: u64) = unat hdr" by (simp add: unat_ucast_up)
  have s': "unat (start + ucast hdr) = unat start + unat hdr"
    using h(2) assms(2) by (subst unat_add_small) (simp_all add: hu)
  have z': "unat (sz - ucast hdr) = unat sz - unat hdr"
    using h(2) by (subst unat_minus_small) (simp_all add: hu)
  obtain a n where l: "gran_layout (start + ucast hdr) (sz - ucast hdr) lgran lalign = (a, n)" by fastforce
  have f: "?A dvd unat a" "unat start + unat hdr \<le> unat a" "unat a < unat start + unat hdr + ?A"
      "unat n = (unat start + unat sz - unat a) div ?G"
    using gran_layout_eq [OF _ _ _ _ _ l] assms AG h(2) by (simp_all add: s' z')
  have le: "unat a \<le> unat start + unat sz" using f(3) h(2) by linarith
  have "unat a0 \<le> unat a"
    using h(4) f(1) by (rule dvd_le_if_less_add) (use h(5) f(2) in linarith)
  then have nn: "unat n \<le> unat n0"
    unfolding f(4) h(6) by (intro div_le_mono) simp
  then have "unat (SIZEOF_GAT n) \<le> unat (SIZEOF_GAT n0)"
    using h(3) by (subst unat_SIZEOF_GAT; simp add: unat_SIZEOF_GAT div_le_mono)
  moreover have "gran_initialize mem start sz lgran lalign =
      Some (start, \<lparr>log2gran = lgran, ngranules = n, heapstart = a, gat = mem\<rparr>)"
    using assms \<open>start \<noteq> 0\<close> by (simp add: gran_initialize_def l0 hdr_def [symmetric] l word_less_nat_alt word_le_nat_alt)
  ultimately show ?thesis using that f le h(1) by simp
qed

section \<open>Properties\<close>

text \<open>
  C1.  \<^verbatim>\<open>gran_alloc\<close> is first-fit.  On a well-formed heap a request of 1 byte to 32
  granules never halts the kernel.  When some run of free granules is long enough the
  result is the address of the lowest such run, exactly the bits of that run are set and
  nothing else changes; when there is none, the result is null and the heap is unchanged.
\<close>

theorem gran_alloc_first_fit:
  assumes "wf_gran g" "valid_request g sz" "granule_count g sz = n"
  shows "case first_fit g n of
      None \<Rightarrow> gran_alloc g sz = Some (0, g)
    | Some i \<Rightarrow> \<exists>t. gran_alloc g sz = Some (gran_addr g i, g\<lparr>gat := t\<rparr>) \<and> gran_addr g i \<noteq> 0 \<and>
        (\<forall>j. abit t j \<longleftrightarrow> abit (gat g) j \<or> i \<le> j \<and> j < i + n)"
proof (cases "first_fit g n")
  case (Some i)
  have "0 < n" using granules_for_eq(3) [OF assms(1)] assms(2,3) by (auto simp: valid_request_def)
  then have "gran_addr g i \<noteq> 0"
    using first_fit_Some(1) [OF Some] by (intro gran_addr_nonzero [OF assms(1)]) simp
  then show ?thesis
    using gran_alloc_eq [OF assms] Some by (auto simp: abit_gat_or)
qed (simp add: gran_alloc_eq [OF assms])

abbreviation demo_heap :: "u32 \<Rightarrow> mm_gran" where
  "demo_heap w \<equiv> \<lparr>log2gran = 12, ngranules = 5, heapstart = 0x40001000, gat = (\<lambda>_. w)\<rparr>"

theorem gran_alloc_first_fit_witness:
  "wf_gran (demo_heap 5) \<and> valid_request (demo_heap 5) 8000 \<and>
   (\<exists>t. gran_alloc (demo_heap 5) 8000 = Some (0x40004000, (demo_heap 5)\<lparr>gat := t\<rparr>))"
proof -
  have wf: "wf_gran (demo_heap 5)" "valid_request (demo_heap 5) 8000"
    by (simp_all add: wf_gran_def valid_request_def)
  have n: "granule_count (demo_heap 5) 8000 = 2" by (simp add: granule_count_def)
  have "first_fit (demo_heap 5) 2 = Some 3" by code_simp
  then show ?thesis
    using gran_alloc_first_fit [OF wf n] wf by (auto simp: gran_addr_def)
qed

text \<open>
  C3.  Releasing a block that \<^verbatim>\<open>gran_alloc\<close> has just returned, with the size it was
  requested with, does not halt and restores the heap exactly.
\<close>

theorem gran_free_gran_alloc:
  assumes "wf_gran g" "gran_alloc g sz = Some (a, g')" "a \<noteq> 0"
  shows "gran_free g' a sz = Some g"
  using assms(1,2)
proof (cases rule: gran_alloc_cases)
  case (found i)
  note i = first_fit_Some [OF found(2,3)]
  have "used_run g' (granule_count g sz) i"
    by (auto simp: used_run_def found(5) abit_gat_or)
  moreover have "gat_andnot (gat g') i (granule_count g sz) = gat g"
    using gat_andnot_or [OF i(3)] by (simp add: found(5))
  moreover have "wf_gran g'" "i < gcount g'" "unat sz \<le> 32 * 2 ^ gshift g'" "granule_count g' sz = granule_count g sz"
    using assms(1) found i(1) by (simp_all add: valid_request_def)
  ultimately show ?thesis
    using gran_free_eq [of g' i sz] by (simp add: found(4,5))
qed (simp add: assms(3))

theorem gran_free_gran_alloc_witness:
  "wf_gran (demo_heap 1) \<and> (\<exists>a g'. gran_alloc (demo_heap 1) 4096 = Some (a, g') \<and> a \<noteq> 0 \<and>
     gran_free g' a 4096 = Some (demo_heap 1))"
proof -
  have wf: "wf_gran (demo_heap 1)" "valid_request (demo_heap 1) 4096"
    by (simp_all add: wf_gran_def valid_request_def)
  have n: "granule_count (demo_heap 1) 4096 = 1" by (simp add: granule_count_def)
  have "first_fit (demo_heap 1) 1 = Some 1" by code_simp
  then obtain g' where "gran_alloc (demo_heap 1) 4096 = Some (0x40002000, g')"
    using gran_alloc_eq [OF wf n] by (auto simp: gran_addr_def)
  then show ?thesis using gran_free_gran_alloc [OF wf(1)] wf(1) by fastforce
qed

text \<open>
  C7.  Releasing a range of granules of which one at least is not allocated, a double
  release for instance, halts the kernel instead of changing the table.
\<close>

theorem gran_free_unallocated_halts:
  assumes "wf_gran g" "i < gcount g" "unat sz \<le> 32 * 2 ^ gshift g"
    and "i \<le> j" "j < i + granule_count g sz" "\<not> abit (gat g) j"
  shows "gran_free g (gran_addr g i) sz = None"
proof -
  have "\<not> used_run g (granule_count g sz) i" using assms(4-6) by (auto simp: used_run_def)
  then show ?thesis using gran_free_eq [OF assms(1-3) refl] by simp
qed

theorem gran_free_unallocated_halts_witness:
  "gran_free (demo_heap 1) 0x40001000 8192 = None"
proof -
  have "wf_gran (demo_heap 1)" by (simp add: wf_gran_def)
  moreover have "granule_count (demo_heap 1) 8192 = 2" by (simp add: granule_count_def)
  ultimately have "gran_free (demo_heap 1) (gran_addr (demo_heap 1) 0) 8192 = None"
    by (intro gran_free_unallocated_halts [of _ 0 _ 1]) (simp_all add: abit_def)
  then show ?thesis by (simp add: gran_addr_def)
qed

text \<open>
  C2.  Every run of allocations and releases from a well-formed heap: the live blocks
  are pairwise disjoint, none of them takes a byte that was in use at the start, the bytes
  in use are the initial ones and those of the live blocks and no others (nothing leaks),
  and releasing any live block succeeds.
\<close>

theorem gran_heap_safe:
  assumes "heap_run gran_alloc gran_free g0 g live" "wf_gran g0"
  shows "disjoint_blocks (case_prod (gran_block g0)) live \<and>
    (\<forall>(a, sz)\<in>set live. gran_block g0 a sz \<inter> gran_used g0 = {} \<and> (\<exists>g'. gran_free g a sz = Some g')) \<and>
    gran_used g = gran_used g0 \<union> \<Union> (case_prod (gran_block g0) ` set live)"
  using gran.heap_run_ledger [OF assms] gran.live_block_free [OF assms] by blast

theorem gran_heap_safe_witness:
  "\<exists>g a. heap_run gran_alloc gran_free (demo_heap 1) g [(a, 4096)] \<and>
     gran_block (demo_heap 1) a 4096 \<inter> gran_used (demo_heap 1) = {}"
proof -
  have wf: "wf_gran (demo_heap 1)" "valid_request (demo_heap 1) 4096"
    by (simp_all add: wf_gran_def valid_request_def)
  have n: "granule_count (demo_heap 1) 4096 = 1" by (simp add: granule_count_def)
  have "first_fit (demo_heap 1) 1 = Some 1" by code_simp
  then obtain g' where "gran_alloc (demo_heap 1) 4096 = Some (0x40002000, g')"
    using gran_alloc_eq [OF wf n] by (auto simp: gran_addr_def)
  then have run: "heap_run gran_alloc gran_free (demo_heap 1) g' [(0x40002000, 4096)]"
    by (intro run_alloc [OF run_start]) simp_all
  then show ?thesis using gran_heap_safe [OF run wf(1)] by auto
qed

text \<open>
  C6.  \<^verbatim>\<open>gran_initialize\<close> on a region of 64 bytes to 2 GiB that holds two granules: it
  returns the start of the region, the heap is well-formed and aligned as asked, the
  header with the whole table and the one word after it that \<^verbatim>\<open>gran_alloc\<close> reads lies
  below the first granule, and the granules fill the region up to less than one granule.
\<close>

theorem gran_initialize_sound:
  assumes "0 < unat start" "unat start + unat sz < 2 ^ 64" "unat sz \<le> 2 ^ 31" "64 \<le> unat sz"
    and "0 < unat lgran" "unat lgran \<le> 25" "unat lalign \<le> unat lgran" "2 * 2 ^ unat lgran \<le> unat sz"
  shows "\<exists>g. gran_initialize mem start sz lgran lalign = Some (start, g) \<and> wf_gran g \<and>
    log2gran g = lgran \<and> gat g = mem \<and> 2 ^ unat lalign dvd unat (heapstart g) \<and>
    unat start + 16 + 4 * (unat (SIZEOF_GAT (ngranules g)) + 1) \<le> unat (heapstart g) \<and>
    unat (heapstart g) + gcount g * 2 ^ gshift g \<le> unat start + unat sz \<and>
    unat start + unat sz < unat (heapstart g) + (gcount g + 1) * 2 ^ gshift g"
proof -
  obtain a n where i: "gran_initialize mem start sz lgran lalign =
      Some (start, \<lparr>log2gran = lgran, ngranules = n, heapstart = a, gat = mem\<rparr>)"
    and f: "2 ^ unat lalign dvd unat a" "unat start + 20 + 4 * unat (SIZEOF_GAT n) \<le> unat a"
    "unat a \<le> unat start + unat sz" "unat n = (unat start + unat sz - unat a) div 2 ^ unat lgran"
    using gran_initialize_eq [OF assms] by blast
  let ?G = "2 ^ unat lgran :: nat"
  have N: "unat n * ?G \<le> unat start + unat sz - unat a" "unat start + unat sz - unat a < (unat n + 1) * ?G"
    unfolding f(4) by (simp_all add: div_times_less_eq_dividend dividend_less_div_times)
  have "wf_gran \<lparr>log2gran = lgran, ngranules = n, heapstart = a, gat = mem\<rparr>"
  proof -
    have "unat n * ?G \<le> 2 ^ 31" "unat a + unat n * ?G < 2 ^ 64" using assms(2,3) N(1) f(2,3) by linarith+
    then show ?thesis unfolding wf_gran_def using assms(1,6) f(2) by simp
  qed
  moreover have "unat a + unat n * ?G \<le> unat start + unat sz"
    "unat start + unat sz < unat a + (unat n + 1) * ?G" using N f(3) by linarith+
  ultimately show ?thesis
    using i f(1,2) by (intro exI [of _ "\<lparr>log2gran = lgran, ngranules = n, heapstart = a, gat = mem\<rparr>"]) simp
qed

theorem gran_initialize_sound_witness:
  "\<exists>g. gran_initialize (\<lambda>_. 0) 0x40100000 0x100000 12 12 = Some (0x40100000, g) \<and> wf_gran g"
  using gran_initialize_sound [of "0x40100000" "0x100000" 12 12 "\<lambda>_. 0"] by auto

text \<open>
  C8.  The word that \<^verbatim>\<open>gran_alloc\<close> reads past the end of the table does not matter: on two
  heaps whose tables agree on the granules that exist, it returns the same address.
\<close>

theorem gran_alloc_ignores_overread:
  assumes "wf_gran g" "valid_request g sz" "\<forall>j<gcount g. abit (gat g) j = abit t j"
  shows "map_option fst (gran_alloc (g\<lparr>gat := t\<rparr>) sz) = map_option fst (gran_alloc g sz)"
proof -
  let ?n = "granule_count g sz"
  have "free_run (g\<lparr>gat := t\<rparr>) ?n i = free_run g ?n i" if "i < Suc (gcount g) - ?n" for i
  proof -
    have "i + ?n \<le> gcount g" using that by linarith
    then have "abit t j = abit (gat g) j" if "j \<in> {i..<i + ?n}" for j
      using that assms(3) by simp
    then show ?thesis by (simp add: free_run_def)
  qed
  then have "first_fit (g\<lparr>gat := t\<rparr>) ?n = first_fit g ?n"
    unfolding first_fit_def by (auto intro: first_from_cong)
  then show ?thesis
    using gran_alloc_eq [OF assms(1,2) refl] gran_alloc_eq [of "g\<lparr>gat := t\<rparr>" sz ?n] assms(1,2)
    by (simp split: option.splits)
qed

theorem gran_alloc_ignores_overread_witness:
  "map_option fst (gran_alloc ((demo_heap 1)\<lparr>gat := (\<lambda>k. if k = 0 then 1 else - 1)\<rparr>) 4096) =
   map_option fst (gran_alloc (demo_heap 1) 4096)"
  by (rule gran_alloc_ignores_overread)
     (auto simp: wf_gran_def valid_request_def abit_def)

end
