(* ===== verification/K_Graninfo.thy ===== *)
theory K_Graninfo
  imports K_Gran
begin

text \<open>
  Statistics of the granule heap, \<^verbatim>\<open>os/core/mm/mm_graninfo.c\<close>.  The table is summarised nibble by
  nibble from constant tables; summaries of neighbouring pieces are combined.

  The fields of a summary are at most the number of bits it is about, at most 32, and those of
  the result, when the loop ends, at most the number of granules, so they are natural numbers here.  Values from
  the table are words of the width the code uses.

  \<open>segs\<close> is the sequence of the lengths of the free runs before, between and after the allocated
  granules.  A summary is a function of it, and the combination of two summaries is the
  concatenation of two sequences that share a run.
\<close>

section \<open>Data and tables\<close>

record valinfo_s =
  v_nfree :: nat
  v_nlsfree :: nat
  v_nmsfree :: nat
  v_mxfree :: nat

record graninfo =
  g_log2gran :: u8
  g_ngranules :: u32
  g_nfree :: nat
  g_mxfree :: nat

type_synonym nibble_info = "nat \<times> nat \<times> nat \<times> nat"

definition g_0bit_info :: "nibble_info list" where
  "g_0bit_info = [(0, 0, 0, 0)]"

definition g_1bit_info :: "nibble_info list" where
  "g_1bit_info = [(1, 1, 0, 0), (0, 0, 0, 0)]"

definition g_2bit_info :: "nibble_info list" where
  "g_2bit_info = [(2, 2, 0, 0), (1, 0, 1, 0), (1, 1, 0, 0), (0, 0, 0, 0)]"

definition g_3bit_info :: "nibble_info list" where
  "g_3bit_info =
    [(3, 3, 0, 0), (2, 0, 2, 0), (2, 1, 1, 0), (1, 0, 1, 0),
     (2, 2, 0, 0), (1, 0, 0, 1), (1, 1, 0, 0), (0, 0, 0, 0)]"

definition g_4bit_info :: "nibble_info list" where
  "g_4bit_info =
    [(4, 4, 0, 0), (3, 0, 3, 0), (3, 1, 2, 0), (2, 0, 2, 0),
     (3, 2, 1, 0), (2, 0, 1, 1), (2, 1, 1, 0), (1, 0, 1, 0),
     (3, 3, 0, 0), (2, 0, 0, 2), (2, 1, 0, 1), (1, 0, 0, 1),
     (2, 2, 0, 0), (1, 0, 0, 1), (1, 1, 0, 0), (0, 0, 0, 0)]"

definition g_info_table :: "nibble_info list list" where
  "g_info_table = [g_0bit_info, g_1bit_info, g_2bit_info, g_3bit_info, g_4bit_info]"

section \<open>Operations\<close>

definition gran_nibble_info :: "u8 \<Rightarrow> nat \<Rightarrow> valinfo_s" where
  "gran_nibble_info value nbits =
     (let table = g_info_table ! nbits;
          msk = push_bit nbits 1 - 1;
          value = value AND msk;
          (nfree, nlsfree, nmsfree, mxfree) = table ! unat value
      in \<lparr>v_nfree = nfree, v_nlsfree = nlsfree, v_nmsfree = nmsfree, v_mxfree = mxfree\<rparr>)"

definition gran_info_combine :: "valinfo_s \<Rightarrow> nat \<Rightarrow> valinfo_s \<Rightarrow> nat \<Rightarrow> valinfo_s" where
  "gran_info_combine msinfo msbits lsinfo lsbits =
     (let midfree = (if v_nlsfree lsinfo < lsbits \<and> v_nlsfree msinfo < msbits
                     then v_nmsfree lsinfo + v_nlsfree msinfo else 0);
          lsinfo = lsinfo\<lparr>v_nfree := v_nfree lsinfo + v_nfree msinfo\<rparr>;
          lsinfo = (if v_nlsfree msinfo = msbits
                    then if v_nlsfree lsinfo = lsbits then lsinfo\<lparr>v_nmsfree := 0\<rparr>
                         else lsinfo\<lparr>v_nmsfree := v_nmsfree lsinfo + msbits\<rparr>
                    else lsinfo\<lparr>v_nmsfree := v_nmsfree msinfo\<rparr>);
          lsinfo = (if v_nlsfree lsinfo = lsbits then lsinfo\<lparr>v_nlsfree := v_nlsfree lsinfo + v_nlsfree msinfo\<rparr> else lsinfo);
          lsinfo = (if midfree > v_mxfree lsinfo then lsinfo\<lparr>v_mxfree := midfree\<rparr> else lsinfo)
      in if v_mxfree msinfo > v_mxfree lsinfo then lsinfo\<lparr>v_mxfree := v_mxfree msinfo\<rparr> else lsinfo)"

definition gran_byte_info :: "u8 \<Rightarrow> nat \<Rightarrow> valinfo_s" where
  "gran_byte_info value nbits =
     (let msk = (if nbits < 8 then push_bit nbits 1 - 1 else 0xff);
          value = (if nbits < 8 then value AND msk else value)
      in if value = 0 then \<lparr>v_nfree = nbits, v_nlsfree = nbits, v_nmsfree = 0, v_mxfree = 0\<rparr>
         else if value = msk then \<lparr>v_nfree = 0, v_nlsfree = 0, v_nmsfree = 0, v_mxfree = 0\<rparr>
         else let info = gran_nibble_info (value AND 0x0f) (if nbits > 4 then 4 else nbits)
              in if nbits > 4
                 then gran_info_combine (gran_nibble_info (drop_bit 4 value) (nbits - 4)) (nbits - 4) info 4
                 else info)"

definition gran_hword_info :: "u16 \<Rightarrow> nat \<Rightarrow> valinfo_s" where
  "gran_hword_info value nbits =
     (let msk = (if nbits < 16 then push_bit nbits 1 - 1 else 0xffff);
          value = (if nbits < 16 then value AND msk else value)
      in if value = 0 then \<lparr>v_nfree = nbits, v_nlsfree = nbits, v_nmsfree = 0, v_mxfree = 0\<rparr>
         else if value = msk then \<lparr>v_nfree = 0, v_nlsfree = 0, v_nmsfree = 0, v_mxfree = 0\<rparr>
         else let info = gran_byte_info (ucast (value AND 0xff)) (if nbits > 8 then 8 else nbits)
              in if nbits > 8
                 then gran_info_combine (gran_byte_info (ucast (drop_bit 8 value)) (nbits - 8)) (nbits - 8) info 8
                 else info)"

text \<open>One entry of the table, with the running length \<open>mxfree\<close> of the last free run.\<close>

definition gran_dump_word :: "u32 \<Rightarrow> nat \<Rightarrow> graninfo \<times> nat \<Rightarrow> graninfo \<times> nat" where
  "gran_dump_word value nbits = (\<lambda>(info, mxfree).
     let msk = (if nbits < 32 then push_bit nbits 1 - 1 else 0xffffffff);
         value = (if nbits < 32 then value AND msk else value)
     in if value = msk then (if mxfree > g_mxfree info then info\<lparr>g_mxfree := mxfree\<rparr> else info, 0)
        else if value = 0 then (info\<lparr>g_nfree := g_nfree info + nbits\<rparr>, mxfree + nbits)
        else
          let hwinfo = gran_hword_info (ucast (value AND 0xffff)) (if nbits > 16 then 16 else nbits);
              hwinfo = (if nbits > 16
                        then gran_info_combine (gran_hword_info (ucast (drop_bit 16 value)) (nbits - 16)) (nbits - 16) hwinfo 16
                        else hwinfo);
              mxfree = (if v_nlsfree hwinfo > 0 then mxfree + v_nlsfree hwinfo else mxfree);
              (info, mxfree) =
                (if v_nlsfree hwinfo < nbits then
                   let mxfree = (if v_mxfree hwinfo > mxfree then v_mxfree hwinfo else mxfree);
                       info = (if mxfree > g_mxfree info then info\<lparr>g_mxfree := mxfree\<rparr> else info)
                   in (info, v_nmsfree hwinfo)
                 else (info, mxfree))
          in (info\<lparr>g_nfree := g_nfree info + v_nfree hwinfo\<rparr>, mxfree))"

text \<open>
  The loop over the table.  Its index is an \<^verbatim>\<open>unsigned int\<close> and wraps: \<open>None\<close> stands for a loop that never ends.
\<close>

partial_function (option) gran_dump_loop :: "mm_gran \<Rightarrow> u32 \<Rightarrow> graninfo \<times> nat \<Rightarrow> (graninfo \<times> nat) option" where
  "gran_dump_loop gran granidx st =
     (if granidx < ngranules gran
      then let nbits = (if granidx + 32 > ngranules gran then unat (ngranules gran - granidx) else 32)
           in gran_dump_loop gran (granidx + 32) (gran_dump_word (gat gran (unat (drop_bit 5 granidx))) nbits st)
      else Some st)"

definition gran_dump :: "mm_gran option \<Rightarrow> graninfo option" where
  "gran_dump handle = do {
     gran \<leftarrow> handle;
     (info, mxfree) \<leftarrow> gran_dump_loop gran 0
       (\<lparr>g_log2gran = log2gran gran, g_ngranules = ngranules gran, g_nfree = 0, g_mxfree = 0\<rparr>, 0);
     Some (if mxfree > g_mxfree info then info\<lparr>g_mxfree := mxfree\<rparr> else info)
   }"


section \<open>Free runs\<close>

fun segs :: "bool list \<Rightarrow> nat list" where
  "segs [] = [0]"
| "segs (b # bs) = (if b then 0 # segs bs else Suc (hd (segs bs)) # tl (segs bs))"

definition maxl :: "nat list \<Rightarrow> nat" where
  "maxl xs = foldr max xs 0"

lemma maxl_simps [simp]: "maxl [] = 0" "maxl (x # xs) = max x (maxl xs)"
  by (simp_all add: maxl_def)

lemma maxl_append [simp]: "maxl (xs @ ys) = max (maxl xs) (maxl ys)"
  by (induction xs) (auto simp: max.assoc)

lemma segs_ne [simp]: "segs xs \<noteq> []"
  by (cases xs) auto

lemma segs_append: "segs (xs @ ys) = butlast (segs xs) @ (last (segs xs) + hd (segs ys)) # tl (segs ys)"
proof (induction xs)
  case (Cons b bs)
  obtain n ns where s: "segs bs = n # ns" using segs_ne [of bs] by (cases "segs bs") auto
  then show ?case using Cons by (cases ns) auto
qed simp

lemma segs_sum: "sum_list (segs xs) = length (filter Not xs)" "length (segs xs) = Suc (length (filter (\<lambda>b. b) xs))"
proof -
  have "sum_list (segs xs) = length (filter Not xs) \<and> length (segs xs) = Suc (length (filter (\<lambda>b. b) xs))"
  proof (induction xs)
    case (Cons b bs)
    obtain n ns where "segs bs = n # ns" using segs_ne [of bs] by (cases "segs bs") auto
    then show ?case using Cons by auto
  qed simp
  then show "sum_list (segs xs) = length (filter Not xs)" "length (segs xs) = Suc (length (filter (\<lambda>b. b) xs))" by simp_all
qed

lemma segs_cases:
  obtains (free) "segs xs = [length xs]" | (some) a m z where "segs xs = a # m @ [z]" "a < length xs"
proof (cases "segs xs")
  case Nil then show ?thesis by simp
next
  case (Cons a r)
  have len: "length xs = sum_list (segs xs) + (length (segs xs) - 1)"
    using sum_length_filter_compl [of "\<lambda>b. b" xs] by (simp add: segs_sum)
  show ?thesis
  proof (cases r rule: rev_cases)
    case Nil
    then show ?thesis using free Cons len by simp
  next
    case (snoc m z)
    then show ?thesis using some [of a m z] Cons len by simp
  qed
qed

definition summary :: "nat list \<Rightarrow> valinfo_s" where
  "summary s = \<lparr>v_nfree = sum_list s, v_nlsfree = hd s, v_nmsfree = (if tl s = [] then 0 else last s), v_mxfree = maxl (butlast (tl s))\<rparr>"

lemma combine_summary:
  "gran_info_combine (summary (segs ys)) (length ys) (summary (segs xs)) (length xs) = summary (segs (xs @ ys))"
proof (cases rule: segs_cases [of xs])
  case free
  show ?thesis
  proof (cases rule: segs_cases [of ys])
    case free
    then show ?thesis using \<open>segs xs = [length xs]\<close> by (simp add: Let_def gran_info_combine_def summary_def segs_append)
  next
    case (some a m z)
    then show ?thesis using \<open>segs xs = [length xs]\<close> by (simp add: Let_def gran_info_combine_def summary_def segs_append butlast_append)
  qed
next
  case xs: (some a m z)
  show ?thesis
  proof (cases rule: segs_cases [of ys])
    case free
    then show ?thesis using xs by (simp add: Let_def gran_info_combine_def summary_def segs_append butlast_append)
  next
    case (some a' m' z')
    then show ?thesis using xs by (simp add: Let_def gran_info_combine_def summary_def segs_append butlast_append max_def)
  qed
qed

text \<open>The bits of a table value, lowest first, true for an allocated granule.\<close>

definition bits :: "'a::len word \<Rightarrow> nat \<Rightarrow> bool list" where
  "bits v n = map (bit v) [0..<n]"

lemma length_bits [simp]: "length (bits v n) = n"
  by (simp add: bits_def)

lemma bits_split: "k \<le> n \<Longrightarrow> bits v n = bits v k @ bits (drop_bit k v) (n - k)"
  unfolding bits_def by (rule nth_equalityI) (auto simp: nth_append bit_simps)


lemma bits_cong: "(\<And>i. i < n \<Longrightarrow> bit v i = bit w i) \<Longrightarrow> bits v n = bits w n"
  by (simp add: bits_def)

lemma bits_mask: "bits (v AND (push_bit n 1 - 1)) n = bits v n"
proof -
  have "push_bit n 1 - 1 = (mask n :: 'a::len word)" by (simp add: mask_eq_exp_minus_1)
  then show ?thesis by (intro bits_cong) (auto simp: bit_simps dest: bit_imp_le_length)
qed

lemma bits_ucast: "n \<le> LENGTH('b) \<Longrightarrow> bits (ucast (v :: 'a::len word) :: 'b::len word) n = bits v n"
  by (intro bits_cong) (auto simp: bit_simps)

lemma bits_eq_replicate:
  assumes "n \<le> LENGTH('a)"
  shows "bits (0 :: 'a::len word) n = replicate n False" "bits (mask n :: 'a word) n = replicate n True"
  using assms by (auto simp: bits_def bit_simps map_replicate_const intro!: nth_equalityI)

lemma segs_replicate: "segs (replicate n False) = [n]" "segs (replicate n True) = replicate (Suc n) 0"
  by (induction n) auto

definition nibble_entry :: "nat \<Rightarrow> nat \<Rightarrow> valinfo_s" where
  "nibble_entry x n =
     (case g_info_table ! n ! x of (nfree, nlsfree, nmsfree, mxfree) \<Rightarrow>
        \<lparr>v_nfree = nfree, v_nlsfree = nlsfree, v_nmsfree = nmsfree, v_mxfree = mxfree\<rparr>)"

lemma tables_correct:
  "list_all (\<lambda>n. list_all (\<lambda>x. nibble_entry x n = summary (segs (bits (word_of_nat x :: u8) n))) [0..<2 ^ n]) [0..<5]"
  by code_simp

lemma gran_nibble_info_eq:
  assumes "n \<le> 4"
  shows "gran_nibble_info v n = summary (segs (bits v n))"
proof -
  let ?x = "unat (v AND (push_bit n 1 - 1))"
  have m: "push_bit n 1 - 1 = (mask n :: u8)" by (simp add: mask_eq_exp_minus_1)
  have "?x < 2 ^ n" unfolding m using assms by (subst unat_and_mask) simp_all
  then have "nibble_entry ?x n = summary (segs (bits (word_of_nat ?x :: u8) n))"
    using tables_correct assms unfolding list_all_iff by auto
  also have "(word_of_nat ?x :: u8) = v AND (push_bit n 1 - 1)" by simp
  finally show ?thesis
    unfolding bits_mask by (simp add: gran_nibble_info_def nibble_entry_def Let_def split: prod.splits)
qed

text \<open>The special cases of a piece that is all free or all allocated.\<close>

lemma summary_uniform:
  assumes "n \<le> LENGTH('a)"
  shows "summary (segs (bits (0 :: 'a::len word) n)) = \<lparr>v_nfree = n, v_nlsfree = n, v_nmsfree = 0, v_mxfree = 0\<rparr>"
    "0 < n \<Longrightarrow> summary (segs (bits (mask n :: 'a word) n)) = \<lparr>v_nfree = 0, v_nlsfree = 0, v_nmsfree = 0, v_mxfree = 0\<rparr>"
proof -
  have z: "maxl (replicate k 0) = 0" for k by (induction k) auto
  show "summary (segs (bits (0 :: 'a::len word) n)) = \<lparr>v_nfree = n, v_nlsfree = n, v_nmsfree = 0, v_mxfree = 0\<rparr>"
    by (simp add: bits_eq_replicate [OF assms] segs_replicate summary_def)
  assume "0 < n"
  then obtain k where k: "n = Suc k" by (cases n) auto
  have "segs (bits (mask n :: 'a word) n) = 0 # replicate k 0 @ [0]"
    unfolding bits_eq_replicate [OF assms] segs_replicate by (simp add: k replicate_append_same)
  then show "summary (segs (bits (mask n :: 'a word) n)) = \<lparr>v_nfree = 0, v_nlsfree = 0, v_nmsfree = 0, v_mxfree = 0\<rparr>"
    by (simp add: summary_def z sum_list_replicate)
qed


lemma bits_and_low:
  assumes "k \<le> m"
  shows "bits (v AND mask m :: 'a::len word) k = bits v k"
  using assms by (intro bits_cong) (auto simp: bit_simps dest: bit_imp_le_length)

lemma hex_masks: "(0x0f :: u8) = mask 4" "(0xff :: u8) = mask 8" "(0xff :: u16) = mask 8" "(0xffff :: u16) = mask 16"
  "(0xffff :: u32) = mask 16" "(0xffffffff :: u32) = mask 32"
  by (simp_all add: mask_eq_exp_minus_1)

text \<open>A piece of \<open>n\<close> bits made of a low part and the rest, each summarised.\<close>

lemma combine_parts:
  assumes "low = summary (segs (bits v (if n > k then k else n)))"
    and "n > k \<Longrightarrow> high = summary (segs (bits (drop_bit k v) (n - k)))"
  shows "(if n > k then gran_info_combine high (n - k) low k else low) = summary (segs (bits v n))"
proof (cases "n > k")
  case True
  have "gran_info_combine high (n - k) low k = summary (segs (bits v k @ bits (drop_bit k v) (n - k)))"
    using combine_summary [of "bits (drop_bit k v) (n - k)" "bits v k"] assms True by simp
  also have "bits v k @ bits (drop_bit k v) (n - k) = bits v n" using True by (simp add: bits_split [of k n])
  finally show ?thesis using True by simp
qed (use assms in simp)

lemma bits_masked: "bits (if b then v AND (push_bit n 1 - 1) else v) n = bits v n"
  by (simp only: bits_mask split: if_split) simp

lemma piece_eq:
  fixes w v :: "'a::len word"
  assumes n: "n \<le> LENGTH('a)" and w: "bits w n = bits v n" and rest: "rest = summary (segs (bits w n))"
  shows "(if w = 0 then \<lparr>v_nfree = n, v_nlsfree = n, v_nmsfree = 0, v_mxfree = 0\<rparr>
    else if w = mask n then \<lparr>v_nfree = 0, v_nlsfree = 0, v_nmsfree = 0, v_mxfree = 0\<rparr> else rest) = summary (segs (bits v n))"
  unfolding w [symmetric] using summary_uniform [OF n] rest by (cases "n = 0") auto

lemma gran_byte_info_eq:
  assumes "n \<le> 8"
  shows "gran_byte_info v n = summary (segs (bits v n))"
proof -
  define w where "w = (if n < 8 then v AND (push_bit n 1 - 1) else v)"
  have m: "(if n < 8 then push_bit n 1 - 1 else 0xff) = (mask n :: u8)"
    using assms by (cases "n = 8") (simp_all add: mask_eq_exp_minus_1)
  have w: "(if n < 8 then v AND mask n else v) = w" unfolding w_def m [symmetric] by simp
  have low: "gran_nibble_info (w AND 0x0f) (if n > 4 then 4 else n) = summary (segs (bits w (if n > 4 then 4 else n)))"
    unfolding hex_masks by (subst gran_nibble_info_eq) (simp_all add: bits_and_low)
  have "(if n > 4 then gran_info_combine (gran_nibble_info (drop_bit 4 w) (n - 4)) (n - 4)
      (gran_nibble_info (w AND 0x0f) (if n > 4 then 4 else n)) 4
    else gran_nibble_info (w AND 0x0f) (if n > 4 then 4 else n)) = summary (segs (bits w n))"
    using assms by (intro combine_parts [OF low] gran_nibble_info_eq) simp
  from piece_eq [OF _ _ this, of v] show ?thesis
    unfolding gran_byte_info_def Let_def m w using assms by (simp add: w_def bits_masked)
qed

lemma gran_hword_info_eq:
  assumes "n \<le> 16"
  shows "gran_hword_info v n = summary (segs (bits v n))"
proof -
  define w where "w = (if n < 16 then v AND (push_bit n 1 - 1) else v)"
  have m: "(if n < 16 then push_bit n 1 - 1 else 0xffff) = (mask n :: u16)"
    using assms by (cases "n = 16") (simp_all add: mask_eq_exp_minus_1)
  have w: "(if n < 16 then v AND mask n else v) = w" unfolding w_def m [symmetric] by simp
  have low: "gran_byte_info (ucast (w AND 0xff)) (if n > 8 then 8 else n) = summary (segs (bits w (if n > 8 then 8 else n)))"
    unfolding hex_masks by (subst gran_byte_info_eq) (simp_all add: bits_and_low bits_ucast)
  have "n > 8 \<Longrightarrow> gran_byte_info (ucast (drop_bit 8 w)) (n - 8) = summary (segs (bits (drop_bit 8 w) (n - 8)))"
    using assms by (subst gran_byte_info_eq) (simp_all add: bits_ucast)
  from combine_parts [OF low this]
  have "(if n > 8 then gran_info_combine (gran_byte_info (ucast (drop_bit 8 w)) (n - 8)) (n - 8)
      (gran_byte_info (ucast (w AND 0xff)) (if n > 8 then 8 else n)) 8
    else gran_byte_info (ucast (w AND 0xff)) (if n > 8 then 8 else n)) = summary (segs (bits w n))" by blast
  from piece_eq [OF _ _ this, of v] show ?thesis
    unfolding gran_hword_info_def Let_def m w using assms by (simp add: w_def bits_masked)
qed


section \<open>The whole table\<close>

definition dump_inv :: "nat list \<Rightarrow> graninfo \<times> nat \<Rightarrow> bool" where
  "dump_inv s = (\<lambda>(info, mxfree). g_nfree info = sum_list s \<and> mxfree = last s \<and> g_mxfree info = maxl (butlast s))"

lemma dump_word_inv:
  assumes inv: "dump_inv (segs xs) (info, mx)" and n: "0 < n" "n \<le> 32"
  shows "dump_inv (segs (xs @ bits v n)) (gran_dump_word v n (info, mx))"
proof -
  define w where "w = (if n < 32 then v AND (push_bit n 1 - 1) else v)"
  have m: "(if n < 32 then push_bit n 1 - 1 else 0xffffffff) = (mask n :: u32)"
    using n by (cases "n = 32") (simp_all add: mask_eq_exp_minus_1)
  have w: "(if n < 32 then v AND mask n else v) = w" unfolding w_def m [symmetric] by simp
  have bw: "bits v n = bits w n" by (simp add: w_def bits_masked)
  define hw where "hw = (if n > 16 then gran_info_combine (gran_hword_info (ucast (drop_bit 16 w)) (n - 16)) (n - 16)
      (gran_hword_info (ucast (w AND 0xffff)) (if n > 16 then 16 else n)) 16
    else gran_hword_info (ucast (w AND 0xffff)) (if n > 16 then 16 else n))"
  have low: "gran_hword_info (ucast (w AND 0xffff)) (if n > 16 then 16 else n) = summary (segs (bits w (if n > 16 then 16 else n)))"
    unfolding hex_masks by (subst gran_hword_info_eq) (simp_all add: bits_and_low bits_ucast)
  have "n > 16 \<Longrightarrow> gran_hword_info (ucast (drop_bit 16 w)) (n - 16) = summary (segs (bits (drop_bit 16 w) (n - 16)))"
    using n by (subst gran_hword_info_eq) (simp_all add: bits_ucast)
  from combine_parts [OF low this] have hw: "hw = summary (segs (bits w n))" unfolding hw_def by blast
  obtain A z where A: "segs xs = A @ [z]" using segs_ne [of xs] by (metis append_butlast_last_id)
  have i: "g_nfree info = sum_list A + z" "mx = z" "g_mxfree info = maxl A" using inv A by (simp_all add: dump_inv_def)
  have app: "segs (xs @ bits v n) = A @ (z + hd (segs (bits w n))) # tl (segs (bits w n))"
    using A by (simp add: segs_append bw)
  have word: "gran_dump_word v n (info, mx) =
      (if w = mask n then (if mx > g_mxfree info then info\<lparr>g_mxfree := mx\<rparr> else info, 0)
       else if w = 0 then (info\<lparr>g_nfree := g_nfree info + n\<rparr>, mx + n)
       else let mx = mx + v_nlsfree hw;
                (info, mx) = (if v_nlsfree hw < n then
                   let mx = max mx (v_mxfree hw) in (if mx > g_mxfree info then info\<lparr>g_mxfree := mx\<rparr> else info, v_nmsfree hw)
                 else (info, mx))
            in (info\<lparr>g_nfree := g_nfree info + v_nfree hw\<rparr>, mx))"
    unfolding gran_dump_word_def prod.case Let_def m w hw_def [symmetric] by (auto simp: max_def)
  consider (used) "w = mask n" | (free) "w = 0" "w \<noteq> mask n" | (mixed) "w \<noteq> 0" "w \<noteq> mask n" by blast
  then show ?thesis
  proof cases
    case used
    obtain k where k: "n = Suc k" using n by (cases n) auto
    have z: "maxl (replicate k 0) = 0" for k by (induction k) auto
    have "bits w n = replicate n True" using n used by (simp add: bits_eq_replicate)
    then have "segs (bits w n) = 0 # replicate k 0 @ [0]" by (simp add: segs_replicate k replicate_append_same)
    then show ?thesis unfolding app word using used i z by (simp add: dump_inv_def butlast_append sum_list_replicate max_def)
  next
    case free
    have "bits w n = replicate n False" using free n by (simp add: bits_eq_replicate)
    then have "segs (bits w n) = [n]" by (simp add: segs_replicate)
    then show ?thesis unfolding app word using free i by (simp add: dump_inv_def butlast_append)
  next
    case mixed
    show ?thesis
    proof (cases rule: segs_cases [of "bits w n"])
      case free
      then show ?thesis unfolding app word using mixed i by (simp add: dump_inv_def butlast_append hw summary_def)
    next
      case (some a k y)
      then show ?thesis unfolding app word using mixed i
        by (simp add: Let_def dump_inv_def butlast_append hw summary_def max_def)
    qed
  qed
qed


definition table_bits :: "mm_gran \<Rightarrow> nat \<Rightarrow> bool list" where
  "table_bits g n = map (abit (gat g)) [0..<n]"

lemma table_bits_word:
  assumes "32 dvd i" "n \<le> 32"
  shows "table_bits g (i + n) = table_bits g i @ bits (gat g (i div 32)) n"
proof -
  obtain q where q: "i = 32 * q" using assms(1) by auto
  have "map (abit (gat g)) [i..<i + n] = bits (gat g (i div 32)) n"
    using assms(2) by (intro nth_equalityI) (auto simp: q bits_def abit_def)
  then show ?thesis unfolding table_bits_def by (metis map_append upt_add_eq_append zero_le)
qed

lemma dump_word_keeps:
  "g_log2gran (fst (gran_dump_word v n st)) = g_log2gran (fst st) \<and> g_ngranules (fst (gran_dump_word v n st)) = g_ngranules (fst st)"
  by (cases st) (simp add: gran_dump_word_def Let_def)

text \<open>One round at an index that is not close to the top of 32 bits.\<close>

lemma dump_loop_round:
  assumes "gcount g \<le> 2 ^ 32 - 32" "i < gcount g"
  shows "gran_dump_loop g (word_of_nat i) st =
    gran_dump_loop g (word_of_nat (i + 32)) (gran_dump_word (gat g (i div 32)) (min 32 (gcount g - i)) st)"
proof -
  have "i < 2 ^ LENGTH(32)" "i + 32 < 2 ^ LENGTH(32)" using assms by simp_all
  then have i: "unat (word_of_nat i :: u32) = i" "unat (word_of_nat (i + 32) :: u32) = i + 32"
    by (simp_all only: unat_of_nat_small)
  then have sum: "word_of_nat i + 32 = (word_of_nat (i + 32) :: u32)" by simp
  have "unat (drop_bit 5 (word_of_nat i :: u32)) = i div 32"
    unfolding unat_drop_bit_eq i(1) by (simp add: drop_bit_eq_div)
  moreover have "(if word_of_nat (i + 32) > ngranules g then unat (ngranules g - word_of_nat i) else 32) = min 32 (gcount g - i)"
    using i assms(2) by (auto simp: word_less_nat_alt unat_minus_small word_le_nat_alt)
  moreover have "word_of_nat i < ngranules g" using i(1) assms(2) by (simp add: word_less_nat_alt)
  ultimately show ?thesis by (subst gran_dump_loop.simps) (simp only: sum Let_def if_True)
qed

lemma dump_loop_inv:
  assumes "gcount g \<le> 2 ^ 32 - 32" "32 dvd i" "i < 2 ^ 32" "dump_inv (segs (table_bits g (min i (gcount g)))) st"
  shows "\<exists>st'. gran_dump_loop g (word_of_nat i) st = Some st' \<and> dump_inv (segs (table_bits g (gcount g))) st' \<and>
    g_log2gran (fst st') = g_log2gran (fst st) \<and> g_ngranules (fst st') = g_ngranules (fst st)"
  using assms(2,3,4)
proof (induction "gcount g - i" arbitrary: i st rule: less_induct)
  case less
  show ?case
  proof (cases "i < gcount g")
    case False
    then have "\<not> word_of_nat i < ngranules g" using less.prems(2) by (simp add: word_less_nat_alt unat_of_nat_small)
    then show ?thesis using False less.prems(3) by (subst gran_dump_loop.simps) simp
  next
    case True
    let ?n = "min 32 (gcount g - i)" and ?w = "gran_dump_word (gat g (i div 32)) (min 32 (gcount g - i)) st"
    have n: "0 < ?n" "?n \<le> 32" "min (i + 32) (gcount g) = i + ?n" "min i (gcount g) = i" using True by auto
    obtain info mx where st: "st = (info, mx)" by (cases st)
    have "dump_inv (segs (table_bits g (i + ?n))) ?w"
      unfolding table_bits_word [OF less.prems(1) n(2)] st using less.prems(3) n by (intro dump_word_inv) (simp_all only: st)
    then have "dump_inv (segs (table_bits g (min (i + 32) (gcount g)))) ?w" by (simp only: n(3))
    moreover have "gcount g - (i + 32) < gcount g - i" "32 dvd i + 32" "i + 32 < 2 ^ 32" using True assms(1) less.prems(1) by simp_all
    ultimately show ?thesis using less.hyps [of "i + 32" ?w] dump_word_keeps
      unfolding dump_loop_round [OF assms(1) True] by metis
  qed
qed

text \<open>With more than \<open>2\<^sup>3\<^sup>2 - 32\<close> granules every multiple of 32 is below the bound and the loop never ends.\<close>

lemma dump_loop_diverges:
  assumes "gran_dump_loop g granidx st = Some st'"
  shows "gcount g > 2 ^ 32 - 32 \<longrightarrow> \<not> 32 dvd unat granidx"
proof (rule gran_dump_loop.raw_induct [OF _ assms], intro impI notI)
  fix f gran idx st r
  assume IH: "\<And>gran idx st r. f gran idx st = Some r \<Longrightarrow> gcount gran > 2 ^ 32 - 32 \<longrightarrow> \<not> 32 dvd unat idx"
    and eq: "(if idx < ngranules gran
       then let nbits = (if idx + 32 > ngranules gran then unat (ngranules gran - idx) else 32)
            in f gran (idx + 32) (gran_dump_word (gat gran (unat (drop_bit 5 idx))) nbits st)
       else Some st) = Some r"
    and big: "gcount gran > 2 ^ 32 - 32" and al: "32 dvd unat idx"
  have "unat idx < 2 ^ 32" using unsigned_less [of idx] by simp
  then have "unat idx \<le> 2 ^ 32 - 32" using al by (auto elim!: dvdE)
  then have "idx < ngranules gran" using big by (simp add: word_less_nat_alt)
  then obtain st' where "f gran (idx + 32) st' = Some r" using eq by (auto simp: Let_def)
  moreover have "32 dvd unat (idx + 32)" using al by (simp add: unat_word_ariths dvd_mod)
  ultimately show False using IH big by blast
qed

text \<open>A run of \<open>n\<close> free granules exists exactly when \<open>n\<close> is at most the longest segment.\<close>

definition has_run :: "bool list \<Rightarrow> nat \<Rightarrow> bool" where
  "has_run xs n \<longleftrightarrow> (\<exists>i. i + n \<le> length xs \<and> (\<forall>j\<in>{i..<i + n}. \<not> xs ! j))"

lemma has_run_Cons: "has_run (b # bs) n \<longleftrightarrow> (n \<le> Suc (length bs) \<and> (\<forall>j<n. \<not> (b # bs) ! j)) \<or> has_run bs n"
proof -
  have ex: "(\<exists>i. Q i) \<longleftrightarrow> Q 0 \<or> (\<exists>i. Q (Suc i))" for Q :: "nat \<Rightarrow> bool" by (metis nat.exhaust)
  have "has_run (b # bs) n \<longleftrightarrow> (\<exists>i. i + n \<le> Suc (length bs) \<and> (\<forall>j\<in>{i..<i + n}. \<not> (b # bs) ! j))" by (simp add: has_run_def)
  also have "\<dots> \<longleftrightarrow> (n \<le> Suc (length bs) \<and> (\<forall>j\<in>{0..<n}. \<not> (b # bs) ! j)) \<or>
      (\<exists>i. Suc i + n \<le> Suc (length bs) \<and> (\<forall>j\<in>{Suc i..<Suc i + n}. \<not> (b # bs) ! j))" by (subst ex) simp
  also have "(\<exists>i. Suc i + n \<le> Suc (length bs) \<and> (\<forall>j\<in>{Suc i..<Suc i + n}. \<not> (b # bs) ! j)) \<longleftrightarrow> has_run bs n"
    unfolding has_run_def by (simp add: image_Suc_atLeastLessThan [symmetric] del: image_Suc_atLeastLessThan)
  finally show ?thesis by auto
qed

lemma run_prefix: "n \<le> length xs \<and> (\<forall>j<n. \<not> xs ! j) \<longleftrightarrow> n \<le> hd (segs xs)"
proof (induction xs arbitrary: n)
  case (Cons b bs)
  show ?case
  proof (cases n)
    case (Suc m)
    then show ?thesis using Cons.IH [of m] by (auto simp: less_Suc_eq_0_disj)
  qed simp
qed auto

lemma has_run_iff: "has_run xs n \<longleftrightarrow> n \<le> maxl (segs xs)"
proof (induction xs)
  case (Cons b bs)
  obtain h t where s: "segs bs = h # t" using segs_ne [of bs] by (cases "segs bs") auto
  have "has_run (b # bs) n \<longleftrightarrow> n \<le> hd (segs (b # bs)) \<or> n \<le> maxl (segs bs)"
    unfolding has_run_Cons Cons.IH using run_prefix [of n "b # bs"] by (simp only: length_Cons)
  also have "\<dots> \<longleftrightarrow> n \<le> maxl (segs (b # bs))" using s by (auto simp: le_max_iff_disj)
  finally show ?case .
qed (auto simp: has_run_def)

lemma free_run_table: "(\<exists>i. i + n \<le> gcount g \<and> free_run g n i) \<longleftrightarrow> n \<le> maxl (segs (table_bits g (gcount g)))"
  unfolding has_run_iff [symmetric] has_run_def free_run_def by (auto simp: table_bits_def)


lemma gran_dump_eq:
  assumes "gcount g \<le> 2 ^ 32 - 32"
  shows "gran_dump (Some g) = Some \<lparr>g_log2gran = log2gran g, g_ngranules = ngranules g,
     g_nfree = sum_list (segs (table_bits g (gcount g))), g_mxfree = maxl (segs (table_bits g (gcount g)))\<rparr>"
proof -
  let ?S = "segs (table_bits g (gcount g))"
  let ?i0 = "\<lparr>g_log2gran = log2gran g, g_ngranules = ngranules g, g_nfree = 0, g_mxfree = 0\<rparr>"
  obtain info mx where r: "gran_dump_loop g 0 (?i0, 0) = Some (info, mx)" "dump_inv ?S (info, mx)"
      "g_log2gran info = log2gran g" "g_ngranules info = ngranules g"
    using dump_loop_inv [OF assms, of 0 "(?i0, 0)"] by (auto simp: dump_inv_def table_bits_def)
  then have inv: "g_nfree info = sum_list ?S" "mx = last ?S" "g_mxfree info = maxl (butlast ?S)" by (simp_all add: dump_inv_def)
  have "maxl ?S = max (maxl (butlast ?S)) (last ?S)"
    using maxl_append [of "butlast ?S" "[last ?S]"] by (simp add: append_butlast_last_id)
  then show ?thesis using inv r by (simp add: gran_dump_def max_def)
qed

lemma max_run: "Max {n. \<exists>i. i + n \<le> gcount g \<and> free_run g n i} = maxl (segs (table_bits g (gcount g)))"
proof -
  have "{n. \<exists>i. i + n \<le> gcount g \<and> free_run g n i} = {..maxl (segs (table_bits g (gcount g)))}"
    using free_run_table [of _ g] by auto
  then show ?thesis by (auto intro: Max_eqI)
qed

text \<open>
  C23.  \<^verbatim>\<open>gran_dump\<close> computes from the packed table, the nibble tables and the combination of
  summaries exactly what its fields are meant to be: the number of free granules and the length of
  the longest run of free granules.  It returns exactly when there are at most \<open>2\<^sup>3\<^sup>2 - 32\<close> granules: above that the 32-bit index wraps
  to 0 before it reaches the count, and the loop never ends.
\<close>

theorem gran_dump_exact:
  "gran_dump (Some g) =
     (if gcount g \<le> 2 ^ 32 - 32
      then Some \<lparr>g_log2gran = log2gran g, g_ngranules = ngranules g,
        g_nfree = card {i. i < gcount g \<and> \<not> abit (gat g) i},
        g_mxfree = Max {n. \<exists>i. i + n \<le> gcount g \<and> free_run g n i}\<rparr>
      else None)"
proof (cases "gcount g \<le> 2 ^ 32 - 32")
  case True
  have "sum_list (segs (table_bits g (gcount g))) = length (filter (\<lambda>i. \<not> abit (gat g) i) [0..<gcount g])"
    by (simp add: segs_sum table_bits_def filter_map o_def)
  also have "\<dots> = card {i. i < gcount g \<and> \<not> abit (gat g) i}"
    by (subst distinct_card [symmetric]) (auto intro!: arg_cong [of _ _ card])
  finally show ?thesis using True by (simp add: gran_dump_eq max_run)
next
  case False
  then have "gran_dump_loop g 0 st = None" for st
    using dump_loop_diverges [of g 0 st] by (cases "gran_dump_loop g 0 st") simp_all
  then show ?thesis using False by (simp add: gran_dump_def)
qed

text \<open>
  C24.  The statistics tell whether an allocation succeeds: a valid request is served exactly when
  it needs no more granules than the longest free run that \<^verbatim>\<open>gran_dump\<close> reports.
\<close>

theorem gran_dump_predicts_alloc:
  assumes "wf_gran g" "valid_request g sz"
  shows "\<exists>info a g'. gran_dump (Some g) = Some info \<and> gran_alloc g sz = Some (a, g') \<and>
    (a \<noteq> 0 \<longleftrightarrow> granule_count g sz \<le> g_mxfree info)"
proof -
  let ?n = "granule_count g sz"
  have n: "0 < ?n" using granules_for_eq(3) [OF assms(1)] assms(2) by (auto simp: valid_request_def)
  note run = gran_alloc_eq [OF assms refl]
  have "gcount g \<le> gcount g * 2 ^ gshift g" by simp
  also have "\<dots> \<le> 2 ^ 32 - 32" using assms(1) by (simp add: wf_gran_def)
  finally have "gcount g \<le> 2 ^ 32 - 32" .
  note dump = gran_dump_eq [OF this]
  have fit: "first_fit g ?n \<noteq> None \<longleftrightarrow> ?n \<le> maxl (segs (table_bits g (gcount g)))"
  proof -
    have "i < Suc (gcount g) - ?n \<longleftrightarrow> i + ?n \<le> gcount g" for i by linarith
    then show ?thesis unfolding free_run_table [symmetric] first_fit_def first_from_None_iff by auto
  qed
  show ?thesis
  proof (cases "first_fit g ?n")
    case None
    then show ?thesis using run fit by (simp add: dump)
  next
    case (Some i)
    then have "gran_addr g i \<noteq> 0" using first_fit_Some(1) [OF Some n] by (intro gran_addr_nonzero [OF assms(1)]) simp
    then show ?thesis using run fit Some by (simp add: dump)
  qed
qed

theorem gran_dump_predicts_alloc_witness:
  "\<exists>info a g'. gran_dump (Some (demo_heap 5)) = Some info \<and> gran_alloc (demo_heap 5) 8000 = Some (a, g') \<and>
     (a \<noteq> 0 \<longleftrightarrow> 2 \<le> g_mxfree info)"
proof -
  have "wf_gran (demo_heap 5)" "valid_request (demo_heap 5) 8000" by (simp_all add: wf_gran_def valid_request_def)
  from gran_dump_predicts_alloc [OF this] show ?thesis by (simp add: granule_count_def)
qed

end
