(* ===== verification/K_List.thy ===== *)
theory K_List
  imports K_Prelude
begin

text \<open>
  The intrusive lists of \<^verbatim>\<open>os/include/uapi/list.h\<close>.  A list cell is an address, and the heap
  gives the two words of every cell: \<open>nextp\<close> is the word at offset 0 and \<open>prevp\<close> the one at
  offset 8.  Every operation is the sequence of stores of its C body, in its order, so
  aliasing between the cells is as in the code.

  \<open>is_list h hd xs\<close> says that the circular list with head cell \<open>hd\<close> holds the cells \<open>xs\<close>
  in order; every operation is shown to be an operation on \<open>xs\<close>.  The \<^verbatim>\<open>hlist\<close> variants
  end in a null pointer and keep, in the second word, the address of the pointer that
  points to the cell; since \<^verbatim>\<open>first\<close> and \<^verbatim>\<open>next\<close> are at offset 0, that is the address of
  the previous cell or of the head.  Null pointers occur only there, so the operations of the
  \<^verbatim>\<open>hlist\<close> variants have the value \<open>None\<close> for an access through one; in a circular list no
  pointer is null.
\<close>

section \<open>The heap of cells\<close>

record lheap =
  nextp :: "u64 \<Rightarrow> u64"
  prevp :: "u64 \<Rightarrow> u64"

definition set_next :: "lheap \<Rightarrow> u64 \<Rightarrow> u64 \<Rightarrow> lheap" where
  "set_next h a v = h\<lparr>nextp := (nextp h)(a := v)\<rparr>"

definition set_prev :: "lheap \<Rightarrow> u64 \<Rightarrow> u64 \<Rightarrow> lheap" where
  "set_prev h a v = h\<lparr>prevp := (prevp h)(a := v)\<rparr>"

definition LIST_POISON1 :: u64 where
  "LIST_POISON1 = 0x00100100"

definition LIST_POISON2 :: u64 where
  "LIST_POISON2 = 0x00200200"

text \<open>\<^verbatim>\<open>container_of\<close> for a member at the given offset.\<close>

definition list_entry :: "u64 \<Rightarrow> u64 \<Rightarrow> u64" where
  "list_entry ptr offset = ptr - offset"

section \<open>Circular lists\<close>

definition INIT_LIST_HEAD :: "lheap \<Rightarrow> u64 \<Rightarrow> lheap" where
  "INIT_LIST_HEAD h list = set_prev (set_next h list list) list list"

definition raw_list_add :: "lheap \<Rightarrow> u64 \<Rightarrow> u64 \<Rightarrow> u64 \<Rightarrow> lheap" where
  "raw_list_add h new prv nxt =
     (let h = set_prev h nxt new;
          h = set_next h new nxt;
          h = set_prev h new prv
      in set_next h prv new)"

definition list_add :: "lheap \<Rightarrow> u64 \<Rightarrow> u64 \<Rightarrow> lheap" where
  "list_add h new head = raw_list_add h new head (nextp h head)"

definition list_add_tail :: "lheap \<Rightarrow> u64 \<Rightarrow> u64 \<Rightarrow> lheap" where
  "list_add_tail h new head = raw_list_add h new (prevp h head) head"

definition raw_list_del :: "lheap \<Rightarrow> u64 \<Rightarrow> u64 \<Rightarrow> lheap" where
  "raw_list_del h prv nxt = set_next (set_prev h nxt prv) prv nxt"

definition raw_list_del_entry :: "lheap \<Rightarrow> u64 \<Rightarrow> lheap" where
  "raw_list_del_entry h e = raw_list_del h (prevp h e) (nextp h e)"

definition list_del :: "lheap \<Rightarrow> u64 \<Rightarrow> lheap" where
  "list_del h e =
     (let h = raw_list_del h (prevp h e) (nextp h e);
          h = set_next h e LIST_POISON1
      in set_prev h e LIST_POISON2)"

definition list_replace :: "lheap \<Rightarrow> u64 \<Rightarrow> u64 \<Rightarrow> lheap" where
  "list_replace h old new =
     (let h = set_next h new (nextp h old);
          h = set_prev h (nextp h new) new;
          h = set_prev h new (prevp h old)
      in set_next h (prevp h new) new)"

definition list_replace_init :: "lheap \<Rightarrow> u64 \<Rightarrow> u64 \<Rightarrow> lheap" where
  "list_replace_init h old new = INIT_LIST_HEAD (list_replace h old new) old"

definition list_del_init :: "lheap \<Rightarrow> u64 \<Rightarrow> lheap" where
  "list_del_init h e = INIT_LIST_HEAD (raw_list_del_entry h e) e"

definition list_move :: "lheap \<Rightarrow> u64 \<Rightarrow> u64 \<Rightarrow> lheap" where
  "list_move h list head = list_add (raw_list_del_entry h list) list head"

definition list_move_tail :: "lheap \<Rightarrow> u64 \<Rightarrow> u64 \<Rightarrow> lheap" where
  "list_move_tail h list head = list_add_tail (raw_list_del_entry h list) list head"

definition list_is_last :: "lheap \<Rightarrow> u64 \<Rightarrow> u64 \<Rightarrow> bool" where
  "list_is_last h list head \<longleftrightarrow> nextp h list = head"

definition list_empty :: "lheap \<Rightarrow> u64 \<Rightarrow> bool" where
  "list_empty h head \<longleftrightarrow> nextp h head = head"

definition list_empty_careful :: "lheap \<Rightarrow> u64 \<Rightarrow> bool" where
  "list_empty_careful h head \<longleftrightarrow>
     (let nxt = nextp h head in nxt = head \<and> nxt = prevp h head)"

definition list_rotate_left :: "lheap \<Rightarrow> u64 \<Rightarrow> lheap" where
  "list_rotate_left h head =
     (if \<not> list_empty h head then list_move_tail h (nextp h head) head else h)"

definition list_is_singular :: "lheap \<Rightarrow> u64 \<Rightarrow> bool" where
  "list_is_singular h head \<longleftrightarrow> \<not> list_empty h head \<and> nextp h head = prevp h head"

definition raw_list_cut_position :: "lheap \<Rightarrow> u64 \<Rightarrow> u64 \<Rightarrow> u64 \<Rightarrow> lheap" where
  "raw_list_cut_position h list head entry =
     (let new_first = nextp h entry;
          h = set_next h list (nextp h head);
          h = set_prev h (nextp h list) list;
          h = set_prev h list entry;
          h = set_next h entry list;
          h = set_next h head new_first
      in set_prev h new_first head)"

definition list_cut_position :: "lheap \<Rightarrow> u64 \<Rightarrow> u64 \<Rightarrow> u64 \<Rightarrow> lheap" where
  "list_cut_position h list head entry =
     (if list_empty h head then h
      else if list_is_singular h head \<and> nextp h head \<noteq> entry \<and> head \<noteq> entry then h
      else if entry = head then INIT_LIST_HEAD h list
      else raw_list_cut_position h list head entry)"

definition raw_list_splice :: "lheap \<Rightarrow> u64 \<Rightarrow> u64 \<Rightarrow> u64 \<Rightarrow> lheap" where
  "raw_list_splice h list prv nxt =
     (let first = nextp h list;
          last = prevp h list;
          h = set_prev h first prv;
          h = set_next h prv first;
          h = set_next h last nxt
      in set_prev h nxt last)"

definition list_splice :: "lheap \<Rightarrow> u64 \<Rightarrow> u64 \<Rightarrow> lheap" where
  "list_splice h list head =
     (if \<not> list_empty h list then raw_list_splice h list head (nextp h head) else h)"

definition list_splice_tail :: "lheap \<Rightarrow> u64 \<Rightarrow> u64 \<Rightarrow> lheap" where
  "list_splice_tail h list head =
     (if \<not> list_empty h list then raw_list_splice h list (prevp h head) head else h)"

definition list_splice_init :: "lheap \<Rightarrow> u64 \<Rightarrow> u64 \<Rightarrow> lheap" where
  "list_splice_init h list head =
     (if \<not> list_empty h list
      then INIT_LIST_HEAD (raw_list_splice h list head (nextp h head)) list else h)"

definition list_splice_tail_init :: "lheap \<Rightarrow> u64 \<Rightarrow> u64 \<Rightarrow> lheap" where
  "list_splice_tail_init h list head =
     (if \<not> list_empty h list
      then INIT_LIST_HEAD (raw_list_splice h list (prevp h head) head) list else h)"

text \<open>
  The iteration macros, as the list of cells they visit.  A loop over a chain that never
  returns to the head does not end, which is the value \<open>None\<close>.
\<close>

partial_function (option) visit_next :: "lheap \<Rightarrow> u64 \<Rightarrow> u64 \<Rightarrow> u64 list option" where
  "visit_next h head pos =
     (if pos \<noteq> head then do { rest \<leftarrow> visit_next h head (nextp h pos); Some (pos # rest) } else Some [])"

definition list_for_each :: "lheap \<Rightarrow> u64 \<Rightarrow> u64 list option" where
  "list_for_each h head = visit_next h head (nextp h head)"

partial_function (option) visit_prev :: "lheap \<Rightarrow> u64 \<Rightarrow> u64 \<Rightarrow> u64 list option" where
  "visit_prev h head pos =
     (if pos \<noteq> head then do { rest \<leftarrow> visit_prev h head (prevp h pos); Some (pos # rest) } else Some [])"

definition list_for_each_prev :: "lheap \<Rightarrow> u64 \<Rightarrow> u64 list option" where
  "list_for_each_prev h head = visit_prev h head (prevp h head)"

section \<open>Lists that end in a null pointer\<close>

definition ld_next :: "lheap \<Rightarrow> u64 \<Rightarrow> u64 option" where
  "ld_next h a = (if a = 0 then None else Some (nextp h a))"

definition ld_prev :: "lheap \<Rightarrow> u64 \<Rightarrow> u64 option" where
  "ld_prev h a = (if a = 0 then None else Some (prevp h a))"

definition st_next :: "lheap \<Rightarrow> u64 \<Rightarrow> u64 \<Rightarrow> lheap option" where
  "st_next h a v = (if a = 0 then None else Some (set_next h a v))"

definition st_prev :: "lheap \<Rightarrow> u64 \<Rightarrow> u64 \<Rightarrow> lheap option" where
  "st_prev h a v = (if a = 0 then None else Some (set_prev h a v))"

definition INIT_HLIST_HEAD :: "lheap \<Rightarrow> u64 \<Rightarrow> lheap option" where
  "INIT_HLIST_HEAD h ptr = st_next h ptr 0"

definition INIT_HLIST_NODE :: "lheap \<Rightarrow> u64 \<Rightarrow> lheap option" where
  "INIT_HLIST_NODE h n = do { h \<leftarrow> st_next h n 0; st_prev h n 0 }"

definition hlist_unhashed :: "lheap \<Rightarrow> u64 \<Rightarrow> bool option" where
  "hlist_unhashed h n = do { pprev \<leftarrow> ld_prev h n; Some (pprev = 0) }"

definition hlist_empty :: "lheap \<Rightarrow> u64 \<Rightarrow> bool option" where
  "hlist_empty h head = do { first \<leftarrow> ld_next h head; Some (first = 0) }"

definition raw_hlist_del :: "lheap \<Rightarrow> u64 \<Rightarrow> lheap option" where
  "raw_hlist_del h n = do {
     nxt \<leftarrow> ld_next h n;
     pprev \<leftarrow> ld_prev h n;
     h \<leftarrow> st_next h pprev nxt;
     if nxt \<noteq> 0 then st_prev h nxt pprev else Some h
   }"

definition hlist_del :: "lheap \<Rightarrow> u64 \<Rightarrow> lheap option" where
  "hlist_del h n = do {
     h \<leftarrow> raw_hlist_del h n;
     h \<leftarrow> st_next h n LIST_POISON1;
     st_prev h n LIST_POISON2
   }"

definition hlist_del_init :: "lheap \<Rightarrow> u64 \<Rightarrow> lheap option" where
  "hlist_del_init h n = do {
     unhashed \<leftarrow> hlist_unhashed h n;
     if \<not> unhashed then do { h \<leftarrow> raw_hlist_del h n; INIT_HLIST_NODE h n } else Some h
   }"

definition hlist_add_head :: "lheap \<Rightarrow> u64 \<Rightarrow> u64 \<Rightarrow> lheap option" where
  "hlist_add_head h n head = do {
     first \<leftarrow> ld_next h head;
     h \<leftarrow> st_next h n first;
     h \<leftarrow> (if first \<noteq> 0 then st_prev h first n else Some h);
     h \<leftarrow> st_next h head n;
     st_prev h n head
   }"

definition hlist_add_before :: "lheap \<Rightarrow> u64 \<Rightarrow> u64 \<Rightarrow> lheap option" where
  "hlist_add_before h n nxt = do {
     pprev \<leftarrow> ld_prev h nxt;
     h \<leftarrow> st_prev h n pprev;
     h \<leftarrow> st_next h n nxt;
     h \<leftarrow> st_prev h nxt n;
     pprev \<leftarrow> ld_prev h n;
     st_next h pprev n
   }"

definition hlist_add_after :: "lheap \<Rightarrow> u64 \<Rightarrow> u64 \<Rightarrow> lheap option" where
  "hlist_add_after h n nxt = do {
     v \<leftarrow> ld_next h n;
     h \<leftarrow> st_next h nxt v;
     h \<leftarrow> st_next h n nxt;
     h \<leftarrow> st_prev h nxt n;
     v \<leftarrow> ld_next h nxt;
     if v \<noteq> 0 then st_prev h v nxt else Some h
   }"

definition hlist_add_fake :: "lheap \<Rightarrow> u64 \<Rightarrow> lheap option" where
  "hlist_add_fake h n = st_prev h n n"

definition hlist_move_list :: "lheap \<Rightarrow> u64 \<Rightarrow> u64 \<Rightarrow> lheap option" where
  "hlist_move_list h old new = do {
     first \<leftarrow> ld_next h old;
     h \<leftarrow> st_next h new first;
     first \<leftarrow> ld_next h new;
     h \<leftarrow> (if first \<noteq> 0 then st_prev h first new else Some h);
     st_next h old 0
   }"

section \<open>Segments and lists\<close>

definition linked :: "lheap \<Rightarrow> u64 \<Rightarrow> u64 \<Rightarrow> bool" where
  "linked h a b \<longleftrightarrow> nextp h a = b \<and> prevp h b = a"

text \<open>The cells \<open>xs\<close> lie between \<open>a\<close> and \<open>z\<close>, linked both ways.\<close>

fun seg :: "lheap \<Rightarrow> u64 \<Rightarrow> u64 list \<Rightarrow> u64 \<Rightarrow> bool" where
  "seg h a [] z \<longleftrightarrow> linked h a z"
| "seg h a (x # xs) z \<longleftrightarrow> linked h a x \<and> seg h x xs z"

definition is_list :: "lheap \<Rightarrow> u64 \<Rightarrow> u64 list \<Rightarrow> bool" where
  "is_list h head xs \<longleftrightarrow> distinct (head # xs) \<and> seg h head xs head"

lemma cell_simps [simp]:
  "nextp (set_next h a v) = (nextp h)(a := v)" "prevp (set_next h a v) = prevp h"
  "prevp (set_prev h a v) = (prevp h)(a := v)" "nextp (set_prev h a v) = nextp h"
  by (simp_all add: set_next_def set_prev_def)

lemma seg_append: "seg h a (xs @ y # ys) z \<longleftrightarrow> seg h a xs y \<and> seg h y ys z"
  by (induction xs arbitrary: a) auto

lemma seg_cong_aux:
  "\<forall>c\<in>set (a # xs). nextp h' c = nextp h c \<Longrightarrow> \<forall>c\<in>set xs \<union> {z}. prevp h' c = prevp h c \<Longrightarrow>
     seg h' a xs z = seg h a xs z"
  by (induction xs arbitrary: a) (auto simp: linked_def)

lemma seg_cong:
  assumes "\<And>c. c \<in> set (a # xs) \<Longrightarrow> nextp h' c = nextp h c"
    and "\<And>c. c \<in> set xs \<union> {z} \<Longrightarrow> prevp h' c = prevp h c"
  shows "seg h' a xs z = seg h a xs z"
  using assms by (intro seg_cong_aux) auto

lemma seg_first: "seg h a xs z \<Longrightarrow> nextp h a = hd (xs @ [z])"
  by (cases xs) (simp_all add: linked_def)

lemma seg_last: "seg h a xs z \<Longrightarrow> prevp h z = last (a # xs)"
  by (induction xs arbitrary: a) (auto simp: linked_def)

lemma is_list_cong:
  assumes "\<And>c. c \<in> set (head # xs) \<Longrightarrow> nextp h' c = nextp h c \<and> prevp h' c = prevp h c"
  shows "is_list h' head xs = is_list h head xs"
  using assms seg_cong [of head xs h' h head] by (simp add: is_list_def)

lemma is_list_ends:
  assumes "is_list h head xs"
  shows "nextp h head = hd (xs @ [head])" "prevp h head = last (head # xs)"
  using assms seg_first seg_last by (auto simp: is_list_def)

lemma is_list_around:
  assumes "is_list h head (as @ e # bs)"
  shows "prevp h e = last (head # as)" "nextp h e = hd (bs @ [head])"
  using assms seg_first [of h e bs head] seg_last [of h head as e]
  by (auto simp: is_list_def seg_append)

section \<open>Insertion and removal in a segment\<close>

lemma raw_list_add_cells:
  assumes "c \<noteq> new" "c \<noteq> p" "c \<noteq> q"
  shows "nextp (raw_list_add h new p q) c = nextp h c" "prevp (raw_list_add h new p q) c = prevp h c"
  using assms by (simp_all add: raw_list_add_def Let_def)

lemma seg_insert:
  assumes "seg h a (xs @ ys) z" "distinct (a # xs @ ys)" "z \<notin> set (xs @ ys)"
    and "new \<notin> set (z # a # xs @ ys)" "p = last (a # xs)" "q = hd (ys @ [z])"
  shows "seg (raw_list_add h new p q) a (xs @ new # ys) z"
  using assms
proof (induction xs arbitrary: a)
  case Nil
  show ?case
  proof (cases ys)
    case Nil
    with Nil.prems show ?thesis by (auto simp: linked_def raw_list_add_def Let_def)
  next
    case (Cons b bs)
    have "seg (raw_list_add h new p q) b bs z = seg h b bs z"
      using Nil.prems Cons by (intro seg_cong) (auto simp: raw_list_add_def Let_def)
    with Nil.prems Cons show ?thesis by (auto simp: linked_def raw_list_add_def Let_def)
  qed
next
  case (Cons x xs)
  then have "seg (raw_list_add h new p q) x (xs @ new # ys) z" by auto
  moreover have "p \<in> set (x # xs)" using Cons.prems(5) by simp
  moreover have "q \<in> set ys \<union> {z}" using Cons.prems(6) by (cases ys) simp_all
  ultimately show ?case
    using Cons.prems raw_list_add_cells [of a new p q h] 
    by (auto simp: linked_def raw_list_add_def Let_def split: if_splits)
qed

lemma seg_remove:
  assumes "seg h a (xs @ e # ys) z" "distinct (a # xs @ e # ys)" "z \<notin> set (xs @ e # ys)"
    and "p = last (a # xs)" "q = hd (ys @ [z])"
  shows "seg (raw_list_del h p q) a (xs @ ys) z"
  using assms
proof (induction xs arbitrary: a)
  case Nil
  show ?case
  proof (cases ys)
    case Nil
    with Nil.prems show ?thesis by (auto simp: linked_def raw_list_del_def)
  next
    case (Cons b bs)
    have "seg (raw_list_del h p q) b bs z = seg h b bs z"
      using Nil.prems Cons by (intro seg_cong) (auto simp: raw_list_del_def)
    with Nil.prems Cons show ?thesis by (auto simp: linked_def raw_list_del_def)
  qed
next
  case (Cons x xs)
  then have "seg (raw_list_del h p q) x (xs @ ys) z" by auto
  moreover have "p \<in> set (x # xs)" using Cons.prems(4) by simp
  moreover have "q \<in> set ys \<union> {z}" using Cons.prems(5) by (cases ys) simp_all
  ultimately show ?case
    using Cons.prems by (auto simp: linked_def raw_list_del_def split: if_splits)
qed


lemma is_list_insert:
  assumes "is_list h head (xs @ ys)" "new \<notin> set (head # xs @ ys)"
  shows "is_list (raw_list_add h new (last (head # xs)) (hd (ys @ [head]))) head (xs @ new # ys)"
  using assms seg_insert [of h head xs ys head new] by (auto simp: is_list_def)

lemma is_list_remove:
  assumes "is_list h head (xs @ e # ys)"
  shows "is_list (raw_list_del_entry h e) head (xs @ ys)"
  using assms seg_remove [of h head xs e ys head] is_list_around [OF assms]
  by (auto simp: is_list_def raw_list_del_entry_def)

section \<open>The operations on lists\<close>

lemma list_add_is_list:
  "is_list h head xs \<Longrightarrow> new \<notin> set (head # xs) \<Longrightarrow> is_list (list_add h new head) head (new # xs)"
  using is_list_insert [of h head "[]" xs new] by (simp add: list_add_def is_list_ends)

lemma list_add_tail_is_list:
  "is_list h head xs \<Longrightarrow> new \<notin> set (head # xs) \<Longrightarrow> is_list (list_add_tail h new head) head (xs @ [new])"
  using is_list_insert [of h head xs "[]" new] by (simp add: list_add_tail_def is_list_ends)

lemma is_list_split:
  assumes "is_list h head xs" "e \<in> set xs"
  obtains as bs where "xs = as @ e # bs" "remove1 e xs = as @ bs" "is_list h head (as @ e # bs)"
    "prevp h e = last (head # as)" "nextp h e = hd (bs @ [head])"
proof -
  from assms(2) obtain as bs where xs: "xs = as @ e # bs" "e \<notin> set as" by (meson split_list_first)
  moreover from this have "remove1 e xs = as @ bs" by (simp add: remove1_append)
  ultimately show ?thesis using that assms(1) is_list_around [of h head as e bs] by simp
qed

lemma raw_list_del_entry_is_list:
  assumes "is_list h head xs" "e \<in> set xs"
  shows "is_list (raw_list_del_entry h e) head (remove1 e xs)"
  by (rule is_list_split [OF assms]) (simp add: is_list_remove)

lemma is_list_set_outside:
  assumes "e \<notin> set (head # xs)"
  shows "is_list (set_next h e v) head xs = is_list h head xs" "is_list (set_prev h e v) head xs = is_list h head xs"
  using assms by (auto intro!: is_list_cong)

lemma INIT_LIST_HEAD_outside:
  "e \<notin> set (head # xs) \<Longrightarrow> is_list (INIT_LIST_HEAD h e) head xs = is_list h head xs"
  by (simp only: INIT_LIST_HEAD_def is_list_set_outside not_False_eq_True)

lemma INIT_LIST_HEAD_is_list: "is_list (INIT_LIST_HEAD h head) head []"
  by (simp add: is_list_def linked_def INIT_LIST_HEAD_def)

lemma is_list_distinct: "is_list h head xs \<Longrightarrow> distinct (head # xs)"
  by (simp add: is_list_def)

lemma removed_outside:
  assumes "is_list h head xs" "e \<in> set xs"
  shows "e \<notin> set (head # remove1 e xs)"
  using is_list_distinct [OF assms(1)] assms(2) by auto

lemma list_del_is_list:
  assumes "is_list h head xs" "e \<in> set xs"
  shows "is_list (list_del h e) head (remove1 e xs)"
  using raw_list_del_entry_is_list [OF assms] removed_outside [OF assms]
  by (simp only: list_del_def Let_def raw_list_del_entry_def is_list_set_outside not_False_eq_True)

lemma list_del_init_is_list:
  assumes "is_list h head xs" "e \<in> set xs"
  shows "is_list (list_del_init h e) head (remove1 e xs)" "is_list (list_del_init h e) e []"
  using raw_list_del_entry_is_list [OF assms] removed_outside [OF assms]
  by (simp_all only: list_del_init_def INIT_LIST_HEAD_outside INIT_LIST_HEAD_is_list not_False_eq_True)

lemma list_empty_iff: "is_list h head xs \<Longrightarrow> list_empty h head \<longleftrightarrow> xs = []"
  using is_list_ends(1) [of h head xs] is_list_distinct [of h head xs]
  by (cases xs) (auto simp: list_empty_def)

lemma list_empty_careful_iff: "is_list h head xs \<Longrightarrow> list_empty_careful h head \<longleftrightarrow> xs = []"
  using is_list_ends [of h head xs] is_list_distinct [of h head xs]
  by (cases xs) (auto simp: list_empty_careful_def Let_def)

lemma list_is_singular_iff: "is_list h head xs \<Longrightarrow> list_is_singular h head \<longleftrightarrow> length xs = 1"
  using is_list_ends [of h head xs] is_list_distinct [of h head xs] list_empty_iff [of h head xs]
  by (cases xs) (auto simp: list_is_singular_def split: if_splits)

lemma list_is_last_iff:
  assumes "is_list h head xs" "e \<in> set xs"
  shows "list_is_last h e head \<longleftrightarrow> last xs = e"
proof (rule is_list_split [OF assms])
  fix as bs assume "xs = as @ e # bs" "nextp h e = hd (bs @ [head])"
  with is_list_distinct [OF assms(1)] show ?thesis
    by (cases bs) (auto simp: list_is_last_def)
qed

section \<open>Frames\<close>

lemma is_list_frame:
  assumes "is_list h l ys" "\<And>c. c \<in> set (l # ys) \<Longrightarrow> nextp h' c = nextp h c \<and> prevp h' c = prevp h c"
  shows "is_list h' l ys"
  using assms is_list_cong by blast

lemma raw_list_del_entry_frame:
  assumes "is_list h head xs" "e \<in> set xs" "is_list h l ys" "set (l # ys) \<inter> set (head # xs) = {}"
  shows "is_list (raw_list_del_entry h e) l ys"
proof (rule is_list_split [OF assms(1,2)], rule is_list_frame [OF assms(3)])
  fix as bs c
  assume xs: "xs = as @ e # bs" and pq: "prevp h e = last (head # as)" "nextp h e = hd (bs @ [head])"
    and c: "c \<in> set (l # ys)"
  have "prevp h e \<in> set (head # xs)" unfolding pq xs by simp
  moreover have "nextp h e \<in> set (head # xs)" unfolding pq xs by (cases bs) simp_all
  ultimately have "c \<noteq> prevp h e" "c \<noteq> nextp h e" using c assms(4) by blast+
  then show "nextp (raw_list_del_entry h e) c = nextp h c \<and> prevp (raw_list_del_entry h e) c = prevp h c"
    by (simp add: raw_list_del_entry_def raw_list_del_def)
qed

lemma list_del_frame:
  assumes "is_list h head xs" "e \<in> set xs" "is_list h l ys" "set (l # ys) \<inter> set (head # xs) = {}"
  shows "is_list (list_del h e) l ys" "is_list (list_del_init h e) l ys"
proof -
  have e: "e \<notin> set (l # ys)" using assms(2,4) by auto
  note del = raw_list_del_entry_frame [OF assms]
  show "is_list (list_del h e) l ys"
    using del e by (simp only: list_del_def Let_def raw_list_del_entry_def is_list_set_outside not_False_eq_True)
  show "is_list (list_del_init h e) l ys"
    using del e by (simp only: list_del_init_def INIT_LIST_HEAD_outside not_False_eq_True)
qed

lemma ends_in_list:
  assumes "is_list h head xs"
  shows "nextp h head \<in> set (head # xs)" "prevp h head \<in> set (head # xs)"
  unfolding is_list_ends [OF assms] by (cases xs; simp)+

lemma list_add_frame:
  assumes "is_list h head xs" "is_list h l ys" "set (l # ys) \<inter> set (new # head # xs) = {}"
  shows "is_list (list_add h new head) l ys" "is_list (list_add_tail h new head) l ys"
proof -
  have ne: "c \<noteq> new \<and> c \<noteq> head \<and> c \<noteq> nextp h head \<and> c \<noteq> prevp h head" if "c \<in> set (l # ys)" for c
    using that assms(3) ends_in_list [OF assms(1)] by auto
  then show "is_list (list_add h new head) l ys" "is_list (list_add_tail h new head) l ys"
    unfolding list_add_def list_add_tail_def
    by (intro is_list_frame [OF assms(2)] conjI raw_list_add_cells; blast)+
qed

section \<open>Moving, rotating, replacing\<close>

lemma list_move_is_list:
  assumes "is_list h a xs" "e \<in> set xs" "is_list h b ys" "set (a # xs) \<inter> set (b # ys) = {}"
  shows "is_list (list_move h e b) a (remove1 e xs)" "is_list (list_move h e b) b (e # ys)"
    "is_list (list_move_tail h e b) a (remove1 e xs)" "is_list (list_move_tail h e b) b (ys @ [e])"
proof -
  have dis: "set (b # ys) \<inter> set (a # xs) = {}" using assms(4) by blast
  note d = raw_list_del_entry_is_list [OF assms(1,2)] raw_list_del_entry_frame [OF assms(1-3) dis]
  have e: "e \<notin> set (b # ys)" using assms(2,4) by auto
  have "set (a # remove1 e xs) \<inter> set (e # b # ys) = {}"
    using removed_outside [OF assms(1,2)] assms(4) set_remove1_subset [of e xs] by auto
  note f = list_add_frame [OF d(2,1) this]
  show "is_list (list_move h e b) a (remove1 e xs)" "is_list (list_move h e b) b (e # ys)"
    "is_list (list_move_tail h e b) a (remove1 e xs)" "is_list (list_move_tail h e b) b (ys @ [e])"
    unfolding list_move_def list_move_tail_def
    using f list_add_is_list [OF d(2) e] list_add_tail_is_list [OF d(2) e] by blast+
qed

lemma list_rotate_left_is_list:
  assumes "is_list h head xs"
  shows "is_list (list_rotate_left h head) head (rotate1 xs)"
proof (cases xs)
  case Nil
  then show ?thesis using assms list_empty_iff [OF assms] by (simp add: list_rotate_left_def)
next
  case (Cons x ys)
  have "nextp h head = x" using is_list_ends(1) [OF assms] Cons by simp
  moreover have "is_list (raw_list_del_entry h x) head ys"
    using is_list_remove [of h head "[]" x ys] assms Cons by simp
  ultimately show ?thesis
    using list_add_tail_is_list [of "raw_list_del_entry h x" head ys x] is_list_distinct [OF assms] Cons
      list_empty_iff [OF assms]
    by (auto simp: list_rotate_left_def list_move_tail_def)
qed

lemma list_replace_eq:
  assumes "is_list h head (as @ old # bs)" "new \<notin> set (head # as @ old # bs)"
  shows "list_replace h old new =
    raw_list_add (raw_list_del_entry h old) new (last (head # as)) (hd (bs @ [head]))"
proof -
  note pq = is_list_around [OF assms(1)]
  have "prevp h old \<in> set (head # as)" unfolding pq by simp
  moreover have "nextp h old \<in> set (head # bs)" unfolding pq by (cases bs) simp_all
  ultimately have ne: "new \<noteq> prevp h old" "new \<noteq> nextp h old" "old \<noteq> nextp h old" "new \<noteq> old"
    using assms(2) is_list_distinct [OF assms(1)] by auto
  show ?thesis
    unfolding pq [symmetric] raw_list_add_def raw_list_del_entry_def raw_list_del_def list_replace_def Let_def
    using ne by (simp add: set_next_def set_prev_def fun_upd_twist)
qed

lemma list_replace_is_list:
  assumes "is_list h head (as @ old # bs)" "new \<notin> set (head # as @ old # bs)"
  shows "is_list (list_replace h old new) head (as @ new # bs)"
  unfolding list_replace_eq [OF assms]
  using is_list_insert [OF is_list_remove [OF assms(1)]] assms(2) by auto


section \<open>Splicing and cutting\<close>

text \<open>A chain of cells, each linked to the next one.\<close>

fun path :: "lheap \<Rightarrow> u64 list \<Rightarrow> bool" where
  "path h (x # y # r) \<longleftrightarrow> linked h x y \<and> path h (y # r)"
| "path h _ \<longleftrightarrow> True"

lemma path_Cons: "path h (x # r) \<longleftrightarrow> (r \<noteq> [] \<longrightarrow> linked h x (hd r)) \<and> path h r"
  by (cases r) simp_all

lemma path_append:
  "path h (xs @ ys) \<longleftrightarrow> path h xs \<and> path h ys \<and> (xs \<noteq> [] \<longrightarrow> ys \<noteq> [] \<longrightarrow> linked h (last xs) (hd ys))"
  by (induction xs) (auto simp: path_Cons hd_append)

lemma path_appendI:
  "path h xs \<Longrightarrow> path h ys \<Longrightarrow> linked h (last xs) (hd ys) \<Longrightarrow> path h (xs @ ys)"
  unfolding path_append by blast

lemma seg_path: "seg h a xs z \<longleftrightarrow> path h (a # xs @ [z])"
  by (induction xs arbitrary: a) (simp_all add: path_Cons)

lemma path_cong:
  "\<forall>c\<in>set (butlast xs). nextp h' c = nextp h c \<Longrightarrow> \<forall>c\<in>set (tl xs). prevp h' c = prevp h c \<Longrightarrow>
     path h' xs = path h xs"
  by (induction h xs rule: path.induct) (auto simp: linked_def split: if_splits)

lemma is_list_path: "is_list h head xs \<longleftrightarrow> distinct (head # xs) \<and> path h (head # xs @ [head])"
  by (simp add: is_list_def seg_path)

lemma distinct_butlast_last: "distinct xs \<Longrightarrow> c \<in> set (butlast xs) \<Longrightarrow> c \<noteq> last xs"
  by (induction xs) (auto split: if_splits)

lemma raw_list_splice_is_list:
  assumes l: "is_list h head (as @ bs)" "is_list h list xs" "xs \<noteq> []"
    and dis: "set (head # as @ bs) \<inter> set (list # xs) = {}"
    and p: "p = last (head # as)" and q: "q = hd (bs @ [head])"
  shows "is_list (raw_list_splice h list p q) head (as @ xs @ bs)"
proof -
  let ?h = "raw_list_splice h list p q"
  have cells: "nextp ?h c = (if c = last xs then q else if c = p then hd xs else nextp h c)"
    "prevp ?h c = (if c = q then last xs else if c = hd xs then p else prevp h c)" for c
    using is_list_ends [OF l(2)] l(3) by (auto simp: raw_list_splice_def Let_def)
  have in_xs: "hd xs \<in> set xs" "last xs \<in> set xs" using l(3) by simp_all
  have pin: "p \<in> set (head # as)" unfolding p by simp
  have qin: "q \<in> set (head # bs)" unfolding q by (cases bs) simp_all
  have d: "distinct (head # as @ bs)" "distinct (list # xs)" using l(1,2) by (simp_all add: is_list_path)
  have "path h ((head # as) @ (bs @ [head]))" using l(1) by (simp add: is_list_path)
  then have parts: "path h (head # as)" "path h (bs @ [head])"
    using path_append [of h "head # as" "bs @ [head]"] by blast+
  have "path h (list # xs @ [list])" using l(2) by (simp add: is_list_path)
  then have "path h xs" by (simp add: path_Cons path_append)
  moreover have "path ?h xs = path h xs"
  proof (rule path_cong; intro ballI)
    fix c assume c: "c \<in> set (butlast xs)"
    then have "c \<noteq> last xs" "c \<in> set xs"
      using d(2) distinct_butlast_last [of xs c] by (auto dest: in_set_butlastD)
    then show "nextp ?h c = nextp h c" using pin dis by (auto simp: cells)
  next
    fix c assume c: "c \<in> set (tl xs)"
    then have "c \<noteq> hd xs" "c \<in> set xs" using d(2) by (cases xs; auto)+
    then show "prevp ?h c = prevp h c" using qin dis by (auto simp: cells)
  qed
  moreover have "path ?h (head # as) = path h (head # as)"
  proof (rule path_cong; intro ballI)
    fix c assume c: "c \<in> set (butlast (head # as))"
    then have "c \<in> set (head # as)" by (rule in_set_butlastD)
    moreover have "c \<noteq> p"
      using distinct_butlast_last [OF _ c] d(1) unfolding p by auto
    ultimately show "nextp ?h c = nextp h c" using dis in_xs by (auto simp: cells)
  next
    fix c assume "c \<in> set (tl (head # as))"
    then show "prevp ?h c = prevp h c" using d(1) qin dis in_xs by (auto simp: cells)
  qed
  moreover have "path ?h (bs @ [head]) = path h (bs @ [head])"
  proof (rule path_cong; intro ballI)
    fix c assume "c \<in> set (butlast (bs @ [head]))"
    then show "nextp ?h c = nextp h c" using d(1) pin dis in_xs by (auto simp: cells)
  next
    fix c assume c: "c \<in> set (tl (bs @ [head]))"
    then have "c \<noteq> q" "c \<in> set (head # bs)" using d(1) unfolding q by (cases bs; auto)+
    then show "prevp ?h c = prevp h c" using dis in_xs by (auto simp: cells)
  qed
  ultimately have new: "path ?h xs" "path ?h (head # as)" "path ?h (bs @ [head])"
    using parts by simp_all
  have "linked ?h p (hd xs)" "linked ?h (last xs) q"
    using in_xs pin qin dis by (auto simp: linked_def cells)
  then have "linked ?h (last xs) (hd (bs @ [head]))" "linked ?h (last (head # as)) (hd (xs @ bs @ [head]))"
    using l(3) by (simp_all add: p q)
  note path_appendI [OF new(2) path_appendI [OF new(1,3) this(1)] this(2)]
  then show ?thesis using d dis by (auto simp: is_list_path)
qed


lemma list_splice_is_list:
  assumes "is_list h head ys" "is_list h list xs" "set (head # ys) \<inter> set (list # xs) = {}"
  shows "is_list (list_splice h list head) head (xs @ ys)"
    and "is_list (list_splice_tail h list head) head (ys @ xs)"
proof -
  note e = list_empty_iff [OF assms(2)]
  have "is_list (raw_list_splice h list head (nextp h head)) head (xs @ ys)"
    "is_list (raw_list_splice h list (prevp h head) head) head (ys @ xs)" if "xs \<noteq> []"
    using raw_list_splice_is_list [of h head "[]" ys list xs] raw_list_splice_is_list [of h head ys "[]" list xs]
      that assms by (simp_all add: is_list_ends [OF assms(1)])
  then show "is_list (list_splice h list head) head (xs @ ys)"
    "is_list (list_splice_tail h list head) head (ys @ xs)"
    using e assms(1) by (auto simp: list_splice_def list_splice_tail_def)
qed

lemma list_splice_init_is_list:
  assumes "is_list h head ys" "is_list h list xs" "set (head # ys) \<inter> set (list # xs) = {}"
  shows "is_list (list_splice_init h list head) head (xs @ ys)" "is_list (list_splice_init h list head) list []"
    "is_list (list_splice_tail_init h list head) head (ys @ xs)" "is_list (list_splice_tail_init h list head) list []"
proof -
  note e = list_empty_iff [OF assms(2)] and s = list_splice_is_list [OF assms]
  have out: "list \<notin> set (head # xs @ ys)" "list \<notin> set (head # ys @ xs)"
    using assms(3) is_list_distinct [OF assms(2)] by auto
  show "is_list (list_splice_init h list head) head (xs @ ys)" "is_list (list_splice_init h list head) list []"
    "is_list (list_splice_tail_init h list head) head (ys @ xs)" "is_list (list_splice_tail_init h list head) list []"
    using e s assms INIT_LIST_HEAD_is_list
    by (auto simp: list_splice_init_def list_splice_tail_init_def list_splice_def list_splice_tail_def
        INIT_LIST_HEAD_outside [OF out(1)] INIT_LIST_HEAD_outside [OF out(2)])
qed

lemma raw_list_cut_position_is_list:
  assumes l: "is_list h head (as @ e # bs)" and list: "list \<notin> set (head # as @ e # bs)"
  shows "is_list (raw_list_cut_position h list head e) list (as @ [e])"
    and "is_list (raw_list_cut_position h list head e) head bs"
proof -
  let ?h = "raw_list_cut_position h list head e"
  define f where "f = hd (as @ [e])"
  define q where "q = hd (bs @ [head])"
  have d: "distinct (head # as @ e # bs)" using l by (simp add: is_list_path)
  have f: "f \<in> set (as @ [e])" "nextp h head = f"
    using is_list_ends(1) [OF l] by (cases as; simp add: f_def)+
  have q: "q \<in> set (head # bs)" "nextp h e = q"
    using is_list_around(2) [OF l] by (cases bs; simp add: q_def)+
  have ne: "list \<noteq> head" "list \<noteq> e" "e \<noteq> head" "f \<noteq> head" "f \<noteq> q" "list \<noteq> f" "list \<noteq> q" "e \<noteq> q"
    using d list f(1) q(1) by auto
  have cells: "nextp ?h c = (if c = head then q else if c = e then list else if c = list then f else nextp h c)"
    "prevp ?h c = (if c = q then head else if c = list then e else if c = f then list else prevp h c)" for c
    using f(2) q(2) ne by (auto simp: raw_list_cut_position_def Let_def)
  have "path h ([head] @ (as @ [e]) @ (bs @ [head]))" using l by (simp add: is_list_path)
  then have parts: "path h (as @ [e])" "path h (bs @ [head])"
    using path_append [of h "[head]" "(as @ [e]) @ (bs @ [head])"] path_append [of h "as @ [e]" "bs @ [head]"]
    by blast+
  have "path ?h (as @ [e]) = path h (as @ [e])"
  proof (rule path_cong; intro ballI)
    fix c assume "c \<in> set (butlast (as @ [e]))"
    then show "nextp ?h c = nextp h c" using d list by (auto simp: cells)
  next
    fix c assume c: "c \<in> set (tl (as @ [e]))"
    then have "c \<noteq> f" "c \<in> set (as @ [e])" using d by (cases as; auto simp: f_def)+
    then show "prevp ?h c = prevp h c" using d list q(1) by (auto simp: cells)
  qed
  moreover have "path ?h (bs @ [head]) = path h (bs @ [head])"
  proof (rule path_cong; intro ballI)
    fix c assume "c \<in> set (butlast (bs @ [head]))"
    then show "nextp ?h c = nextp h c" using d list by (auto simp: cells)
  next
    fix c assume c: "c \<in> set (tl (bs @ [head]))"
    then have "c \<noteq> q" "c \<in> set (head # bs)" using d by (cases bs; auto simp: q_def)+
    then show "prevp ?h c = prevp h c" using d list f(1) by (auto simp: cells)
  qed
  moreover have "linked ?h list f" "linked ?h e list" "linked ?h head q"
    using ne f(1) q(1) d list by (auto simp: linked_def cells)
  ultimately have new: "path ?h (as @ [e])" "path ?h (bs @ [head])"
      "linked ?h (last [list]) (hd (as @ [e]))" "linked ?h (last ([list] @ (as @ [e]))) (hd [list])"
      "linked ?h (last [head]) (hd (bs @ [head]))"
    using parts by (simp_all add: f_def q_def)
  have one: "path ?h [c]" for c by simp
  note path_appendI [OF path_appendI [OF one new(1,3)] one new(4)] path_appendI [OF one new(2,5)]
  then show "is_list ?h list (as @ [e])" "is_list ?h head bs"
    using d list by (auto simp: is_list_path)
qed

lemma list_cut_position_is_list:
  assumes "is_list h head xs" "list \<notin> set (head # xs)"
  shows "xs = as @ e # bs \<Longrightarrow> is_list (list_cut_position h list head e) list (as @ [e])"
    and "xs = as @ e # bs \<Longrightarrow> is_list (list_cut_position h list head e) head bs"
    and "xs \<noteq> [] \<Longrightarrow> is_list (list_cut_position h list head head) list []"
    and "is_list (list_cut_position h list head head) head xs"
proof -
  note e = list_empty_iff [OF assms(1)] and s = list_is_singular_iff [OF assms(1)]
  have "list_cut_position h list head e = raw_list_cut_position h list head e" if xs: "xs = as @ e # bs"
  proof -
    have "nextp h head = e" if "length xs = 1"
      using is_list_ends(1) [OF assms(1)] that xs by (cases as) auto
    moreover have "e \<noteq> head" using is_list_distinct [OF assms(1)] xs by auto
    ultimately show ?thesis using e s xs by (auto simp: list_cut_position_def)
  qed
  then show "xs = as @ e # bs \<Longrightarrow> is_list (list_cut_position h list head e) list (as @ [e])"
    "xs = as @ e # bs \<Longrightarrow> is_list (list_cut_position h list head e) head bs"
    using raw_list_cut_position_is_list [of h head as e bs list] assms by simp_all
  show "xs \<noteq> [] \<Longrightarrow> is_list (list_cut_position h list head head) list []"
    using e by (simp add: list_cut_position_def INIT_LIST_HEAD_is_list)
  show "is_list (list_cut_position h list head head) head xs"
    using e assms by (auto simp: list_cut_position_def INIT_LIST_HEAD_outside)
qed

section \<open>Iteration\<close>

lemma visit_next_seg: "seg h a xs z \<Longrightarrow> z \<notin> set xs \<Longrightarrow> visit_next h z (nextp h a) = Some xs"
  by (induction xs arbitrary: a) (subst visit_next.simps, auto simp: linked_def)+

lemma visit_prev_seg: "seg h a xs z \<Longrightarrow> a \<notin> set xs \<Longrightarrow> visit_prev h a (prevp h z) = Some (rev xs)"
proof (induction xs arbitrary: z rule: rev_induct)
  case Nil
  then show ?case by (subst visit_prev.simps) (simp add: linked_def)
next
  case (snoc x xs)
  then have "visit_prev h a (prevp h x) = Some (rev xs)" by (simp add: seg_append)
  moreover have "prevp h z = x" "x \<noteq> a" using snoc.prems by (auto simp: seg_append linked_def)
  ultimately show ?case by (subst visit_prev.simps) simp
qed

lemma list_for_each_is_list:
  assumes "is_list h head xs"
  shows "list_for_each h head = Some xs" "list_for_each_prev h head = Some (rev xs)"
  using assms visit_next_seg visit_prev_seg
  by (simp_all add: is_list_def list_for_each_def list_for_each_prev_def)

section \<open>Null-terminated lists\<close>

fun hseg :: "lheap \<Rightarrow> u64 \<Rightarrow> u64 list \<Rightarrow> bool" where
  "hseg h a [] \<longleftrightarrow> nextp h a = 0"
| "hseg h a (x # xs) \<longleftrightarrow> x \<noteq> 0 \<and> linked h a x \<and> hseg h x xs"

definition is_hlist :: "lheap \<Rightarrow> u64 \<Rightarrow> u64 list \<Rightarrow> bool" where
  "is_hlist h head xs \<longleftrightarrow> head \<noteq> 0 \<and> distinct (head # xs) \<and> hseg h head xs"

lemma hseg_cong:
  "\<forall>c\<in>set (a # xs). nextp h' c = nextp h c \<Longrightarrow> \<forall>c\<in>set xs. prevp h' c = prevp h c \<Longrightarrow>
     hseg h' a xs = hseg h a xs"
  by (induction xs arbitrary: a) (auto simp: linked_def)

lemma hseg_append: "hseg h a (xs @ y # ys) \<longleftrightarrow> 0 \<notin> set xs \<and> y \<noteq> 0 \<and> seg h a xs y \<and> hseg h y ys"
  by (induction xs arbitrary: a) auto

lemmas hlist_access = ld_next_def ld_prev_def st_next_def st_prev_def

text \<open>Cells outside \<open>A\<close> are left as they are.\<close>

definition cells_kept :: "u64 set \<Rightarrow> lheap \<Rightarrow> lheap \<Rightarrow> bool" where
  "cells_kept A h h' \<longleftrightarrow> (\<forall>a. a \<notin> A \<longrightarrow> nextp h' a = nextp h a \<and> prevp h' a = prevp h a)"

lemma is_hlistD:
  assumes "is_hlist h head (as @ n # bs)"
  shows "distinct (head # as @ n # bs)" "hseg h head (as @ n # bs)" "head \<noteq> 0" "0 \<notin> set as" "n \<noteq> 0" "seg h head as n" "hseg h n bs"
    "prevp h n = last (head # as)" "last (head # as) \<noteq> 0" "last (head # as) \<in> set (head # as)" "nextp h n \<in> insert 0 (set bs)"
proof -
  show d: "distinct (head # as @ n # bs)" "hseg h head (as @ n # bs)" "head \<noteq> 0" using assms by (simp_all add: is_hlist_def)
  then show s: "0 \<notin> set as" "n \<noteq> 0" "seg h head as n" "hseg h n bs" by (simp_all add: hseg_append)
  show "prevp h n = last (head # as)" by (rule seg_last [OF s(3)])
  show l: "last (head # as) \<in> set (head # as)" by simp
  show "last (head # as) \<noteq> 0" using l d(3) s(1) by auto
  show "nextp h n \<in> insert 0 (set bs)" using s(4) by (cases bs) (simp_all add: linked_def)
qed

lemma hlist_empty_iff: "is_hlist h head xs \<Longrightarrow> hlist_empty h head = Some (xs = [])"
  by (cases xs) (auto simp: is_hlist_def hlist_empty_def linked_def hlist_access)

lemma hlist_add_head_is_hlist:
  assumes "is_hlist h head xs" "n \<notin> set (head # xs)" "n \<noteq> 0"
  obtains h' where "hlist_add_head h n head = Some h'" "is_hlist h' head (n # xs)" "cells_kept (set (n # head # xs)) h h'"
proof -
  have d: "distinct (head # xs)" "hseg h head xs" "head \<noteq> 0" using assms(1) by (simp_all add: is_hlist_def)
  have f: "nextp h head \<in> insert 0 (set xs)" using d(2) by (cases xs) (simp_all add: linked_def)
  obtain h' where e: "hlist_add_head h n head = Some h'" using d(3) assms(3) by (cases "nextp h head = 0") (simp_all add: hlist_add_head_def hlist_access)
  then have cells: "nextp h' c = (if c = head then n else if c = n then nextp h head else nextp h c)"
    "prevp h' c = (if c = n then head else if nextp h head \<noteq> 0 \<and> c = nextp h head then n else prevp h c)" for c
    using d(3) assms(2,3) by (auto simp: hlist_add_head_def hlist_access split: if_splits)
  have "hseg h' n xs"
  proof (cases xs)
    case (Cons x ys)
    then have x: "x \<noteq> 0" "nextp h head = x" "hseg h x ys" using d(2) by (simp_all add: linked_def)
    have "hseg h' x ys = hseg h x ys" using d(1) assms(2) x Cons by (intro hseg_cong) (auto simp: cells)
    then show ?thesis using x Cons assms(2) by (auto simp: cells linked_def)
  qed (use d(2) assms(2) in \<open>auto simp: cells\<close>)
  then have "is_hlist h' head (n # xs)" using d assms(2,3) by (auto simp: is_hlist_def linked_def cells)
  moreover have "cells_kept (set (n # head # xs)) h h'" using f by (auto simp: cells_kept_def cells)
  ultimately show ?thesis using e that by blast
qed

lemma raw_hlist_del_cells:
  assumes "is_hlist h head (as @ n # bs)"
  obtains h' where "raw_hlist_del h n = Some h'" "\<And>c. nextp h' c = (if c = last (head # as) then nextp h n else nextp h c)"
    "\<And>c. prevp h' c = (if nextp h n \<noteq> 0 \<and> c = nextp h n then last (head # as) else prevp h c)"
proof -
  note d = is_hlistD [OF assms]
  obtain h' where "raw_hlist_del h n = Some h'" using d(5,8,9) by (cases "nextp h n = 0") (simp_all add: raw_hlist_del_def hlist_access)
  then show ?thesis using d(5,8,9) by (intro that) (auto simp: raw_hlist_del_def hlist_access split: if_splits)
qed

lemma seg_retarget:
  assumes "seg h a xs z" "distinct (a # xs)"
    and "\<forall>c\<in>set (a # xs). c \<noteq> last (a # xs) \<longrightarrow> nextp h' c = nextp h c"
    and "\<forall>c\<in>set xs. prevp h' c = prevp h c" and "linked h' (last (a # xs)) n"
  shows "seg h' a xs n"
  using assms by (induction xs arbitrary: a) (auto simp: linked_def split: if_splits)

lemma hseg_cut:
  assumes "seg h a xs z" "distinct (a # xs)" "0 \<notin> set xs"
    and "\<forall>c\<in>set (a # xs). nextp h' c = (if c = last (a # xs) then 0 else nextp h c)" "\<forall>c\<in>set xs. prevp h' c = prevp h c"
  shows "hseg h' a xs"
  using assms by (induction xs arbitrary: a) (auto simp: linked_def split: if_splits)

lemma hlist_remove:
  assumes "is_hlist h head (as @ n # bs)"
    and "\<And>c. c \<noteq> n \<Longrightarrow> nextp h' c = (if c = last (head # as) then nextp h n else nextp h c)"
    and "\<And>c. c \<noteq> n \<Longrightarrow> prevp h' c = (if nextp h n \<noteq> 0 \<and> c = nextp h n then last (head # as) else prevp h c)"
  shows "is_hlist h' head (as @ bs)"
proof -
  note d = is_hlistD [OF assms(1)]
  define l where "l = last (head # as)"
  have dist: "distinct (head # as)" using d(1) by auto
  have l: "l \<in> set (head # as)" "l \<notin> set bs" "l \<noteq> n" using d(1,10) unfolding l_def by auto
  have cells: "nextp h' c = (if c = l then nextp h n else nextp h c)"
    "prevp h' c = (if nextp h n \<noteq> 0 \<and> c = nextp h n then l else prevp h c)" if "c \<in> set (head # as @ bs)" for c
    unfolding l_def using that d(1) by (intro assms(2,3); auto)+
  have "hseg h' head (as @ bs)"
  proof (cases bs)
    case Nil
    then have z: "nextp h n = 0" using d(7) by simp
    then show ?thesis unfolding Nil append_Nil2
      by (intro hseg_cut [OF d(6) dist d(4), folded l_def]) (simp_all add: cells)
  next
    case (Cons y ys)
    then have y: "y \<noteq> 0" "nextp h n = y" "hseg h y ys" using d(7) by (simp_all add: linked_def)
    have "hseg h' y ys = hseg h y ys" using d(1) l(2) Cons y(2) by (intro hseg_cong) (auto simp: cells)
    moreover have "seg h' head as y" using d(1) l Cons y
      by (intro seg_retarget [OF d(6) dist, folded l_def]) (auto simp: cells linked_def)
    ultimately show ?thesis using d(4) y(1,3) Cons by (simp add: hseg_append)
  qed
  then show ?thesis using d by (auto simp: is_hlist_def)
qed

lemma hlist_del_is_hlist:
  assumes "is_hlist h head (as @ n # bs)"
  obtains h' where "hlist_del h n = Some h'" "is_hlist h' head (as @ bs)" "cells_kept (set (head # as @ n # bs)) h h'"
proof -
  note d = is_hlistD [OF assms]
  obtain h1 where r: "raw_hlist_del h n = Some h1" "\<And>c. nextp h1 c = (if c = last (head # as) then nextp h n else nextp h c)"
    "\<And>c. prevp h1 c = (if nextp h n \<noteq> 0 \<and> c = nextp h n then last (head # as) else prevp h c)" by (rule raw_hlist_del_cells [OF assms]) (rule that)
  let ?h = "set_prev (set_next h1 n LIST_POISON1) n LIST_POISON2"
  have "hlist_del h n = Some ?h" using d(5) by (simp add: hlist_del_def r(1) hlist_access)
  moreover have "is_hlist ?h head (as @ bs)" by (rule hlist_remove [OF assms]) (simp_all add: r(2,3))
  moreover have "cells_kept (set (head # as @ n # bs)) h ?h" using d(10,11) by (auto simp: cells_kept_def r(2,3))
  ultimately show ?thesis using that by blast
qed

lemma hlist_del_init_is_hlist:
  assumes "is_hlist h head (as @ n # bs)"
  obtains h' where "hlist_del_init h n = Some h'" "is_hlist h' head (as @ bs)" "cells_kept (set (head # as @ n # bs)) h h'"
    "hlist_unhashed h' n = Some True" "hlist_del_init h' n = Some h'"
proof -
  note d = is_hlistD [OF assms]
  obtain h1 where r: "raw_hlist_del h n = Some h1" "\<And>c. nextp h1 c = (if c = last (head # as) then nextp h n else nextp h c)"
    "\<And>c. prevp h1 c = (if nextp h n \<noteq> 0 \<and> c = nextp h n then last (head # as) else prevp h c)" by (rule raw_hlist_del_cells [OF assms]) (rule that)
  let ?h = "set_prev (set_next h1 n 0) n 0"
  have "hlist_unhashed h n = Some False" using d(5,8,9) by (simp add: hlist_unhashed_def hlist_access)
  then have "hlist_del_init h n = Some ?h" using d(5) by (simp add: hlist_del_init_def r(1) INIT_HLIST_NODE_def hlist_access)
  moreover have "is_hlist ?h head (as @ bs)" by (rule hlist_remove [OF assms]) (simp_all add: r(2,3))
  moreover have "cells_kept (set (head # as @ n # bs)) h ?h" using d(10,11) by (auto simp: cells_kept_def r(2,3))
  moreover have "hlist_unhashed ?h n = Some True" using d(5) by (simp add: hlist_unhashed_def hlist_access)
  moreover from this have "hlist_del_init ?h n = Some ?h" by (simp add: hlist_del_init_def)
  ultimately show ?thesis using that by blast
qed

lemma hlist_add_before_is_hlist:
  assumes "is_hlist h head (as @ nxt # bs)" "n \<notin> set (head # as @ nxt # bs)" "n \<noteq> 0"
  obtains h' where "hlist_add_before h n nxt = Some h'" "is_hlist h' head (as @ n # nxt # bs)" "cells_kept (set (n # head # as @ nxt # bs)) h h'"
proof -
  note d = is_hlistD [OF assms(1)]
  define l where "l = last (head # as)"
  have l: "l \<in> set (head # as)" "prevp h nxt = l" "l \<noteq> 0" using d(8-10) by (simp_all add: l_def)
  have ne: "nxt \<noteq> n" "l \<noteq> n" using assms(2) l(1) by auto
  obtain h' where e: "hlist_add_before h n nxt = Some h'" using d(5) l(2,3) ne assms(3) by (simp add: hlist_add_before_def hlist_access)
  then have cells: "nextp h' c = (if c = l then n else if c = n then nxt else nextp h c)"
    "prevp h' c = (if c = nxt then n else if c = n then l else prevp h c)" for c
    using d(5) l(2,3) ne assms(3) by (auto simp: hlist_add_before_def hlist_access split: if_splits)
  have "seg h' head as n"
    by (rule seg_retarget [of h head as nxt, folded l_def, OF d(6)]) (use d(1) assms(2) l in \<open>auto simp: cells linked_def\<close>)
  moreover have "hseg h' nxt bs = hseg h nxt bs" using d(1) assms(2) l by (intro hseg_cong) (auto simp: cells)
  moreover have "linked h' n nxt" using ne by (auto simp: linked_def cells)
  ultimately have "is_hlist h' head (as @ n # nxt # bs)" using d assms(2,3) by (auto simp: is_hlist_def hseg_append)
  moreover have "cells_kept (set (n # head # as @ nxt # bs)) h h'" using l(1) by (auto simp: cells_kept_def cells)
  ultimately show ?thesis using e that by blast
qed

lemma hlist_add_after_is_hlist:
  assumes "is_hlist h head (as @ n # bs)" "nxt \<notin> set (head # as @ n # bs)" "nxt \<noteq> 0"
  obtains h' where "hlist_add_after h n nxt = Some h'" "is_hlist h' head (as @ n # nxt # bs)" "cells_kept (set (nxt # head # as @ n # bs)) h h'"
proof -
  note d = is_hlistD [OF assms(1)]
  have ne: "nxt \<noteq> n" "nextp h n \<noteq> n" "nextp h n \<noteq> nxt" using d(1,5,11) assms(2,3) by auto
  obtain h' where e: "hlist_add_after h n nxt = Some h'" using d(5) ne assms(3) by (cases "nextp h n = 0") (simp_all add: hlist_add_after_def hlist_access)
  then have cells: "nextp h' c = (if c = n then nxt else if c = nxt then nextp h n else nextp h c)"
    "prevp h' c = (if nextp h n \<noteq> 0 \<and> c = nextp h n then nxt else if c = nxt then n else prevp h c)" for c
    using d(5) ne assms(3) by (auto simp: hlist_add_after_def hlist_access split: if_splits)
  have "seg h' head as n = seg h head as n"
  proof (rule seg_cong)
    show "nextp h' c = nextp h c" if "c \<in> set (head # as)" for c using that d(1) assms(2) by (auto simp: cells)
    show "prevp h' c = prevp h c" if "c \<in> set as \<union> {n}" for c using that d(1,5,11) assms(2) ne by (auto simp: cells)
  qed
  moreover have "hseg h' nxt bs"
  proof (cases bs)
    case (Cons b cs)
    then have b: "b \<noteq> 0" "nextp h n = b" "hseg h b cs" using d(7) by (simp_all add: linked_def)
    have "hseg h' b cs = hseg h b cs" using d(1) assms(2) Cons b(2) by (intro hseg_cong) (auto simp: cells)
    then show ?thesis using b Cons ne by (simp add: cells linked_def)
  qed (use d(7) ne in \<open>simp add: cells\<close>)
  moreover have "linked h' n nxt" using ne by (auto simp: linked_def cells)
  ultimately have "is_hlist h' head (as @ n # nxt # bs)" using d assms(2,3) by (auto simp: is_hlist_def hseg_append)
  moreover have "cells_kept (set (nxt # head # as @ n # bs)) h h'" using d(11) by (auto simp: cells_kept_def cells)
  ultimately show ?thesis using e that by blast
qed

lemma hlist_move_list_is_hlist:
  assumes "is_hlist h old xs" "new \<notin> set (old # xs)" "new \<noteq> 0"
  obtains h' where "hlist_move_list h old new = Some h'" "is_hlist h' new xs" "is_hlist h' old []" "cells_kept (set (new # old # xs)) h h'"
proof -
  have d: "distinct (old # xs)" "hseg h old xs" "old \<noteq> 0" using assms(1) by (simp_all add: is_hlist_def)
  have f: "nextp h old \<in> insert 0 (set xs)" using d(2) by (cases xs) (simp_all add: linked_def)
  obtain h' where e: "hlist_move_list h old new = Some h'" using d(3) assms(3) by (cases "nextp h old = 0") (simp_all add: hlist_move_list_def hlist_access)
  then have cells: "nextp h' c = (if c = old then 0 else if c = new then nextp h old else nextp h c)"
    "prevp h' c = (if nextp h old \<noteq> 0 \<and> c = nextp h old then new else prevp h c)" for c
    using d(3) assms(3) by (auto simp: hlist_move_list_def hlist_access split: if_splits)
  have "hseg h' new xs"
  proof (cases xs)
    case (Cons x ys)
    then have x: "x \<noteq> 0" "nextp h old = x" "hseg h x ys" using d(2) by (simp_all add: linked_def)
    have "hseg h' x ys = hseg h x ys" using d(1) assms(2) Cons x by (intro hseg_cong) (auto simp: cells)
    then show ?thesis using x Cons assms(2) by (auto simp: cells linked_def)
  qed (use d(2) assms(2) in \<open>auto simp: cells\<close>)
  then have "is_hlist h' new xs" using d assms(2,3) by (auto simp: is_hlist_def)
  moreover have "is_hlist h' old []" using d(3) by (simp add: is_hlist_def cells)
  moreover have "cells_kept (set (new # old # xs)) h h'" using f by (auto simp: cells_kept_def cells)
  ultimately show ?thesis using e that by blast
qed

section \<open>Families of queues\<close>

text \<open>
  What a client of the lists relies on: \<open>is_q h q xs\<close> is the abstraction relation, and the
  operations insert, remove and test, leaving every other queue whose cells are disjoint as
  it was.
\<close>

locale queue_heap =
  fixes is_q :: "'h \<Rightarrow> u64 \<Rightarrow> u64 list \<Rightarrow> bool"
    and push :: "'h \<Rightarrow> u64 \<Rightarrow> u64 \<Rightarrow> 'h"
    and enq :: "'h \<Rightarrow> u64 \<Rightarrow> u64 \<Rightarrow> 'h"
    and del :: "'h \<Rightarrow> u64 \<Rightarrow> 'h"
    and isempty :: "'h \<Rightarrow> u64 \<Rightarrow> bool"
  assumes q_push: "is_q h q xs \<Longrightarrow> e \<notin> set (q # xs) \<Longrightarrow> is_q (push h e q) q (e # xs)"
    and q_enq: "is_q h q xs \<Longrightarrow> e \<notin> set (q # xs) \<Longrightarrow> is_q (enq h e q) q (xs @ [e])"
    and q_del: "is_q h q xs \<Longrightarrow> e \<in> set xs \<Longrightarrow> is_q (del h e) q (remove1 e xs)"
    and q_empty: "is_q h q xs \<Longrightarrow> isempty h q \<longleftrightarrow> xs = []"
    and q_distinct: "is_q h q xs \<Longrightarrow> distinct (q # xs)"
    and push_other: "is_q h q xs \<Longrightarrow> is_q h p ys \<Longrightarrow> set (p # ys) \<inter> set (e # q # xs) = {} \<Longrightarrow> is_q (push h e q) p ys"
    and enq_other: "is_q h q xs \<Longrightarrow> is_q h p ys \<Longrightarrow> set (p # ys) \<inter> set (e # q # xs) = {} \<Longrightarrow> is_q (enq h e q) p ys"
    and del_other: "is_q h q xs \<Longrightarrow> e \<in> set xs \<Longrightarrow> is_q h p ys \<Longrightarrow> set (p # ys) \<inter> set (q # xs) = {} \<Longrightarrow> is_q (del h e) p ys"

text \<open>A family of queues over one heap: a map from the head cells to the contents.\<close>

definition queues :: "('h \<Rightarrow> u64 \<Rightarrow> u64 list \<Rightarrow> bool) \<Rightarrow> 'h \<Rightarrow> (u64 \<rightharpoonup> u64 list) \<Rightarrow> bool" where
  "queues is_q h Q \<longleftrightarrow> (\<forall>q xs. Q q = Some xs \<longrightarrow> is_q h q xs) \<and>
     (\<forall>p q xs ys. Q p = Some xs \<longrightarrow> Q q = Some ys \<longrightarrow> p \<noteq> q \<longrightarrow> set (p # xs) \<inter> set (q # ys) = {})"

definition fresh_for :: "(u64 \<rightharpoonup> u64 list) \<Rightarrow> u64 \<Rightarrow> bool" where
  "fresh_for Q e \<longleftrightarrow> (\<forall>q xs. Q q = Some xs \<longrightarrow> e \<notin> set (q # xs))"

lemma queuesD:
  assumes "queues is_q h Q" "Q q = Some xs"
  shows "is_q h q xs"
    and "Q p = Some ys \<Longrightarrow> p \<noteq> q \<Longrightarrow> set (p # ys) \<inter> set (q # xs) = {}"
  using assms unfolding queues_def by blast+

lemma queues_upd:
  assumes "queues is_q h Q" "Q q = Some xs" "is_q h' q xs'"
    and "\<And>p ys. Q p = Some ys \<Longrightarrow> p \<noteq> q \<Longrightarrow> is_q h' p ys"
    and "\<And>p ys. Q p = Some ys \<Longrightarrow> p \<noteq> q \<Longrightarrow> set (p # ys) \<inter> set xs' = {}"
  shows "queues is_q h' (Q(q \<mapsto> xs'))"
  unfolding queues_def
proof (intro conjI allI impI)
  fix p zs assume "(Q(q \<mapsto> xs')) p = Some zs"
  then show "is_q h' p zs" using assms(3,4) by (auto split: if_splits)
next
  fix p r ys zs
  assume r: "(Q(q \<mapsto> xs')) p = Some ys" "(Q(q \<mapsto> xs')) r = Some zs" "p \<noteq> r"
  have hd: "q \<notin> set (s # ws)" if "Q s = Some ws" "s \<noteq> q" for s ws
    using queuesD(2) [OF assms(1,2) that] by auto
  show "set (p # ys) \<inter> set (r # zs) = {}"
  proof (cases "p = q \<or> r = q")
    case True
    then show ?thesis using r assms(5) hd by (auto split: if_splits)
  next
    case False
    then show ?thesis using r queuesD(2) [OF assms(1), of r zs p ys] by auto
  qed
qed

context queue_heap
begin

lemma queues_enq:
  assumes "queues is_q h Q" "Q q = Some xs" "fresh_for Q e"
  shows "queues is_q (enq h e q) (Q(q \<mapsto> xs @ [e]))"
proof (rule queues_upd [OF assms(1,2)])
  have f: "e \<notin> set (p # ys)" if "Q p = Some ys" for p ys using assms(3) that by (auto simp: fresh_for_def)
  show "is_q (enq h e q) q (xs @ [e])" using queuesD(1) [OF assms(1,2)] f [OF assms(2)] by (rule q_enq)
  show "is_q (enq h e q) p ys" if "Q p = Some ys" "p \<noteq> q" for p ys
    using queuesD [OF assms(1,2)] queuesD(1) [OF assms(1) that(1)] f [OF that(1)] that
    by (intro enq_other [of h q xs]) auto
  show "set (p # ys) \<inter> set (xs @ [e]) = {}" if "Q p = Some ys" "p \<noteq> q" for p ys
    using queuesD(2) [OF assms(1,2) that] f [OF that(1)] by auto
qed

lemma queues_push:
  assumes "queues is_q h Q" "Q q = Some xs" "fresh_for Q e"
  shows "queues is_q (push h e q) (Q(q \<mapsto> e # xs))"
proof (rule queues_upd [OF assms(1,2)])
  have f: "e \<notin> set (p # ys)" if "Q p = Some ys" for p ys using assms(3) that by (auto simp: fresh_for_def)
  show "is_q (push h e q) q (e # xs)" using queuesD(1) [OF assms(1,2)] f [OF assms(2)] by (rule q_push)
  show "is_q (push h e q) p ys" if "Q p = Some ys" "p \<noteq> q" for p ys
    using queuesD [OF assms(1,2)] queuesD(1) [OF assms(1) that(1)] f [OF that(1)] that
    by (intro push_other [of h q xs]) auto
  show "set (p # ys) \<inter> set (e # xs) = {}" if "Q p = Some ys" "p \<noteq> q" for p ys
    using queuesD(2) [OF assms(1,2) that] f [OF that(1)] by auto
qed

lemma queues_del:
  assumes "queues is_q h Q" "Q q = Some xs" "e \<in> set xs"
  shows "queues is_q (del h e) (Q(q \<mapsto> remove1 e xs))" "fresh_for (Q(q \<mapsto> remove1 e xs)) e"
proof -
  have q: "is_q h q xs" using queuesD(1) [OF assms(1,2)] .
  have out: "e \<notin> set (p # ys)" if "Q p = Some ys" "p \<noteq> q" for p ys
    using queuesD(2) [OF assms(1,2) that] assms(3) by auto
  show "queues is_q (del h e) (Q(q \<mapsto> remove1 e xs))"
  proof (rule queues_upd [OF assms(1,2)])
    show "is_q (del h e) q (remove1 e xs)" using q assms(3) by (rule q_del)
    show "is_q (del h e) p ys" if "Q p = Some ys" "p \<noteq> q" for p ys
      using queuesD [OF assms(1,2)] queuesD(1) [OF assms(1) that(1)] that assms(3)
      by (intro del_other [of h q xs]) auto
    show "set (p # ys) \<inter> set (remove1 e xs) = {}" if "Q p = Some ys" "p \<noteq> q" for p ys
      using queuesD(2) [OF assms(1,2) that] set_remove1_subset [of e xs] by auto
  qed
  show "fresh_for (Q(q \<mapsto> remove1 e xs)) e"
    using out q_distinct [OF q] assms(3) by (auto simp: fresh_for_def split: if_splits)
qed

lemma queues_empty: "queues is_q h Q \<Longrightarrow> Q q = Some xs \<Longrightarrow> isempty h q \<longleftrightarrow> xs = []"
  by (rule q_empty [OF queuesD(1) [of is_q]])

end

interpretation lq: queue_heap is_list list_add list_add_tail list_del list_empty
  by unfold_locales
     (fact list_add_is_list list_add_tail_is_list list_del_is_list list_empty_iff is_list_distinct
        list_add_frame list_del_frame)+

interpretation lqi: queue_heap is_list list_add list_add_tail list_del_init list_empty
  by unfold_locales
     (fact list_add_is_list list_add_tail_is_list list_del_init_is_list list_empty_iff is_list_distinct
        list_add_frame list_del_frame)+

section \<open>Properties\<close>

text \<open>
  C11.  The list operations implement sequences.  On a list that holds \<open>xs\<close>, which may be empty: adding a
  fresh cell at the head or the tail, removing a cell (with or without reinitialising it), moving it to
  another list, replacing it by a fresh cell, rotating, testing for emptiness and for one element, and the
  forward and backward iterations, which end and visit the cells in order; a list with disjoint cells is left as
  it was by insertion and removal.
\<close>

theorem list_ops_refine:
  assumes "is_list h head xs" "new \<notin> set (head # xs)"
    and "is_list h p ys" "set (p # ys) \<inter> set (new # head # xs) = {}"
  shows "is_list (list_add h new head) head (new # xs) \<and> is_list (list_add h new head) p ys \<and>
    is_list (list_add_tail h new head) head (xs @ [new]) \<and> is_list (list_add_tail h new head) p ys \<and>
    is_list (list_rotate_left h head) head (rotate1 xs) \<and>
    (list_empty h p \<longleftrightarrow> ys = []) \<and> (list_is_singular h p \<longleftrightarrow> length ys = 1) \<and>
    list_for_each h head = Some xs \<and> list_for_each_prev h head = Some (rev xs) \<and>
    (\<forall>e \<in> set xs. is_list (list_del h e) head (remove1 e xs) \<and> is_list (list_del h e) p ys \<and>
      is_list (list_del_init h e) head (remove1 e xs) \<and> is_list (list_del_init h e) e [] \<and>
      is_list (list_move h e p) head (remove1 e xs) \<and> is_list (list_move h e p) p (e # ys) \<and>
      is_list (list_move_tail h e p) head (remove1 e xs) \<and> is_list (list_move_tail h e p) p (ys @ [e]) \<and>
      is_list (list_replace h e new) head (map (\<lambda>x. if x = e then new else x) xs) \<and>
      (list_is_last h e head \<longleftrightarrow> last xs = e))"
proof -
  have dis: "set (p # ys) \<inter> set (head # xs) = {}" "set (head # xs) \<inter> set (p # ys) = {}" using assms(4) by auto
  have rep: "is_list (list_replace h e new) head (map (\<lambda>x. if x = e then new else x) xs)" if e: "e \<in> set xs" for e
  proof -
    obtain as bs where xs: "xs = as @ e # bs" using e split_list by metis
    moreover have "e \<notin> set as \<union> set bs" using is_list_distinct [OF assms(1)] xs by auto
    ultimately have m: "map (\<lambda>x. if x = e then new else x) xs = as @ new # bs" by (auto intro!: map_idI)
    show ?thesis unfolding m using list_replace_is_list [of h head as e bs new] assms(1,2) xs by simp
  qed
  have "is_list (list_del h e) head (remove1 e xs) \<and> is_list (list_del h e) p ys \<and>
      is_list (list_del_init h e) head (remove1 e xs) \<and> is_list (list_del_init h e) e [] \<and>
      is_list (list_move h e p) head (remove1 e xs) \<and> is_list (list_move h e p) p (e # ys) \<and>
      is_list (list_move_tail h e p) head (remove1 e xs) \<and> is_list (list_move_tail h e p) p (ys @ [e]) \<and>
      (list_is_last h e head \<longleftrightarrow> last xs = e)" if e: "e \<in> set xs" for e
    using list_del_is_list [OF assms(1) e] list_del_init_is_list [OF assms(1) e] list_del_frame [OF assms(1) e assms(3) dis(1)]
      list_move_is_list [OF assms(1) e assms(3) dis(2)] list_is_last_iff [OF assms(1) e] by blast
  then show ?thesis
    using list_add_is_list [OF assms(1,2)] list_add_tail_is_list [OF assms(1,2)] list_add_frame [OF assms(1,3,4)]
      list_rotate_left_is_list [OF assms(1)] list_empty_iff [OF assms(3)] list_is_singular_iff [OF assms(3)]
      list_for_each_is_list [OF assms(1)] rep by blast
qed

text \<open>Two lists over one heap: head 1 with the cells 2 and 3, and the empty list of head 5.\<close>

abbreviation demo_cells :: lheap where
  "demo_cells \<equiv> \<lparr>nextp = (\<lambda>a. if a = 1 then 2 else if a = 2 then 3 else if a = 3 then 1 else a),
                 prevp = (\<lambda>a. if a = 1 then 3 else if a = 2 then 1 else if a = 3 then 2 else a)\<rparr>"

lemma demo_cells_lists: "is_list demo_cells 1 [2, 3]" "is_list demo_cells 5 []"
  by (simp_all add: is_list_def linked_def)

theorem list_ops_refine_witness:
  "is_list (list_add_tail demo_cells 4 1) 1 [2, 3, 4] \<and> list_for_each demo_cells 1 = Some [2, 3] \<and> is_list (list_move demo_cells 3 5) 5 [3]"
  using list_ops_refine [OF demo_cells_lists(1) _ demo_cells_lists(2), of 4] by simp

text \<open>
  C12.  Splicing and cutting, of lists that may be empty: \<^verbatim>\<open>list_splice\<close> puts the cells of the one list before those of
  the other, \<^verbatim>\<open>list_splice_tail_init\<close> behind them and leaves the first list empty;
  \<^verbatim>\<open>list_cut_position\<close> at a cell moves everything up to it to the new list, and at the head of a list that is not
  empty it moves nothing.
\<close>

theorem list_splice_cut:
  assumes "is_list h head ys" "is_list h list xs" "set (head # ys) \<inter> set (list # xs) = {}"
  shows "is_list (list_splice h list head) head (xs @ ys) \<and>
    is_list (list_splice_tail_init h list head) head (ys @ xs) \<and>
    is_list (list_splice_tail_init h list head) list [] \<and>
    (\<forall>as e bs. ys = as @ e # bs \<longrightarrow> is_list (list_cut_position h list head e) list (as @ [e]) \<and>
      is_list (list_cut_position h list head e) head bs) \<and>
    (ys \<noteq> [] \<longrightarrow> is_list (list_cut_position h list head head) list []) \<and>
    is_list (list_cut_position h list head head) head ys"
proof -
  have "list \<notin> set (head # ys)" using assms(3) by auto
  note cut = list_cut_position_is_list [OF assms(1) this]
  show ?thesis
    using list_splice_is_list [OF assms] list_splice_init_is_list [OF assms] cut by blast
qed

theorem list_splice_cut_witness:
  "is_list (list_cut_position demo_cells 5 1 2) 5 [2] \<and> is_list (list_cut_position demo_cells 5 1 2) 1 [3] \<and>
   is_list (list_splice demo_cells 1 5) 5 [2, 3]"
  using list_splice_cut [of demo_cells 1 "[2, 3]" 5 "[]"] list_splice_cut [of demo_cells 5 "[]" 1 "[2, 3]"] demo_cells_lists by force

text \<open>
  C13.  The null-terminated lists.  Each operation is the operation on sequences, touches only the cells of its list and the
  new cell, and never accesses memory through a null pointer, on the empty list and at the last cell too: adding a fresh cell at
  the head, before or after a cell, removing a cell, and moving a whole list to another head.  A cell removed by
  \<^verbatim>\<open>hlist_del_init\<close> is unhashed, and removing it once more changes nothing.
\<close>

theorem hlist_ops_refine:
  assumes "is_hlist h head xs" "new \<notin> set (head # xs)" "new \<noteq> 0"
  shows "hlist_empty h head = Some (xs = []) \<and>
    (\<exists>h'. hlist_add_head h new head = Some h' \<and> is_hlist h' head (new # xs) \<and> cells_kept (set (new # head # xs)) h h') \<and>
    (\<exists>h'. hlist_move_list h head new = Some h' \<and> is_hlist h' new xs \<and> is_hlist h' head [] \<and> cells_kept (set (new # head # xs)) h h') \<and>
    (\<forall>as n bs. xs = as @ n # bs \<longrightarrow>
      (\<exists>h'. hlist_add_before h new n = Some h' \<and> is_hlist h' head (as @ new # n # bs) \<and> cells_kept (set (new # head # xs)) h h') \<and>
      (\<exists>h'. hlist_add_after h n new = Some h' \<and> is_hlist h' head (as @ n # new # bs) \<and> cells_kept (set (new # head # xs)) h h') \<and>
      (\<exists>h'. hlist_del h n = Some h' \<and> is_hlist h' head (as @ bs) \<and> cells_kept (set (head # xs)) h h') \<and>
      (\<exists>h'. hlist_del_init h n = Some h' \<and> is_hlist h' head (as @ bs) \<and> cells_kept (set (head # xs)) h h' \<and>
        hlist_unhashed h' n = Some True \<and> hlist_del_init h' n = Some h'))"
proof (intro conjI allI impI)
  show "hlist_empty h head = Some (xs = [])" by (rule hlist_empty_iff [OF assms(1)])
  show "\<exists>h'. hlist_add_head h new head = Some h' \<and> is_hlist h' head (new # xs) \<and> cells_kept (set (new # head # xs)) h h'"
    by (rule hlist_add_head_is_hlist [OF assms]) blast
  show "\<exists>h'. hlist_move_list h head new = Some h' \<and> is_hlist h' new xs \<and> is_hlist h' head [] \<and> cells_kept (set (new # head # xs)) h h'"
    by (rule hlist_move_list_is_hlist [OF assms]) blast
next
  fix as n bs assume xs: "xs = as @ n # bs"
  note l = assms(1) [unfolded xs] and f = assms(2) [unfolded xs]
  show "\<exists>h'. hlist_add_before h new n = Some h' \<and> is_hlist h' head (as @ new # n # bs) \<and> cells_kept (set (new # head # xs)) h h'"
    unfolding xs by (rule hlist_add_before_is_hlist [OF l f assms(3)]) blast
  show "\<exists>h'. hlist_add_after h n new = Some h' \<and> is_hlist h' head (as @ n # new # bs) \<and> cells_kept (set (new # head # xs)) h h'"
    unfolding xs by (rule hlist_add_after_is_hlist [OF l f assms(3)]) blast
  show "\<exists>h'. hlist_del h n = Some h' \<and> is_hlist h' head (as @ bs) \<and> cells_kept (set (head # xs)) h h'"
    unfolding xs by (rule hlist_del_is_hlist [OF l]) blast
  show "\<exists>h'. hlist_del_init h n = Some h' \<and> is_hlist h' head (as @ bs) \<and> cells_kept (set (head # xs)) h h' \<and>
      hlist_unhashed h' n = Some True \<and> hlist_del_init h' n = Some h'"
    unfolding xs by (rule hlist_del_init_is_hlist [OF l]) blast
qed

theorem hlist_ops_refine_witness:
  "(\<exists>h'. hlist_add_head \<lparr>nextp = (\<lambda>a. 0), prevp = (\<lambda>a. 0)\<rparr> 7 1 = Some h' \<and> is_hlist h' 1 [7]) \<and>
   (\<exists>h'. hlist_del \<lparr>nextp = (\<lambda>a. if a = 1 then 2 else 0), prevp = (\<lambda>a. 1)\<rparr> 2 = Some h' \<and> is_hlist h' 1 [])"
proof -
  have "is_hlist \<lparr>nextp = (\<lambda>a. 0), prevp = (\<lambda>a. 0)\<rparr> 1 []" "is_hlist \<lparr>nextp = (\<lambda>a. if a = 1 then 2 else 0), prevp = (\<lambda>a. 1)\<rparr> 1 [2]"
    by (simp_all add: is_hlist_def linked_def)
  from hlist_ops_refine [OF this(1), of 7] hlist_ops_refine [OF this(2), of 7] show ?thesis by fastforce
qed

text \<open>Initialised heads and cells, and a cell that only pretends to be on a list: \<^verbatim>\<open>hlist_del\<close> returns on it.\<close>

lemma hlist_init:
  "head \<noteq> 0 \<Longrightarrow> \<exists>h'. INIT_HLIST_HEAD h head = Some h' \<and> is_hlist h' head []"
  "n \<noteq> 0 \<Longrightarrow> \<exists>h' h''. INIT_HLIST_NODE h n = Some h' \<and> hlist_unhashed h' n = Some True \<and> hlist_add_fake h' n = Some h'' \<and>
     hlist_unhashed h'' n = Some False \<and> hlist_del h'' n \<noteq> None"
  by (auto simp: INIT_HLIST_HEAD_def INIT_HLIST_NODE_def is_hlist_def hlist_unhashed_def hlist_add_fake_def hlist_del_def raw_hlist_del_def hlist_access)

end
