(* ===== verification/K_String.thy ===== *)
theory K_String
  imports K_Prelude
begin

text \<open>
  The memory and string functions of \<^verbatim>\<open>os/lib/libc\<close> (\<^verbatim>\<open>k_memset.c\<close>, \<^verbatim>\<open>k_memcpy.c\<close>,
  \<^verbatim>\<open>k_str*.c\<close>).  Memory is a function from 64-bit addresses to bytes, and wider stores write
  their bytes little-endian, as the board does.  \<^verbatim>\<open>CONFIG_MEMSET_OPTSPEED\<close> and
  \<^verbatim>\<open>CONFIG_MEMSET_64BIT\<close> are on, so \<open>k_memset\<close> is the aligned 64-bit version.  Plain
  \<^verbatim>\<open>char\<close> is unsigned on this architecture.  A scan for a terminator that is not there
  does not end, which is the value \<open>None\<close>.
\<close>

type_synonym bmem = "u64 \<Rightarrow> u8"

section \<open>Stores\<close>

fun store_le :: "nat \<Rightarrow> bmem \<Rightarrow> u64 \<Rightarrow> u64 \<Rightarrow> bmem" where
  "store_le 0 m a v = m"
| "store_le (Suc k) m a v = store_le k (m(a := ucast v)) (a + 1) (drop_bit 8 v)"

fun load_le :: "nat \<Rightarrow> bmem \<Rightarrow> u64 \<Rightarrow> u64" where
  "load_le 0 m a = 0"
| "load_le (Suc k) m a = push_bit 8 (load_le k m (a + 1)) OR ucast (m a)"

section \<open>Filling\<close>

function memset_loop64 :: "bmem \<Rightarrow> u64 \<Rightarrow> u64 \<Rightarrow> u64 \<Rightarrow> bmem \<times> u64 \<times> u64" where
  "memset_loop64 m addr val64 n =
     (if n \<ge> 8 then memset_loop64 (store_le 8 m addr val64) (addr + 8) val64 (n - 8) else (m, addr, n))"
  by pat_completeness auto
termination
  by (relation "measure (\<lambda>(m, addr, val64, n). unat n)")
     (auto simp: word_le_nat_alt unat_minus_small)

declare memset_loop64.simps [simp del]

text \<open>One guarded store: write \<open>k\<close> bytes of \<open>v\<close> and advance when the condition holds.\<close>

definition memset_step :: "bool \<Rightarrow> nat \<Rightarrow> u64 \<Rightarrow> bmem \<times> u64 \<times> u64 \<Rightarrow> bmem \<times> u64 \<times> u64" where
  "memset_step b k v s =
     (case s of (m, addr, n) \<Rightarrow>
        if b then (store_le k m addr v, addr + word_of_nat k, n - word_of_nat k) else s)"

definition k_memset :: "bmem \<Rightarrow> u64 \<Rightarrow> u32 \<Rightarrow> u64 \<Rightarrow> bmem" where
  "k_memset m s c n =
     (let val8 = ucast (ucast c :: u8) :: u64;
          val16 = push_bit 8 (ucast c) OR ucast c :: u16;
          val32 = push_bit 16 (ucast val16) OR ucast val16 :: u32;
          val64 = push_bit 32 (ucast val32) OR ucast val32 :: u64
      in if n > 0 then
           let (m, addr, n) = memset_step (s AND 1 \<noteq> 0) 1 val8 (m, s, n);
               (m, addr, n) =
                 (if n \<ge> 2 then
                    let (m, addr, n) = memset_step (addr AND 3 \<noteq> 0) 2 (ucast val16) (m, addr, n)
                    in if n \<ge> 4 then
                         let (m, addr, n) = memset_step (addr AND 7 \<noteq> 0) 4 (ucast val32) (m, addr, n)
                         in memset_loop64 m addr val64 n
                       else (m, addr, n)
                  else (m, addr, n));
               (m, addr, n) = memset_step (n \<ge> 4) 4 (ucast val32) (m, addr, n);
               (m, addr, n) = memset_step (n \<ge> 2) 2 (ucast val16) (m, addr, n);
               (m, addr, n) = memset_step (n \<ge> 1) 1 val8 (m, addr, n)
           in m
         else m)"

section \<open>Copying and comparing memory\<close>

fun memcpy_loop :: "bmem \<Rightarrow> u64 \<Rightarrow> u64 \<Rightarrow> nat \<Rightarrow> bmem" where
  "memcpy_loop m pout pin 0 = m"
| "memcpy_loop m pout pin (Suc n) = memcpy_loop (m(pout := m pin)) (pout + 1) (pin + 1) n"

definition k_memcpy :: "bmem \<Rightarrow> u64 \<Rightarrow> u64 \<Rightarrow> u64 \<Rightarrow> bmem" where
  "k_memcpy m dest src n = memcpy_loop m dest src (unat n)"

fun memcmp_loop :: "bmem \<Rightarrow> u64 \<Rightarrow> u64 \<Rightarrow> nat \<Rightarrow> int" where
  "memcmp_loop m l r 0 = 0"
| "memcmp_loop m l r (Suc n) =
     (if m l = m r then memcmp_loop m (l + 1) (r + 1) n else int (unat (m l)) - int (unat (m r)))"

definition k_memcmp :: "bmem \<Rightarrow> u64 \<Rightarrow> u64 \<Rightarrow> u64 \<Rightarrow> int" where
  "k_memcmp m vl vr n = memcmp_loop m vl vr (unat n)"

section \<open>Strings\<close>

partial_function (option) strlen_scan :: "bmem \<Rightarrow> u64 \<Rightarrow> u64 option" where
  "strlen_scan m sc = (if m sc \<noteq> 0 then strlen_scan m (sc + 1) else Some sc)"

definition k_strlen :: "bmem \<Rightarrow> u64 \<Rightarrow> u64 option" where
  "k_strlen m s = do { sc \<leftarrow> strlen_scan m s; Some (sc - s) }"

fun strnlen_scan :: "bmem \<Rightarrow> nat \<Rightarrow> u64 \<Rightarrow> u64" where
  "strnlen_scan m 0 sc = sc"
| "strnlen_scan m (Suc k) sc = (if m sc \<noteq> 0 then strnlen_scan m k (sc + 1) else sc)"

definition k_strnlen :: "bmem \<Rightarrow> u64 \<Rightarrow> u64 \<Rightarrow> u64" where
  "k_strnlen m s maxlen = strnlen_scan m (unat maxlen) s - s"

partial_function (option) k_strcmp :: "bmem \<Rightarrow> u64 \<Rightarrow> u64 \<Rightarrow> u32 option" where
  "k_strcmp m cs ct =
     (let result = m cs - m ct
      in if result \<noteq> 0 \<or> m cs = 0 then Some (scast result) else k_strcmp m (cs + 1) (ct + 1))"

partial_function (option) k_strcpy :: "bmem \<Rightarrow> u64 \<Rightarrow> u64 \<Rightarrow> bmem option" where
  "k_strcpy m dest src =
     (let m' = m(dest := m src)
      in if m src \<noteq> 0 then k_strcpy m' (dest + 1) (src + 1) else Some m')"

fun strncpy_copy :: "bmem \<Rightarrow> u64 \<Rightarrow> u64 \<Rightarrow> nat \<Rightarrow> bmem \<times> u64 \<times> nat" where
  "strncpy_copy m dest src 0 = (m, dest, 0)"
| "strncpy_copy m dest src (Suc n) =
     (let m' = m(dest := m src)
      in if m src \<noteq> 0 then strncpy_copy m' (dest + 1) (src + 1) n else (m', dest + 1, n))"

fun strncpy_pad :: "bmem \<Rightarrow> u64 \<Rightarrow> nat \<Rightarrow> bmem" where
  "strncpy_pad m dest 0 = m"
| "strncpy_pad m dest (Suc n) = strncpy_pad (m(dest := 0)) (dest + 1) n"

definition k_strncpy :: "bmem \<Rightarrow> u64 \<Rightarrow> u64 \<Rightarrow> u64 \<Rightarrow> bmem" where
  "k_strncpy m dest src n =
     (let (m, dest, left) = strncpy_copy m dest src (unat n) in strncpy_pad m dest left)"

section \<open>Filling writes every byte of the range and no other\<close>

definition fill :: "bmem \<Rightarrow> u64 \<Rightarrow> u8 \<Rightarrow> nat \<Rightarrow> bmem" where
  "fill m s v n = (\<lambda>a. if unat (a - s) < n then v else m a)"

lemma fill_0 [simp]: "fill m s v 0 = m"
  by (simp add: fill_def)

lemma unat_diff_next: "a \<noteq> s \<Longrightarrow> unat (a - (s + 1)) = unat (a - s) - 1" for a s :: u64
proof -
  assume "a \<noteq> s"
  then have "0 < unat (a - s)" by (metis gr0I right_minus_eq unsigned_eq_0_iff)
  then have "unat (a - s - 1) = unat (a - s) - 1" by (subst unat_minus_small) simp_all
  then show ?thesis by (simp add: diff_diff_eq)
qed

lemma fill_Suc: "Suc n \<le> 2 ^ 64 \<Longrightarrow> fill m s v (Suc n) = fill (m(s := v)) (s + 1) v n"
proof
  fix a assume n: "Suc n \<le> 2 ^ 64"
  show "fill m s v (Suc n) a = fill (m(s := v)) (s + 1) v n a"
  proof (cases "a = s")
    case False
    then have "0 < unat (a - s)" by (metis gr0I right_minus_eq unsigned_eq_0_iff)
    then show ?thesis using False by (auto simp: fill_def unat_diff_next)
  qed (simp add: fill_def)
qed

lemma fill_fill:
  "i + j \<le> 2 ^ 64 \<Longrightarrow> fill (fill m s v i) (s + word_of_nat i) v j = fill m s v (i + j)"
proof (induction i arbitrary: m s)
  case (Suc i)
  have "fill (fill m s v (Suc i)) (s + word_of_nat (Suc i)) v j =
      fill (fill (m(s := v)) (s + 1) v i) (s + 1 + word_of_nat i) v j"
    using Suc.prems by (subst fill_Suc) (simp_all add: algebra_simps)
  also have "\<dots> = fill (m(s := v)) (s + 1) v (i + j)" using Suc by simp
  also have "\<dots> = fill m s v (Suc i + j)" using Suc.prems by (simp add: fill_Suc)
  finally show ?case .
qed simp

lemma store_le_fill:
  "(\<And>i. i < k \<Longrightarrow> ucast (drop_bit (8 * i) w) = v) \<Longrightarrow> k \<le> 2 ^ 64 \<Longrightarrow> store_le k m a w = fill m a v k"
proof (induction k arbitrary: m a w)
  case (Suc k)
  have "ucast w = v" using Suc.prems(1) [of 0] by simp
  moreover have "ucast (drop_bit (8 * i) (drop_bit 8 w)) = v" if "i < k" for i
    using Suc.prems(1) [of "Suc i"] that by (simp add: drop_bit_drop_bit add.commute)
  ultimately show ?case using Suc by (simp add: fill_Suc)
qed simp

text \<open>The bytes of the patterns.\<close>

lemma pattern_step:
  fixes w :: "'a::len word"
  assumes "\<And>b. bit w b \<longleftrightarrow> b < k \<and> bit v (b mod 8)" "LENGTH('b) = 2 * k" "8 dvd k" "LENGTH('a) \<le> LENGTH('b)"
  shows "bit (push_bit k (ucast w) OR ucast w :: 'b::len word) b \<longleftrightarrow> b < 2 * k \<and> bit v (b mod 8)"
proof -
  have "(b - k) mod 8 = b mod 8" if "k \<le> b" for b
    using that assms(3) by (metis le_add_diff_inverse2 mod_add_right_eq dvd_imp_mod_0 add.right_neutral)
  then show ?thesis using assms by (auto simp: bit_simps)
qed

lemma bytes_of_pattern:
  assumes "\<And>b. bit (w :: u64) b \<longleftrightarrow> b < 8 * k \<and> bit (v :: u8) (b mod 8)" "i < k"
  shows "ucast (drop_bit (8 * i) w) = v"
proof (rule bit_word_eqI)
  fix n assume "n < LENGTH(8)"
  then have n: "n < 8" "8 * i + n < 8 * k" using assms(2) by simp_all
  have "bit (ucast (drop_bit (8 * i) w) :: u8) n = bit w (8 * i + n)" using n(1) by (simp add: bit_simps)
  also have "\<dots> = bit v n" using n by (simp only: assms(1)) simp
  finally show "bit (ucast (drop_bit (8 * i) w) :: u8) n = bit v n" .
qed

text \<open>
  The state of \<^verbatim>\<open>k_memset\<close> after some stores: a prefix of the range is filled, the address is
  behind it and \<open>n\<close> counts the rest.
\<close>

definition memset_inv :: "bmem \<Rightarrow> u64 \<Rightarrow> u8 \<Rightarrow> nat \<Rightarrow> bmem \<times> u64 \<times> u64 \<Rightarrow> bool" where
  "memset_inv m0 s v N st \<longleftrightarrow> (case st of (m, addr, n) \<Rightarrow>
     unat n \<le> N \<and> N < 2 ^ 64 \<and> addr = s + word_of_nat (N - unat n) \<and> m = fill m0 s v (N - unat n))"

lemma memset_store_inv:
  assumes "memset_inv m0 s v N (m, addr, n)" "k \<le> unat n"
    and "\<And>i. i < k \<Longrightarrow> ucast (drop_bit (8 * i) w) = v"
  shows "memset_inv m0 s v N (store_le k m addr w, addr + word_of_nat k, n - word_of_nat k)"
proof -
  have n: "unat n \<le> N" "N < 2 ^ 64" using assms(1) by (simp_all add: memset_inv_def)
  have k: "unat (word_of_nat k :: u64) = k" using assms(2) n by (intro unat_of_nat_small) simp
  have u: "unat (n - word_of_nat k) = unat n - k" using assms(2) k by (subst unat_minus_small) simp_all
  have split: "N - (unat n - k) = N - unat n + k" using assms(2) n(1) by simp
  have "store_le k m addr w = fill m addr v k"
    using assms(3) n assms(2) by (intro store_le_fill) auto
  also have "\<dots> = fill m0 s v (N - unat n + k)"
  proof -
    have "m = fill m0 s v (N - unat n)" "addr = s + word_of_nat (N - unat n)"
      using assms(1) by (simp_all only: memset_inv_def prod.case)
    moreover have "N - unat n + k \<le> 2 ^ 64" using n assms(2) by simp
    ultimately show ?thesis by (simp only: fill_fill)
  qed
  finally show ?thesis
    using assms(1) n unfolding memset_inv_def by (simp add: u split)
qed

lemma memset_step_inv:
  assumes "memset_inv m0 s v N st" "b \<Longrightarrow> k \<le> unat (snd (snd st))"
    and "\<And>i. i < k \<Longrightarrow> ucast (drop_bit (8 * i) w) = v"
  shows "memset_inv m0 s v N (memset_step b k w st)"
  using assms(1,2) memset_store_inv [OF _ _ assms(3)]
  by (cases st) (auto simp: memset_step_def)

lemma memset_loop64_inv:
  assumes "memset_inv m0 s v N (m, addr, n)" "\<And>i. i < 8 \<Longrightarrow> ucast (drop_bit (8 * i) w) = v"
  shows "memset_inv m0 s v N (memset_loop64 m addr w n) \<and> unat (snd (snd (memset_loop64 m addr w n))) < 8"
  using assms(1)
proof (induction "unat n" arbitrary: m addr n rule: less_induct)
  case less
  show ?case
  proof (cases "8 \<le> n")
    case True
    then have n: "8 \<le> unat n" by (simp add: word_le_nat_alt)
    then have "unat (n - 8) < unat n" by (subst unat_minus_small) simp_all
    moreover have "memset_inv m0 s v N (store_le 8 m addr w, addr + 8, n - 8)"
      using memset_store_inv [OF less.prems, of 8 w] n assms(2) by simp
    ultimately have "memset_inv m0 s v N (memset_loop64 (store_le 8 m addr w) (addr + 8) w (n - 8)) \<and>
        unat (snd (snd (memset_loop64 (store_le 8 m addr w) (addr + 8) w (n - 8)))) < 8"
      by (rule less.hyps)
    moreover have "memset_loop64 m addr w n = memset_loop64 (store_le 8 m addr w) (addr + 8) w (n - 8)"
      using True by (subst memset_loop64.simps) simp
    ultimately show ?thesis by simp
  next
    case False
    then have "memset_loop64 m addr w n = (m, addr, n)" by (subst memset_loop64.simps) simp
    then show ?thesis using less.prems False by (simp add: word_le_nat_alt)
  qed
qed

lemma memset_step_rest:
  "memset_inv m0 s v N st \<Longrightarrow> b = (word_of_nat k \<le> snd (snd st)) \<Longrightarrow> k < 2 ^ 64 \<Longrightarrow>
     unat (snd (snd st)) < 2 * k \<Longrightarrow> unat (snd (snd (memset_step b k w st))) < k"
  by (cases st) (auto simp: memset_step_def word_le_nat_alt unat_of_nat_small unat_minus_small)

lemma memset_values:
  fixes c :: u32
  assumes "unat c < 256"
  defines "val16 \<equiv> push_bit 8 (ucast c) OR ucast c :: u16"
  defines "val32 \<equiv> push_bit 16 (ucast val16) OR ucast val16 :: u32"
  defines "val64 \<equiv> push_bit 32 (ucast val32) OR ucast val32 :: u64"
  shows "i < 1 \<Longrightarrow> ucast (drop_bit (8 * i) (ucast (ucast c :: u8) :: u64)) = (ucast c :: u8)"
    and "i < 2 \<Longrightarrow> ucast (drop_bit (8 * i) (ucast val16 :: u64)) = (ucast c :: u8)"
    and "i < 4 \<Longrightarrow> ucast (drop_bit (8 * i) (ucast val32 :: u64)) = (ucast c :: u8)"
    and "i < 8 \<Longrightarrow> ucast (drop_bit (8 * i) val64) = (ucast c :: u8)"
proof -
  define v where "v = (ucast c :: u8)"
  have c: "bit c b \<longleftrightarrow> b < 8 \<and> bit v b" for b
    using not_bit_small [of c 8 b] assms(1) by (cases "b < 8") (simp_all add: v_def bit_simps)
  have mod8: "(b - 8) mod 8 = b mod 8" if "8 \<le> b" for b :: nat using that by (metis le_mod_geq)
  have v16: "bit val16 b \<longleftrightarrow> b < 16 \<and> bit v (b mod 8)" for b
  proof (cases "b < 8")
    case True
    then show ?thesis by (simp add: val16_def bit_simps c)
  next
    case False
    then have "b < 16 \<Longrightarrow> b mod 8 = b - 8" by (simp add: le_mod_geq)
    then show ?thesis using False by (auto simp: val16_def bit_simps c)
  qed
  have v32: "bit val32 b \<longleftrightarrow> b < 32 \<and> bit v (b mod 8)" for b
    using pattern_step [OF v16, where 'b = 32] by (simp add: val32_def)
  have v64: "bit val64 b \<longleftrightarrow> b < 64 \<and> bit v (b mod 8)" for b
    using pattern_step [OF v32, where 'b = 64] by (simp add: val64_def)
  show "i < 1 \<Longrightarrow> ucast (drop_bit (8 * i) (ucast (ucast c :: u8) :: u64)) = (ucast c :: u8)"
    by (simp add: v_def [symmetric]) (intro bit_word_eqI, simp add: bit_simps)
  show "i < 2 \<Longrightarrow> ucast (drop_bit (8 * i) (ucast val16 :: u64)) = (ucast c :: u8)"
    unfolding v_def [symmetric] by (rule bytes_of_pattern [of _ 2]) (auto simp: bit_simps v16)
  show "i < 4 \<Longrightarrow> ucast (drop_bit (8 * i) (ucast val32 :: u64)) = (ucast c :: u8)"
    unfolding v_def [symmetric] by (rule bytes_of_pattern [of _ 4]) (auto simp: bit_simps v32)
  show "i < 8 \<Longrightarrow> ucast (drop_bit (8 * i) val64) = (ucast c :: u8)"
    unfolding v_def [symmetric] by (rule bytes_of_pattern [of _ 8]) (auto simp: bit_simps v64)
qed

lemma k_memset_fill:
  assumes "unat c < 256"
  shows "k_memset m s c n = fill m s (ucast c) (unat n)"
proof (cases "n = 0")
  case True
  then show ?thesis by (simp add: k_memset_def Let_def)
next
  case False
  define v8 v16 v32 v64 where
    "v8 = (ucast (ucast c :: u8) :: u64)" "v16 = (push_bit 8 (ucast c) OR ucast c :: u16)"
    "v32 = (push_bit 16 (ucast v16) OR ucast v16 :: u32)" "v64 = (push_bit 32 (ucast v32) OR ucast v32 :: u64)"
  note vals = memset_values [OF assms, folded v8_v16_v32_v64_def(1,2), folded v8_v16_v32_v64_def(3),
      folded v8_v16_v32_v64_def(4)]
  let ?inv = "memset_inv m s (ucast c) (unat n)"
  note step = memset_step_inv [of m s "ucast c" "unat n"]
  have inv0: "?inv (m, s, n)" by (simp add: memset_inv_def) (rule unsigned_less [of n, simplified])
  define s1 where "s1 = memset_step (s AND 1 \<noteq> 0) 1 v8 (m, s, n)"
  have "?inv s1" unfolding s1_def
    using False by (intro step inv0 vals) (simp_all add: Suc_le_eq unat_pos_iff)
  define s2 where "s2 = memset_step (fst (snd s1) AND 3 \<noteq> 0) 2 (ucast v16) s1"
  have s2: "?inv s2" if "2 \<le> snd (snd s1)"
    unfolding s2_def using that by (intro step \<open>?inv s1\<close> vals) (simp add: word_le_nat_alt)
  define s3 where "s3 = memset_step (fst (snd s2) AND 7 \<noteq> 0) 4 (ucast v32) s2"
  have s3: "?inv s3" if "2 \<le> snd (snd s1)" "4 \<le> snd (snd s2)"
    unfolding s3_def using that by (intro step s2 vals) (simp_all add: word_le_nat_alt)
  define s4 where "s4 = (if 2 \<le> snd (snd s1)
      then if 4 \<le> snd (snd s2) then memset_loop64 (fst s3) (fst (snd s3)) v64 (snd (snd s3)) else s2 else s1)"
  have s4: "?inv s4 \<and> unat (snd (snd s4)) < 8"
    using \<open>?inv s1\<close> s2 s3 memset_loop64_inv [of m s "ucast c" "unat n" "fst s3" "fst (snd s3)" "snd (snd s3)" v64] vals(4)
    by (auto simp: s4_def word_le_nat_alt)
  define s5 where "s5 = memset_step (4 \<le> snd (snd s4)) 4 (ucast v32) s4"
  have s5: "?inv s5" "unat (snd (snd s5)) < 4"
    unfolding s5_def using s4 memset_step_rest [of m s "ucast c" "unat n" s4 "4 \<le> snd (snd s4)" 4 "ucast v32"]
    by (auto intro!: step vals simp: word_le_nat_alt)
  define s6 where "s6 = memset_step (2 \<le> snd (snd s5)) 2 (ucast v16) s5"
  have s6: "?inv s6" "unat (snd (snd s6)) < 2"
    unfolding s6_def using s5 memset_step_rest [of m s "ucast c" "unat n" s5 "2 \<le> snd (snd s5)" 2 "ucast v16"]
    by (auto intro!: step vals simp: word_le_nat_alt)
  define s7 where "s7 = memset_step (1 \<le> snd (snd s6)) 1 v8 s6"
  have s7: "?inv s7" "unat (snd (snd s7)) < 1"
    unfolding s7_def using s6 memset_step_rest [of m s "ucast c" "unat n" s6 "1 \<le> snd (snd s6)" 1 v8]
    by (auto intro!: step vals simp: word_le_nat_alt)
  have "k_memset m s c n = fst s7"
    using False unfolding k_memset_def Let_def v8_v16_v32_v64_def [symmetric] s1_def [symmetric]
    by (simp add: word_neq_0_conv [symmetric] s7_def s6_def s5_def s4_def s3_def s2_def split_beta)
  also have "\<dots> = fill m s (ucast c) (unat n)"
    using s7 by (cases s7) (simp add: memset_inv_def)
  finally show ?thesis .
qed
section \<open>Copying and comparing\<close>

text \<open>No byte is written before it has been read.\<close>

definition copy_safe :: "u64 \<Rightarrow> u64 \<Rightarrow> nat \<Rightarrow> bool" where
  "copy_safe dest src n \<longleftrightarrow>
     (\<forall>i j. i < j \<longrightarrow> j < n \<longrightarrow> dest + word_of_nat i \<noteq> src + word_of_nat j)"

lemma copy_safe_Suc:
  assumes "copy_safe dest src (Suc n)"
  shows "copy_safe (dest + 1) (src + 1) n" "0 < j \<Longrightarrow> j \<le> n \<Longrightarrow> dest \<noteq> src + word_of_nat j"
proof -
  have "dest + word_of_nat (Suc i) \<noteq> src + word_of_nat (Suc j)" if "i < j" "j < n" for i j
    using assms that unfolding copy_safe_def by blast
  then show "copy_safe (dest + 1) (src + 1) n" by (simp add: copy_safe_def algebra_simps)
  show "0 < j \<Longrightarrow> j \<le> n \<Longrightarrow> dest \<noteq> src + word_of_nat j"
    using assms [unfolded copy_safe_def, rule_format, of 0 j] by simp
qed

lemma memcpy_loop_eq:
  assumes "copy_safe dest src n" "n \<le> 2 ^ 64"
  shows "memcpy_loop m dest src n = (\<lambda>a. if unat (a - dest) < n then m (src + (a - dest)) else m a)"
  using assms
proof (induction n arbitrary: m dest src)
  case (Suc n)
  note safe = copy_safe_Suc [OF Suc.prems(1)]
  show ?case
  proof
    fix a
    have step: "memcpy_loop m dest src (Suc n) a =
       (if unat (a - (dest + 1)) < n then (m(dest := m src)) (src + 1 + (a - (dest + 1)))
        else (m(dest := m src)) a)"
      using Suc.IH [OF safe(1)] Suc.prems(2) by simp
    show "memcpy_loop m dest src (Suc n) a =
       (if unat (a - dest) < Suc n then m (src + (a - dest)) else m a)"
    proof (cases "a = dest")
      case True
      have "unat (dest - (dest + 1)) = 2 ^ 64 - 1"
        by (simp add: unsigned_minus_1_eq_mask mask_eq_exp_minus_1)
      then show ?thesis using True step Suc.prems(2) by simp
    next
      case False
      then have pos: "0 < unat (a - dest)" by (simp add: unat_pos_iff)
      have "src + 1 + (a - (dest + 1)) = src + (a - dest)" by simp
      moreover have "src + (a - dest) \<noteq> dest" if "unat (a - dest) < Suc n"
        using safe(2) [OF pos] that by auto
      ultimately show ?thesis using step False pos by (auto simp: unat_diff_next)
    qed
  qed
qed simp

lemma copy_safe_below:
  assumes "unat dest \<le> unat src" "unat src + n \<le> 2 ^ 64"
  shows "copy_safe dest src n"
  unfolding copy_safe_def
proof (intro allI impI notI)
  fix i j assume ij: "i < j" "j < n" and eq: "dest + word_of_nat i = src + word_of_nat j"
  have small: "unat (word_of_nat i :: u64) = i" "unat (word_of_nat j :: u64) = j"
    using ij assms by (simp_all add: unat_of_nat_small)
  then have "unat (dest + word_of_nat i) = unat dest + i" "unat (src + word_of_nat j) = unat src + j"
    using ij assms by (subst unat_add_small; simp)+
  with eq ij assms(1) show False by simp
qed

lemma memcmp_loop_equal: "(\<forall>i<n. m (l + word_of_nat i) = m (r + word_of_nat i)) \<Longrightarrow> memcmp_loop m l r n = 0"
proof (induction n arbitrary: l r)
  case (Suc n)
  have "m l = m r" using Suc.prems [rule_format, of 0] by simp
  moreover have "m (l + 1 + word_of_nat i) = m (r + 1 + word_of_nat i)" if "i < n" for i
    using Suc.prems [rule_format, of "Suc i"] that by (simp add: add.assoc)
  ultimately show ?case using Suc.IH by simp
qed simp

lemma memcmp_loop_differ:
  "i < n \<Longrightarrow> m (l + word_of_nat i) \<noteq> m (r + word_of_nat i) \<Longrightarrow> \<forall>j<i. m (l + word_of_nat j) = m (r + word_of_nat j) \<Longrightarrow>
     memcmp_loop m l r n = int (unat (m (l + word_of_nat i))) - int (unat (m (r + word_of_nat i)))"
proof (induction n arbitrary: i l r)
  case (Suc n)
  show ?case
  proof (cases "i = 0")
    case False
    then obtain k where k: "i = Suc k" using not0_implies_Suc by auto
    have "m l = m r" using Suc.prems(3) [rule_format, of 0] k by simp
    moreover have "\<forall>j<k. m (l + 1 + word_of_nat j) = m (r + 1 + word_of_nat j)"
    proof (intro allI impI)
      fix j assume "j < k"
      then show "m (l + 1 + word_of_nat j) = m (r + 1 + word_of_nat j)"
        using Suc.prems(3) [rule_format, of "Suc j"] k by (simp add: add.assoc)
    qed
    ultimately show ?thesis using Suc.IH [of k "l + 1" "r + 1"] Suc.prems(1,2) k by (simp add: add.assoc)
  qed (use Suc.prems in simp)
qed simp

section \<open>Terminated strings\<close>

fun c_string :: "bmem \<Rightarrow> u64 \<Rightarrow> u8 list \<Rightarrow> bool" where
  "c_string m s [] \<longleftrightarrow> m s = 0"
| "c_string m s (x # xs) \<longleftrightarrow> m s = x \<and> x \<noteq> 0 \<and> c_string m (s + 1) xs"

lemma strlen_scan_eq: "c_string m s xs \<Longrightarrow> strlen_scan m s = Some (s + word_of_nat (length xs))"
proof (induction xs arbitrary: s)
  case Nil
  then show ?case by (subst strlen_scan.simps) simp
next
  case (Cons x xs)
  then have "strlen_scan m s = strlen_scan m (s + 1)" by (subst strlen_scan.simps) simp
  with Cons show ?case by (simp add: algebra_simps)
qed

lemma strnlen_scan_eq:
  "c_string m s xs \<Longrightarrow> strnlen_scan m n s = s + word_of_nat (min n (length xs))"
proof (induction n arbitrary: s xs)
  case (Suc n)
  then show ?case by (cases xs) (auto simp: algebra_simps)
qed simp

lemma scast_byte_zero: "(scast (d :: u8) :: u32) = 0 \<longleftrightarrow> d = 0"
proof
  assume "(scast d :: u32) = 0"
  moreover have "ucast (scast d :: u32) = d" by (rule bit_word_eqI) (auto simp: bit_simps)
  ultimately show "d = 0" by (metis unsigned_0)
qed simp

text \<open>The strings agree up to \<open>i\<close>, and differ there unless both end.\<close>

definition first_difference :: "u8 list \<Rightarrow> u8 list \<Rightarrow> nat \<Rightarrow> bool" where
  "first_difference xs ys i \<longleftrightarrow> i \<le> length xs \<and> i \<le> length ys \<and> take i xs = take i ys \<and>
     ((xs @ [0]) ! i = (ys @ [0]) ! i \<longrightarrow> xs = ys \<and> i = length xs)"

lemma k_strcmp_eq:
  assumes "c_string m s xs" "c_string m t ys"
  shows "\<exists>i. first_difference xs ys i \<and> k_strcmp m s t = Some (scast ((xs @ [0]) ! i - (ys @ [0]) ! i))"
  using assms
proof (induction xs arbitrary: s t ys)
  case Nil
  then have "k_strcmp m s t = Some (scast (m s - m t))" by (subst k_strcmp.simps) simp
  then show ?case using Nil by (intro exI [of _ 0]) (cases ys; auto simp: first_difference_def)
next
  case (Cons x xs)
  show ?case
  proof (cases "m s = m t")
    case True
    then obtain ys' where ys: "ys = x # ys'" "c_string m (t + 1) ys'"
      using Cons.prems by (cases ys) auto
    have "k_strcmp m s t = k_strcmp m (s + 1) (t + 1)"
      using True Cons.prems(1) by (subst k_strcmp.simps) simp
    moreover obtain i where "first_difference xs ys' i" "k_strcmp m (s + 1) (t + 1) = Some (scast ((xs @ [0]) ! i - (ys' @ [0]) ! i))"
      using Cons.IH [of "s + 1" "t + 1" ys'] Cons.prems(1) ys(2) by auto
    ultimately show ?thesis using ys(1) by (intro exI [of _ "Suc i"]) (simp add: first_difference_def)
  next
    case False
    then have "k_strcmp m s t = Some (scast (m s - m t))" by (subst k_strcmp.simps) simp
    then show ?thesis using False Cons.prems by (intro exI [of _ 0]) (cases ys; auto simp: first_difference_def)
  qed
qed

lemma c_string_nth:
  "c_string m s xs \<Longrightarrow> i \<le> length xs \<Longrightarrow> m (s + word_of_nat i) = (xs @ [0]) ! i"
proof (induction xs arbitrary: s i)
  case (Cons x xs)
  show ?case
  proof (cases i)
    case (Suc k)
    then show ?thesis using Cons.IH [of "s + 1" k] Cons.prems by (simp add: add.assoc)
  qed (use Cons.prems in simp)
qed simp

lemma c_string_nonzero: "c_string m s xs \<Longrightarrow> 0 \<notin> set xs"
  by (induction xs arbitrary: s) auto

lemma c_string_length:
  assumes "c_string m s xs"
  shows "length xs < 2 ^ 64"
proof (rule ccontr)
  assume "\<not> ?thesis"
  then obtain i where i: "length xs = i + 2 ^ 64" by (metis add.commute le_iff_add not_le)
  have "(word_of_nat (2 ^ 64) :: u64) = 0" by (simp add: word_unat_eq_iff unsigned_of_nat)
  then have "m (s + word_of_nat (length xs)) = m (s + word_of_nat i)" unfolding i of_nat_add by (simp only: add_0_right)
  moreover have "m (s + word_of_nat i) = xs ! i" "m (s + word_of_nat (length xs)) = 0"
    using c_string_nth [OF assms, of i] c_string_nth [OF assms, of "length xs"] i by (simp_all add: nth_append)
  moreover have "xs ! i \<in> set xs" using i by (intro nth_mem) simp
  ultimately show False using c_string_nonzero [OF assms] by simp
qed

lemma c_string_cong:
  "c_string m s xs \<Longrightarrow> \<forall>i\<le>length xs. m' (s + word_of_nat i) = m (s + word_of_nat i) \<Longrightarrow> c_string m' s xs"
proof (induction xs arbitrary: s)
  case (Cons x xs)
  have "m' (s + 1 + word_of_nat i) = m (s + 1 + word_of_nat i)" if "i \<le> length xs" for i
    using Cons.prems(2) [rule_format, of "Suc i"] that by (simp add: add.assoc)
  moreover have "m' s = m s" using Cons.prems(2) [rule_format, of 0] by simp
  ultimately show ?case using Cons by simp
qed auto


lemma k_strcpy_eq:
  assumes "c_string m src xs" "copy_safe dest src (Suc (length xs))"
  shows "k_strcpy m dest src = Some (memcpy_loop m dest src (Suc (length xs)))"
  using assms
proof (induction xs arbitrary: m dest src)
  case Nil
  then show ?case by (subst k_strcpy.simps) simp
next
  case (Cons x xs)
  note safe = copy_safe_Suc [OF Cons.prems(2)]
  let ?m = "m(dest := m src)"
  have "c_string ?m (src + 1) xs"
  proof (rule c_string_cong)
    show "c_string m (src + 1) xs" using Cons.prems(1) by simp
    have "src + 1 + word_of_nat i \<noteq> dest" if "i \<le> length xs" for i
      using safe(2) [of "Suc i"] that by (auto simp: algebra_simps)
    then show "\<forall>i\<le>length xs. ?m (src + 1 + word_of_nat i) = m (src + 1 + word_of_nat i)" by simp
  qed
  moreover have "copy_safe (dest + 1) (src + 1) (Suc (length xs))" using safe(1) by simp
  ultimately have "k_strcpy ?m (dest + 1) (src + 1) = Some (memcpy_loop ?m (dest + 1) (src + 1) (Suc (length xs)))"
    by (rule Cons.IH)
  moreover have "k_strcpy m dest src = k_strcpy ?m (dest + 1) (src + 1)"
    using Cons.prems(1) by (subst k_strcpy.simps) simp
  ultimately show ?case by simp
qed

text \<open>The destination and the string with its terminator do not overlap.\<close>

definition apart :: "u64 \<Rightarrow> nat \<Rightarrow> u64 \<Rightarrow> nat \<Rightarrow> bool" where
  "apart dest n src k \<longleftrightarrow> (\<forall>i<n. \<forall>j<k. dest + word_of_nat i \<noteq> src + word_of_nat j)"

lemma apart_above:
  assumes "unat src + k \<le> unat dest" "unat dest + n \<le> 2 ^ 64"
  shows "apart dest n src k"
  unfolding apart_def
proof (intro allI impI notI)
  fix i j assume ij: "i < n" "j < k" and eq: "dest + word_of_nat i = src + word_of_nat j"
  have small: "unat (word_of_nat i :: u64) = i" "unat (word_of_nat j :: u64) = j"
    using ij assms by (simp_all add: unat_of_nat_small)
  then have "unat (dest + word_of_nat i) = unat dest + i" "unat (src + word_of_nat j) = unat src + j"
    using ij assms by (subst unat_add_small; simp)+
  with eq ij assms(1) show False by simp
qed

lemma strncpy_pad_fill: "n \<le> 2 ^ 64 \<Longrightarrow> strncpy_pad m dest n = fill m dest 0 n"
  by (induction n arbitrary: m dest) (simp_all add: fill_Suc)

lemma apart_Suc:
  assumes "apart dest (Suc n) src (Suc k)"
  shows "apart (dest + 1) n (src + 1) k" "j \<le> k \<Longrightarrow> src + word_of_nat j \<noteq> dest"
proof -
  have "dest + word_of_nat (Suc i) \<noteq> src + word_of_nat (Suc j)" if "i < n" "j < k" for i j
    using assms that unfolding apart_def by blast
  then show "apart (dest + 1) n (src + 1) k" by (simp add: apart_def add.assoc)
  show "j \<le> k \<Longrightarrow> src + word_of_nat j \<noteq> dest"
    using assms [unfolded apart_def, rule_format, of 0 j] by auto
qed

text \<open>\<open>holds m src zs\<close>: the bytes from \<open>src\<close> on are \<open>zs\<close>.\<close>

definition holds :: "bmem \<Rightarrow> u64 \<Rightarrow> u8 list \<Rightarrow> bool" where
  "holds m src zs \<longleftrightarrow> (\<forall>i<length zs. m (src + word_of_nat i) = zs ! i)"

lemma holds_Cons: "holds m src (z # zs) \<longleftrightarrow> m src = z \<and> holds m (src + 1) zs"
  unfolding holds_def by (auto simp: add.assoc less_Suc_eq_0_disj nth_Cons')

lemma k_strncpy_aux:
  assumes "holds m src (take n (xs @ [0]))" "0 \<notin> set xs" "copy_safe dest src (min n (Suc (length xs)))" "n \<le> 2 ^ 64"
  shows "(case strncpy_copy m dest src n of (m', d, left) \<Rightarrow> strncpy_pad m' d left) =
    (\<lambda>a. if unat (a - dest) < n then if unat (a - dest) < length xs then xs ! unat (a - dest) else 0 else m a)"
  using assms
proof (induction n arbitrary: m dest src xs)
  case (Suc n)
  show ?case
  proof (cases xs)
    case Nil
    then have "m src = 0" using Suc.prems(1) by (simp add: holds_Cons)
    then have "(case strncpy_copy m dest src (Suc n) of (m', d, left) \<Rightarrow> strncpy_pad m' d left) =
        fill (m(dest := 0)) (dest + 1) 0 n"
      using Suc.prems(4) by (simp add: strncpy_pad_fill)
    also have "\<dots> = fill m dest 0 (Suc n)" using Suc.prems(4) by (simp add: fill_Suc)
    finally show ?thesis using Nil by (simp add: fill_def fun_eq_iff)
  next
    case (Cons x ys)
    let ?m = "m(dest := x)"
    have x: "m src = x" "x \<noteq> 0" "holds m (src + 1) (take n (ys @ [0]))" using Suc.prems(1,2) Cons by (auto simp: holds_Cons)
    have "copy_safe dest src (Suc (min n (Suc (length ys))))" using Suc.prems(3) Cons by simp
    note safe = copy_safe_Suc [OF this]
    have "holds ?m (src + 1) (take n (ys @ [0]))"
      unfolding holds_def
    proof (intro allI impI)
      fix i assume i: "i < length (take n (ys @ [0]))"
      then have "i < min n (Suc (length ys))" by (simp only: length_take length_append_singleton min.commute)
      then have "dest \<noteq> src + word_of_nat (Suc i)" by (intro safe(2)) simp_all
      then have "?m (src + 1 + word_of_nat i) = m (src + 1 + word_of_nat i)" by (auto simp: add.assoc)
      then show "?m (src + 1 + word_of_nat i) = take n (ys @ [0]) ! i" using x(3) i by (simp add: holds_def)
    qed
    then have IH: "(case strncpy_copy ?m (dest + 1) (src + 1) n of (m', d, left) \<Rightarrow> strncpy_pad m' d left) a =
        (if unat (a - (dest + 1)) < n then if unat (a - (dest + 1)) < length ys then ys ! unat (a - (dest + 1)) else 0
         else ?m a)" for a
      using Suc.IH [OF _ _ safe(1), of ?m] Suc.prems(2,4) Cons by (simp only: list.simps insert_iff de_Morgan_disj Suc_leD simp_thms)
    have st: "strncpy_copy m dest src (Suc n) = strncpy_copy ?m (dest + 1) (src + 1) n"
      using x by simp
    show ?thesis
    proof
      fix a
      show "(case strncpy_copy m dest src (Suc n) of (m', d, left) \<Rightarrow> strncpy_pad m' d left) a =
        (if unat (a - dest) < Suc n then if unat (a - dest) < length xs then xs ! unat (a - dest) else 0 else m a)"
      proof (cases "a = dest")
        case True
        have "unat (dest - (dest + 1)) = 2 ^ 64 - 1"
          by (simp add: unsigned_minus_1_eq_mask mask_eq_exp_minus_1)
        then show ?thesis unfolding st IH using Suc.prems(4) True Cons by simp
      next
        case False
        then have pos: "0 < unat (a - dest)" by (simp add: unat_pos_iff)
        then show ?thesis unfolding st IH using False Cons by (auto simp: unat_diff_next nth_Cons')
      qed
    qed
  qed
qed (simp add: fill_def)

section \<open>Properties\<close>

lemma k_strncpy_eq_safe:
  assumes "c_string m src xs" "copy_safe dest src (min (unat n) (Suc (length xs)))"
  shows "k_strncpy m dest src n =
    (\<lambda>a. if unat (a - dest) < unat n then if unat (a - dest) < length xs then xs ! unat (a - dest) else 0 else m a)"
proof -
  have "holds m src (take (unat n) (xs @ [0]))" unfolding holds_def using c_string_nth [OF assms(1)]
    by (simp add: nth_take del: take_append)
  then show ?thesis unfolding k_strncpy_def Let_def using unat_u64_bound [of n] c_string_nonzero [OF assms(1)] assms(2)
    by (intro k_strncpy_aux) simp_all
qed

lemma k_strncpy_eq:
  assumes "c_string m src xs" "apart dest (unat n) src (Suc (length xs))"
  shows "k_strncpy m dest src n =
    (\<lambda>a. if unat (a - dest) < unat n then if unat (a - dest) < length xs then xs ! unat (a - dest) else 0 else m a)"
  using assms(2) by (intro k_strncpy_eq_safe [OF assms(1)]) (auto simp: apart_def copy_safe_def)

lemma k_strncpy_frame_aux:
  "n \<le> 2 ^ 64 \<Longrightarrow> n \<le> unat (a - dest) \<Longrightarrow>
     (case strncpy_copy m dest src n of (m', d, left) \<Rightarrow> strncpy_pad m' d left) a = m a"
proof (induction n arbitrary: m dest src)
  case (Suc n)
  then have "0 < unat (a - dest)" by simp
  then have ne: "a \<noteq> dest" by auto
  with Suc.prems(2) have nx: "n \<le> unat (a - (dest + 1))" by (simp add: unat_diff_next)
  show ?case
  proof (cases "m src = 0")
    case True
    then show ?thesis using Suc.prems(1) nx ne by (simp add: strncpy_pad_fill fill_def)
  next
    case False
    let ?m = "m(dest := m src)"
    have "(case strncpy_copy ?m (dest + 1) (src + 1) n of (m', d, left) \<Rightarrow> strncpy_pad m' d left) a = ?m a"
      using Suc.prems(1) nx by (intro Suc.IH) simp_all
    also have "?m a = m a" using ne by simp
    finally show ?thesis using False by (simp only: strncpy_copy.simps Let_def if_True not_False_eq_True simp_thms)
  qed
qed simp

lemma k_strncpy_frame: "unat n \<le> unat (a - dest) \<Longrightarrow> k_strncpy m dest src n a = m a"
  unfolding k_strncpy_def Let_def using unat_u64_bound [of n] by (intro k_strncpy_frame_aux) simp_all

lemma apart_mono:
  assumes "apart dest n src k" "j < k" "n \<le> 2 ^ 64"
  shows "n \<le> unat (src + word_of_nat j - dest)"
proof (rule ccontr)
  assume "\<not> ?thesis"
  then have "dest + word_of_nat (unat (src + word_of_nat j - dest)) \<noteq> src + word_of_nat j"
    using assms(1,2) unfolding apart_def by (simp only: not_le) blast
  then show False by simp
qed

lemma apart_within:
  assumes "apart base n src k" "unat d + m \<le> n"
  shows "apart (base + d) m src k"
  unfolding apart_def
proof (intro allI impI)
  fix i j assume "i < m" "j < k"
  then have "base + word_of_nat (unat d + i) \<noteq> src + word_of_nat j"
    using assms(1) [unfolded apart_def, rule_format, of "unat d + i" j] assms(2) by linarith
  then show "base + d + word_of_nat i \<noteq> src + word_of_nat j" by (simp add: add.assoc)
qed

text \<open>
  C14.  \<^verbatim>\<open>k_memset\<close>, with all its alignment cases and wide stores, writes the byte to every
  address of the range and to no other, for every start address and length and every
  \<^verbatim>\<open>c\<close> from 0 to 255.
\<close>

theorem k_memset_exact:
  assumes "unat c < 256"
  shows "k_memset m s c n a = (if unat (a - s) < unat n then ucast c else m a)"
  using k_memset_fill [OF assms] by (simp add: fill_def)

theorem k_memset_exact_witness:
  "unat (0xab :: u32) < 256 \<and> k_memset (\<lambda>_. 7) 0x1001 0xab 14 0x100e = 0xab \<and>
   k_memset (\<lambda>_. 7) 0x1001 0xab 14 0x100f = 7"
  using k_memset_exact [of "0xab" "\<lambda>_. 7" "0x1001" 14 "0x100e"] k_memset_exact [of "0xab" "\<lambda>_. 7" "0x1001" 14 "0x100f"]
  by simp

text \<open>
  C15.  \<^verbatim>\<open>k_memcpy\<close> and \<^verbatim>\<open>k_memcmp\<close>.  \<^verbatim>\<open>k_memcpy\<close> copies the bytes of the source range to the destination range and
  changes nothing else, also when the ranges overlap as long as no byte is written before it has been read, in particular
  for every move to a lower address.  \<^verbatim>\<open>k_memcmp\<close> is 0 when all bytes agree and otherwise the difference of the first two that
  do not.
\<close>

theorem k_memcpy_memcmp_exact:
  assumes "copy_safe dest src (unat n)"
  shows "k_memcpy m dest src n = (\<lambda>a. if unat (a - dest) < unat n then m (src + (a - dest)) else m a) \<and>
    ((\<forall>i<unat n. m (l + word_of_nat i) = m (r + word_of_nat i)) \<longrightarrow> k_memcmp m l r n = 0) \<and>
    (\<forall>i<unat n. m (l + word_of_nat i) \<noteq> m (r + word_of_nat i) \<and> (\<forall>j<i. m (l + word_of_nat j) = m (r + word_of_nat j)) \<longrightarrow>
      k_memcmp m l r n = int (unat (m (l + word_of_nat i))) - int (unat (m (r + word_of_nat i))))"
proof -
  have "unat n \<le> 2 ^ 64" using unat_u64_bound [of n] by simp
  then show ?thesis unfolding k_memcpy_def k_memcmp_def
    using memcpy_loop_eq [OF assms] memcmp_loop_equal memcmp_loop_differ by blast
qed

text \<open>A move by one byte to a lower address, over overlapping ranges.\<close>

theorem k_memcpy_memcmp_exact_witness:
  "k_memcpy (\<lambda>a. ucast a) 0x10 0x11 3 = (\<lambda>a. if unat (a - 0x10) < 3 then ucast (a + 1) else ucast a) \<and>
   k_memcmp (\<lambda>a. if a < 0x12 then 7 else ucast a) 0x10 0x11 3 = 7 - 18"
proof -
  have "copy_safe 0x10 0x11 (unat (3 :: u64))" by (rule copy_safe_below) simp_all
  note t = k_memcpy_memcmp_exact [OF this]
  let ?m = "\<lambda>a :: u64. if a < 0x12 then 7 else ucast a :: u8"
  have "k_memcmp ?m 0x10 0x11 3 = int (unat (?m (0x10 + word_of_nat 1))) - int (unat (?m (0x11 + word_of_nat 1)))"
    using t [of ?m "0x10" "0x11", THEN conjunct2, THEN conjunct2, rule_format, of 1] by simp
  then have "k_memcmp ?m 0x10 0x11 3 = 7 - 18" by simp
  moreover have "(0x11 :: u64) + (a - 0x10) = a + 1" for a by (simp add: algebra_simps)
  then have "k_memcpy (\<lambda>a. ucast a) 0x10 0x11 3 = (\<lambda>a. if unat (a - 0x10) < unat (3 :: u64) then ucast (a + 1) else ucast a)"
    unfolding t [of "\<lambda>a. ucast a" 0 0, THEN conjunct1] by presburger
  ultimately show ?thesis by simp
qed

text \<open>
  C16.  The functions on terminated strings.  \<^verbatim>\<open>k_strlen\<close> and \<^verbatim>\<open>k_strnlen\<close> return and give the length, the latter up to its
  bound.  \<^verbatim>\<open>k_strcmp\<close> returns the difference, as a signed byte, of the characters at the first position where the strings
  differ, and 0 for equal strings only.  \<^verbatim>\<open>k_strcpy\<close> returns and copies the string with its terminator; \<^verbatim>\<open>k_strncpy\<close> writes
  exactly \<open>n\<close> bytes, the string cut off at \<open>n\<close> or padded with zeros.  Both may overlap their source as long as no
  byte is written before it has been read.
\<close>

theorem string_functions_correct:
  assumes "c_string m src xs" "c_string m t ys"
  shows "k_strlen m src = Some (word_of_nat (length xs)) \<and>
    k_strnlen m src n = word_of_nat (min (unat n) (length xs)) \<and>
    (\<exists>i. first_difference xs ys i \<and> k_strcmp m src t = Some (scast ((xs @ [0]) ! i - (ys @ [0]) ! i))) \<and>
    (k_strcmp m src t = Some 0 \<longleftrightarrow> xs = ys) \<and>
    (copy_safe dest src (Suc (length xs)) \<longrightarrow> k_strcpy m dest src =
      Some (\<lambda>a. if unat (a - dest) < Suc (length xs) then (xs @ [0]) ! unat (a - dest) else m a)) \<and>
    (copy_safe dest src (min (unat n) (Suc (length xs))) \<longrightarrow> k_strncpy m dest src n =
      (\<lambda>a. if unat (a - dest) < unat n
           then if unat (a - dest) < length xs then xs ! unat (a - dest) else 0 else m a))"
proof (intro conjI impI)
  show "k_strlen m src = Some (word_of_nat (length xs))" by (simp add: k_strlen_def strlen_scan_eq [OF assms(1)])
  show "k_strnlen m src n = word_of_nat (min (unat n) (length xs))" by (simp add: k_strnlen_def strnlen_scan_eq [OF assms(1)])
  show c: "\<exists>i. first_difference xs ys i \<and> k_strcmp m src t = Some (scast ((xs @ [0]) ! i - (ys @ [0]) ! i))" by (rule k_strcmp_eq [OF assms])
  then show "k_strcmp m src t = Some 0 \<longleftrightarrow> xs = ys" by (auto simp: scast_byte_zero first_difference_def)
  assume s: "copy_safe dest src (Suc (length xs))"
  have "m (src + (a - dest)) = (xs @ [0]) ! unat (a - dest)" if "unat (a - dest) < Suc (length xs)" for a
    using c_string_nth [OF assms(1), of "unat (a - dest)"] that by simp
  then show "k_strcpy m dest src = Some (\<lambda>a. if unat (a - dest) < Suc (length xs) then (xs @ [0]) ! unat (a - dest) else m a)"
    using k_strcpy_eq [OF assms(1) s] memcpy_loop_eq [OF s] c_string_length [OF assms(1)] by (auto simp: fun_eq_iff)
next
  assume "copy_safe dest src (min (unat n) (Suc (length xs)))"
  then show "k_strncpy m dest src n = (\<lambda>a. if unat (a - dest) < unat n then if unat (a - dest) < length xs then xs ! unat (a - dest) else 0 else m a)"
    by (rule k_strncpy_eq_safe [OF assms(1)])
qed

theorem string_functions_correct_witness:
  "k_strlen (\<lambda>a. if a = 0x10 \<or> a = 0x11 then 0x41 else 0) 0x10 = Some 2 \<and>
   k_strcpy (\<lambda>a. if a = 0x10 \<or> a = 0x11 then 0x41 else 0) 0xf 0x10 =
     Some (\<lambda>a. if unat (a - 0xf) < 3 then [0x41, 0x41, 0] ! unat (a - 0xf) else if a = 0x10 \<or> a = 0x11 then 0x41 else 0)"
proof -
  let ?m = "\<lambda>a. if a = 0x10 \<or> a = (0x11 :: u64) then 0x41 else (0 :: u8)"
  have c: "c_string ?m 0x10 [0x41, 0x41]" by simp
  note t = string_functions_correct [OF c c, of 2 "0xf"]
  have l: "Suc (length [0x41, 0x41 :: u8]) = 3" "[0x41, 0x41] @ [0 :: u8] = [0x41, 0x41, 0]" by simp_all
  have "copy_safe 0xf 0x10 3" by (rule copy_safe_below) simp_all
  then have "k_strcpy ?m 0xf 0x10 = Some (\<lambda>a. if unat (a - 0xf) < 3 then [0x41, 0x41, 0] ! unat (a - 0xf) else ?m a)"
    using t unfolding l by blast
  moreover have "k_strlen ?m 0x10 = Some (word_of_nat (length [0x41, 0x41 :: u8]))" using t by blast
  ultimately show ?thesis by simp
qed

text \<open>
  \<^verbatim>\<open>k_memset\<close> uses all of \<^verbatim>\<open>c\<close> for its wide stores, not its low byte: filling with 256
  writes a one.  \<^verbatim>\<open>k_strcmp\<close> keeps the difference of two characters in a \<^verbatim>\<open>signed char\<close>, so a
  string can compare below a smaller one.
\<close>

lemma k_memset_wide_argument: "k_memset (\<lambda>_. 0) 0 0x100 2 1 = 1"
  by code_simp

lemma k_strcmp_sign:
  "map_option (\<lambda>r. sint r < 0) (k_strcmp (\<lambda>a. if a = 0x10 then 0xff else if a = 0x20 then 1 else 0) 0x10 0x20) = Some True"
  by (subst k_strcmp.simps) simp

end
