(* ===== verification/K_Context.thy ===== *)
theory K_Context
  imports K_Prelude
begin

text \<open>
  The saved register set of a task, \<^verbatim>\<open>os/arch/arm64/context.c\<close> with
  \<^verbatim>\<open>arch/arm64/include/context.h\<close> and the \<^verbatim>\<open>PSTATE\<close> and context offsets of
  \<^verbatim>\<open>registerset.h\<close>, and the macros of \<^verbatim>\<open>arch/arm64/vector.S\<close> that save it.  \<open>restore_current_context\<close>
  and \<open>store_context\<close> are the sequences of their assembly: loads and stores relative to the stack
  pointer of EL1, on the words of memory, and what the processor's registers hold afterwards.
\<close>

type_synonym context_regs = "u64 arr"

section \<open>Register numbers and modes\<close>

definition X0 :: nat where "X0 = 0"
definition X1 :: nat where "X1 = 1"
definition X2 :: nat where "X2 = 2"
definition X3 :: nat where "X3 = 3"
definition X4 :: nat where "X4 = 4"
definition X5 :: nat where "X5 = 5"
definition X6 :: nat where "X6 = 6"
definition X7 :: nat where "X7 = 7"
definition X8 :: nat where "X8 = 8"
definition LR :: nat where "LR = 30"
definition PC :: nat where "PC = 31"
definition SP :: nat where "SP = 32"
definition PSTATE :: nat where "PSTATE = 33"
definition REGS_COUNT :: nat where "REGS_COUNT = 34"

lemmas reg_numbers = X0_def X1_def X2_def X3_def X4_def X5_def X6_def X7_def X8_def LR_def PC_def SP_def
  PSTATE_def REGS_COUNT_def

definition PSTATE_USER :: u64 where
  "PSTATE_USER = push_bit 6 1 OR 0 OR push_bit 8 1"

definition PSTATE_KERNEL :: u64 where
  "PSTATE_KERNEL = push_bit 6 1 OR 5 OR push_bit 8 1"

definition CTX_OFFS_LR :: nat where "CTX_OFFS_LR = 30 * 8"
definition CTX_OFFS_PC :: nat where "CTX_OFFS_PC = 31 * 8"
definition CTX_OFFS_SP :: nat where "CTX_OFFS_SP = 32 * 8"
definition CTX_OFFS_PSTATE :: nat where "CTX_OFFS_PSTATE = 33 * 8"

definition TASK_TYPE_USER :: u8 where "TASK_TYPE_USER = 0x00"
definition TASK_TYPE_KERNEL :: u8 where "TASK_TYPE_KERNEL = 0xff"

section \<open>Operations\<close>

definition context_init :: "context_regs \<Rightarrow> u8 \<Rightarrow> context_regs" where
  "context_init ctx typ =
     (let ctx = (\<lambda>i. if i < REGS_COUNT then 0 else ctx i)
      in if typ = TASK_TYPE_USER then ctx(PSTATE := PSTATE_USER) else ctx(PSTATE := PSTATE_KERNEL))"

definition context_set_entry :: "context_regs \<Rightarrow> u64 \<Rightarrow> context_regs" where
  "context_set_entry ctx entry = ctx(PC := entry)"

definition context_set_exit :: "context_regs \<Rightarrow> u64 \<Rightarrow> context_regs" where
  "context_set_exit ctx exit = ctx(LR := exit)"

definition context_set_retcode :: "context_regs \<Rightarrow> u64 \<Rightarrow> context_regs" where
  "context_set_retcode ctx retcode = ctx(X0 := retcode)"

definition context_set_params ::
  "context_regs \<Rightarrow> u64 \<Rightarrow> u64 \<Rightarrow> u64 \<Rightarrow> u64 \<Rightarrow> u64 \<Rightarrow> u64 \<Rightarrow> u64 \<Rightarrow> u64 \<Rightarrow> context_regs" where
  "context_set_params ctx p0 p1 p2 p3 p4 p5 p6 p7 =
     ctx(X0 := p0, X1 := p1, X2 := p2, X3 := p3, X4 := p4, X5 := p5, X6 := p6, X7 := p7)"

definition context_set_stack :: "context_regs \<Rightarrow> u64 \<Rightarrow> u32 \<Rightarrow> context_regs" where
  "context_set_stack ctx stack sz = ctx(SP := stack + ucast sz)"

section \<open>Saving and restoring\<close>

text \<open>
  The registers of the processor: the general registers, the exception return address, the saved
  program status and the two stack pointers.  The instructions run at EL1, where \<^verbatim>\<open>sp\<close> is \<open>sp_el1\<close>.
  Accesses are to aligned words, which \<open>wmem\<close> gives by their address.
\<close>

type_synonym wmem = "u64 \<Rightarrow> u64"

record cpu_regs =
  gpr :: "u64 arr"
  elr_el1 :: u64
  sp_el0 :: u64
  sp_el1 :: u64
  spsr_el1 :: u64

text \<open>The offset of \<^verbatim>\<open>context\<close> in \<^verbatim>\<open>struct tcb\<close>, in the LP64 layout.\<close>

definition OFFS_TCB_CONTEXT :: u64 where "OFFS_TCB_CONTEXT = 144"

definition CONFIG_DEFAULT_TASK_STACKSIZE :: u64 where "CONFIG_DEFAULT_TASK_STACKSIZE = 8192"

text \<open>\<^verbatim>\<open>ldr xr, [sp, #off]\<close>, \<^verbatim>\<open>ldp xr, xq, [sp, #off]\<close> and \<^verbatim>\<open>stp xr, xq, [sp, #off]\<close>.\<close>

definition ldr :: "wmem \<Rightarrow> nat \<Rightarrow> nat \<Rightarrow> cpu_regs \<Rightarrow> cpu_regs" where
  "ldr mem r off c = c\<lparr>gpr := (gpr c)(r := mem (sp_el1 c + word_of_nat off))\<rparr>"

definition ldp :: "wmem \<Rightarrow> nat \<Rightarrow> nat \<Rightarrow> nat \<Rightarrow> cpu_regs \<Rightarrow> cpu_regs" where
  "ldp mem r q off c = ldr mem q (off + 8) (ldr mem r off c)"

definition stp :: "cpu_regs \<Rightarrow> nat \<Rightarrow> nat \<Rightarrow> nat \<Rightarrow> wmem \<Rightarrow> wmem" where
  "stp c r q off mem = mem(sp_el1 c + word_of_nat off := gpr c r, sp_el1 c + word_of_nat (off + 8) := gpr c q)"

definition restore_current_context :: "u64 \<Rightarrow> wmem \<Rightarrow> cpu_regs \<Rightarrow> cpu_regs option" where
  "restore_current_context current mem c = do {
     k_assert (current \<noteq> 0);
     let c = c\<lparr>sp_el1 := current + OFFS_TCB_CONTEXT\<rparr>;
     let c = ldr mem 9 CTX_OFFS_PC c;
     let c = c\<lparr>elr_el1 := gpr c 9\<rparr>;
     let c = ldp mem 10 11 CTX_OFFS_SP c;
     let c = c\<lparr>sp_el0 := gpr c 10, spsr_el1 := gpr c 11\<rparr>;
     let c = fold (\<lambda>k. ldp mem (2 * k) (2 * k + 1) (16 * k)) [0..<15] c;
     Some (ldr mem 30 (16 * 15) c)
   }"

definition store_context :: "cpu_regs \<Rightarrow> wmem \<Rightarrow> cpu_regs \<times> wmem" where
  "store_context c mem =
     (let mem = fold (\<lambda>k. stp c (2 * k) (2 * k + 1) (16 * k)) [0..<15] mem;
          c = c\<lparr>gpr := (gpr c)(9 := elr_el1 c, 10 := sp_el0 c, 11 := spsr_el1 c)\<rparr>;
          mem = stp c 30 9 CTX_OFFS_LR mem;
          mem = stp c 10 11 CTX_OFFS_SP mem
      in (c, mem))"

definition set_irq_stack :: "u64 \<Rightarrow> cpu_regs \<Rightarrow> cpu_regs" where
  "set_irq_stack irq_stack c =
     (let c = c\<lparr>gpr := (gpr c)(0 := irq_stack, 1 := CONFIG_DEFAULT_TASK_STACKSIZE)\<rparr>;
          c = c\<lparr>gpr := (gpr c)(0 := gpr c 0 + gpr c 1)\<rparr>
      in c\<lparr>sp_el1 := gpr c 0\<rparr>)"

text \<open>
  The stack pointer that is in use after \<^verbatim>\<open>eret\<close>: the lowest bit of the saved mode selects it, \<^verbatim>\<open>EL0t\<close> and
  \<^verbatim>\<open>EL1h\<close> being the modes that occur.
\<close>

definition eret_sp :: "cpu_regs \<Rightarrow> u64" where
  "eret_sp c = (if bit (spsr_el1 c) 0 then sp_el1 c else sp_el0 c)"

text \<open>The word \<open>i\<close> of the saved registers of a task.\<close>

definition saved :: "wmem \<Rightarrow> u64 \<Rightarrow> nat \<Rightarrow> u64" where
  "saved mem task i = mem (task + OFFS_TCB_CONTEXT + 8 * word_of_nat i)"

lemma fold_ldp:
  "fold (\<lambda>k. ldp mem (2 * k) (2 * k + 1) (16 * k)) [0..<n] c =
     c\<lparr>gpr := (\<lambda>i. if i < 2 * n then mem (sp_el1 c + 8 * word_of_nat i) else gpr c i)\<rparr>"
proof (induction n)
  case (Suc n)
  then show ?case by (auto simp: ldp_def ldr_def fun_eq_iff less_Suc_eq algebra_simps)
qed simp

lemma restore_current_context_eq:
  assumes "current \<noteq> 0"
  shows "restore_current_context current mem c = Some
     \<lparr>gpr = (\<lambda>i. if i < 31 then saved mem current i else gpr c i), elr_el1 = saved mem current PC, sp_el0 = saved mem current SP,
      sp_el1 = current + OFFS_TCB_CONTEXT, spsr_el1 = saved mem current PSTATE\<rparr>"
proof -
  define f where "f i = saved mem current i" for i
  have m: "mem (current + OFFS_TCB_CONTEXT + word_of_nat (8 * i)) = f i" "mem (current + OFFS_TCB_CONTEXT + 8 * word_of_nat i) = f i" for i
    by (simp_all add: f_def saved_def)
  show ?thesis using assms m(1) [of 31] m(1) [of 32] m(1) [of 33] m(1) [of 30] unfolding restore_current_context_def fold_ldp Let_def
    by (auto simp: k_assert_def ldp_def ldr_def m(2) f_def [symmetric] fun_eq_iff CTX_OFFS_PC_def CTX_OFFS_SP_def reg_numbers)
qed

lemma word_slot_eq: "i < 64 \<Longrightarrow> j < 64 \<Longrightarrow> (8 * word_of_nat i :: u64) = 8 * word_of_nat j \<longleftrightarrow> i = j"
proof -
  assume "i < 64" "j < 64"
  then have "unat (word_of_nat (8 * i) :: u64) = 8 * i" "unat (word_of_nat (8 * j) :: u64) = 8 * j"
    by (simp_all add: unsigned_of_nat take_bit_nat_eq_self del: of_nat_mult)
  then have "(word_of_nat (8 * i) :: u64) = word_of_nat (8 * j) \<longleftrightarrow> i = j" by (metis mult_cancel1 zero_neq_numeral)
  then show ?thesis by simp
qed

lemma stp_at:
  assumes "i < 64" "2 * k < 63"
  shows "stp c r q (16 * k) mem (sp_el1 c + 8 * word_of_nat i) =
    (if i = 2 * k then gpr c r else if i = 2 * k + 1 then gpr c q else mem (sp_el1 c + 8 * word_of_nat i))"
proof -
  have "word_of_nat (16 * k) = (8 * word_of_nat (2 * k) :: u64)" "word_of_nat (16 * k + 8) = (8 * word_of_nat (2 * k + 1) :: u64)" by simp_all
  then show ?thesis using word_slot_eq [of i "2 * k"] word_slot_eq [of i "2 * k + 1"] assms unfolding stp_def by (auto simp del: of_nat_mult of_nat_add of_nat_Suc)
qed

lemma fold_stp:
  assumes "n \<le> 15" "i < 34"
  shows "fold (\<lambda>k. stp c (2 * k) (2 * k + 1) (16 * k)) [0..<n] mem (sp_el1 c + 8 * word_of_nat i) =
     (if i < 2 * n then gpr c i else mem (sp_el1 c + 8 * word_of_nat i))"
  using assms(1)
proof (induction n)
  case (Suc n)
  then show ?case using stp_at [of i n c "2 * n" "2 * n + 1"] assms(2) by (auto simp: less_Suc_eq)
qed simp

lemma store_context_saves:
  assumes "store_context c mem = (c', mem')" "i < REGS_COUNT"
  shows "mem' (sp_el1 c + 8 * word_of_nat i) =
    (if i = PC then elr_el1 c else if i = SP then sp_el0 c else if i = PSTATE then spsr_el1 c else gpr c i)"
proof -
  have o: "CTX_OFFS_LR = 16 * 15" "CTX_OFFS_SP = 16 * 16" by (simp_all add: CTX_OFFS_LR_def CTX_OFFS_SP_def)
  let ?c = "c\<lparr>gpr := (gpr c)(9 := elr_el1 c, 10 := sp_el0 c, 11 := spsr_el1 c)\<rparr>"
  have "mem' = stp ?c 10 11 (16 * 16) (stp ?c 30 9 (16 * 15) (fold (\<lambda>k. stp c (2 * k) (2 * k + 1) (16 * k)) [0..<15] mem))"
    using assms(1) unfolding store_context_def Let_def o prod.inject by (elim conjE) (rule sym)
  then show ?thesis
    using fold_stp [of 15 i c mem] stp_at [of i 15 ?c] stp_at [of i 16 ?c] assms(2) by (auto simp: reg_numbers)
qed

lemma stp_frame:
  assumes "\<forall>i<34. a \<noteq> sp_el1 c + 8 * word_of_nat i" "k < 17"
  shows "stp c r q (16 * k) mem a = mem a"
proof -
  have "word_of_nat (16 * k) = (8 * word_of_nat (2 * k) :: u64)" "word_of_nat (16 * k + 8) = (8 * word_of_nat (2 * k + 1) :: u64)" by simp_all
  then show ?thesis using assms(1) [rule_format, of "2 * k"] assms(1) [rule_format, of "2 * k + 1"] assms(2)
    unfolding stp_def by (simp del: of_nat_mult of_nat_add of_nat_Suc)
qed

lemma fold_stp_frame:
  assumes "\<forall>i<34. a \<noteq> sp_el1 c + 8 * word_of_nat i" "n \<le> 15"
  shows "fold (\<lambda>k. stp c (2 * k) (2 * k + 1) (16 * k)) [0..<n] mem a = mem a"
  using assms(2) by (induction n) (simp_all add: stp_frame [OF assms(1)])

lemma store_context_frame:
  assumes "store_context c mem = (c', mem')" "\<forall>i<REGS_COUNT. a \<noteq> sp_el1 c + 8 * word_of_nat i"
  shows "mem' a = mem a"
proof -
  have o: "CTX_OFFS_LR = 16 * 15" "CTX_OFFS_SP = 16 * 16" by (simp_all add: CTX_OFFS_LR_def CTX_OFFS_SP_def)
  let ?c = "c\<lparr>gpr := (gpr c)(9 := elr_el1 c, 10 := sp_el0 c, 11 := spsr_el1 c)\<rparr>"
  have "mem' = stp ?c 10 11 (16 * 16) (stp ?c 30 9 (16 * 15) (fold (\<lambda>k. stp c (2 * k) (2 * k + 1) (16 * k)) [0..<15] mem))"
    using assms(1) unfolding store_context_def Let_def o prod.inject by (elim conjE) (rule sym)
  then show ?thesis
    using fold_stp_frame [of a c 15 mem] stp_frame [of a ?c 15] stp_frame [of a ?c 16] assms(2) by (simp add: REGS_COUNT_def)
qed

text \<open>
  C17.  Starting a task.  When the saved registers of the task are those made with \<^verbatim>\<open>context_init\<close>, \<^verbatim>\<open>context_set_entry\<close>,
  \<^verbatim>\<open>context_set_stack\<close> and \<^verbatim>\<open>context_set_params\<close>, the \<^verbatim>\<open>eret\<close> of \<^verbatim>\<open>restore_current_context\<close> is reached and
  continues at the entry point with the arguments in the first registers and every other general register
  zero, in user mode exactly for a user task.  A user task runs on the top of its stack; a kernel task does not:
  its stack pointer is the address of its saved registers, where the next exception stores them, and so is the stack
  pointer of EL1 for a user task.
\<close>

theorem context_start_state:
  assumes "current \<noteq> 0"
    and "\<forall>i < REGS_COUNT. mem (current + OFFS_TCB_CONTEXT + 8 * word_of_nat i) =
      context_set_params (context_set_stack (context_set_entry (context_init ctx0 typ) entry) stack sz) p0 p1 p2 p3 p4 p5 p6 p7 i"
  shows "\<exists>c'. restore_current_context current mem c = Some c' \<and> elr_el1 c' = entry \<and>
      map (gpr c') [0..<8] = [p0, p1, p2, p3, p4, p5, p6, p7] \<and> list_all (\<lambda>i. gpr c' i = 0) [8..<31] \<and>
      (spsr_el1 c' AND 0xf = 0 \<longleftrightarrow> typ = TASK_TYPE_USER) \<and>
      eret_sp c' = (if typ = TASK_TYPE_USER then stack + ucast sz else current + OFFS_TCB_CONTEXT) \<and>
      sp_el1 c' = current + OFFS_TCB_CONTEXT"
proof -
  have u: "[0..<8] = [0, 1, 2, 3, 4, 5, 6, 7 :: nat]" by (simp add: upt_rec)
  have s: "saved mem current i = context_set_params (context_set_stack (context_set_entry (context_init ctx0 typ) entry) stack sz) p0 p1 p2 p3 p4 p5 p6 p7 i"
    if "i < 34" for i using assms(2) that by (simp add: saved_def REGS_COUNT_def)
  show ?thesis
    by (simp add: restore_current_context_eq [OF assms(1)] s u eret_sp_def context_set_params_def context_set_stack_def context_set_entry_def
      context_init_def reg_numbers list_all_iff PSTATE_USER_def PSTATE_KERNEL_def)
qed

text \<open>A user task at \<open>0x1000\<close> with entry point \<open>0x400000\<close> and a stack of 8192 bytes.\<close>

definition demo_context :: context_regs where
  "demo_context = context_set_params (context_set_stack (context_set_entry (context_init (\<lambda>_. 0) TASK_TYPE_USER) 0x400000) 0x700000 8192) 1 2 3 4 5 6 7 8"

theorem context_start_state_witness:
  "\<exists>c'. restore_current_context 0x1000 (\<lambda>a. demo_context (unat ((a - 0x1090) div 8))) \<lparr>gpr = (\<lambda>_. 99), elr_el1 = 0, sp_el0 = 0, sp_el1 = 0, spsr_el1 = 0\<rparr> = Some c' \<and>
    elr_el1 c' = 0x400000 \<and> eret_sp c' = 0x702000"
proof -
  have "unat (8 * word_of_nat i div 8 :: u64) = i" if "i < REGS_COUNT" for i
  proof -
    have "unat (word_of_nat (8 * i) :: u64) = 8 * i" using that by (simp add: REGS_COUNT_def unsigned_of_nat take_bit_nat_eq_self del: of_nat_mult)
    then show ?thesis by (simp add: unat_div)
  qed
  then have "\<forall>i < REGS_COUNT. (\<lambda>a. demo_context (unat ((a - 0x1090) div 8))) (0x1000 + OFFS_TCB_CONTEXT + 8 * word_of_nat i) = demo_context i"
    by (simp add: OFFS_TCB_CONTEXT_def)
  from context_start_state [OF _ this [unfolded demo_context_def]] show ?thesis by (fastforce simp: demo_context_def)
qed

text \<open>
  C18.  Saving and restoring are inverse.  When an exception finds the stack pointer of EL1 where \<^verbatim>\<open>restore_current_context\<close>
  leaves it, as it always does for a user task, \<^verbatim>\<open>store_context\<close> writes the 34 words of the saved registers in the control block of the interrupted task and nothing else, and restoring them later,
  whatever the registers hold by then and whatever was written to the rest of memory, gives back every general
  register, the return address, the stack pointer, the mode and the stack pointer of EL1.
\<close>

theorem context_save_restore:
  assumes "current \<noteq> 0" "sp_el1 c = current + OFFS_TCB_CONTEXT" "store_context c mem = (c1, mem1)"
    and "\<forall>i < REGS_COUNT. mem2 (current + OFFS_TCB_CONTEXT + 8 * word_of_nat i) = mem1 (current + OFFS_TCB_CONTEXT + 8 * word_of_nat i)"
  shows "\<exists>c'. restore_current_context current mem2 c2 = Some c' \<and> (\<forall>i < 31. gpr c' i = gpr c i) \<and> elr_el1 c' = elr_el1 c \<and>
    sp_el0 c' = sp_el0 c \<and> sp_el1 c' = sp_el1 c \<and> spsr_el1 c' = spsr_el1 c \<and>
    (\<forall>a. (\<forall>i < REGS_COUNT. a \<noteq> current + OFFS_TCB_CONTEXT + 8 * word_of_nat i) \<longrightarrow> mem1 a = mem a)"
proof -
  have "saved mem2 current i = (if i = PC then elr_el1 c else if i = SP then sp_el0 c else if i = PSTATE then spsr_el1 c else gpr c i)" if "i < 34" for i
    using store_context_saves [OF assms(3)] assms(2,4) that by (simp add: saved_def REGS_COUNT_def)
  moreover have "mem1 a = mem a" if "\<forall>i < REGS_COUNT. a \<noteq> current + OFFS_TCB_CONTEXT + 8 * word_of_nat i" for a
    using store_context_frame [OF assms(3)] assms(2) that by simp
  ultimately show ?thesis using assms(2) by (simp add: restore_current_context_eq [OF assms(1)] reg_numbers)
qed

theorem context_save_restore_witness:
  "let c = \<lparr>gpr = of_nat, elr_el1 = 0x400004, sp_el0 = 0x701ff0, sp_el1 = 0x1090, spsr_el1 = 0\<rparr>
   in \<exists>c'. restore_current_context 0x1000 (snd (store_context c (\<lambda>_. 0))) (set_irq_stack 0x9000 (fst (store_context c (\<lambda>_. 0)))) = Some c' \<and>
     gpr c' 0 = 0 \<and> gpr c' 9 = 9 \<and> gpr c' 30 = 30 \<and> elr_el1 c' = 0x400004 \<and> sp_el0 c' = 0x701ff0 \<and> sp_el1 c' = 0x1090"
proof -
  let ?c = "\<lparr>gpr = of_nat, elr_el1 = 0x400004, sp_el0 = 0x701ff0, sp_el1 = 0x1090, spsr_el1 = 0\<rparr>"
  have "sp_el1 ?c = 0x1000 + OFFS_TCB_CONTEXT" by (simp add: OFFS_TCB_CONTEXT_def)
  from context_save_restore [OF _ this, of "\<lambda>_. 0" "fst (store_context ?c (\<lambda>_. 0))" "snd (store_context ?c (\<lambda>_. 0))" "snd (store_context ?c (\<lambda>_. 0))"
    "set_irq_stack 0x9000 (fst (store_context ?c (\<lambda>_. 0)))"]
  show ?thesis by (force simp: Let_def)
qed

end
