(* ===== verification/K_Task.thy ===== *)
theory K_Task
  imports K_Bitmap K_List K_String K_Context
begin

text \<open>
  Tasks, \<^verbatim>\<open>os/core/sched/task.c\<close> with \<^verbatim>\<open>core/include/task.h\<close>: the task control block, the
  pool of task identifiers, the address space identifiers (ASIDs) with their generations,
  task creation, and the switch of the user page table (\<^verbatim>\<open>as_switch\<close> of
  \<^verbatim>\<open>core/mm/addrspace.c\<close>).

  \<open>ktask\<close> is the state these functions share: the list cells, the control blocks by
  address, the bytes that hold the names, the static variables of the file and the two
  pieces of processor state that \<^verbatim>\<open>task_switch\<close> writes.  The list cell of a control block
  is its first member, so the cell has the address of the block.  The scheduler extends
  this record.

  The hardware's answer to \<^verbatim>\<open>ID_AA64MMFR0_EL1\<close> and the addresses of the string literal
  \<^verbatim>\<open>g_noname\<close> and of the bitmap are arguments.
\<close>

section \<open>Data\<close>

datatype task_state_e =
    TSTATE_TASK_INVALID
  | TSTATE_TASK_INACTIVE
  | TSTATE_TASK_READYTORUN
  | TSTATE_TASK_RUNNING
  | TSTATE_TASK_SLEEPING
  | TSTATE_TASK_PENDING
  | TSTATE_TASK_SUSPEND

record mm_area =
  mmap_base :: u64
  start_brk :: u64
  brk :: u64
  start_stack :: u64
  end_stack :: u64
  start_code :: u64
  end_code :: u64
  start_data :: u64
  end_data :: u64
  start_bss :: u64
  end_bss :: u64

record tcb =
  t_tid :: u32
  t_tgid :: u32
  t_sched_priority :: u8
  t_init_priority :: u8
  t_entry :: u64
  t_state :: task_state_e
  t_stack :: u64
  t_stack_size :: u32
  t_readytime :: u64
  t_timeslice :: u32
  t_type :: u8
  t_context :: context_regs
  t_addrspace :: u64
  t_mm :: mm_area
  t_asid :: u64

definition mm_area_zero :: mm_area where
  "mm_area_zero = \<lparr>mmap_base = 0, start_brk = 0, brk = 0, start_stack = 0, end_stack = 0, start_code = 0,
     end_code = 0, start_data = 0, end_data = 0, start_bss = 0, end_bss = 0\<rparr>"

text \<open>The control block after \<^verbatim>\<open>k_memset(task, 0, sizeof(struct tcb))\<close>.\<close>

definition tcb_zero :: tcb where
  "tcb_zero = \<lparr>t_tid = 0, t_tgid = 0, t_sched_priority = 0, t_init_priority = 0, t_entry = 0,
     t_state = TSTATE_TASK_INVALID, t_stack = 0, t_stack_size = 0, t_readytime = 0, t_timeslice = 0,
     t_type = 0, t_context = (\<lambda>_. 0), t_addrspace = 0, t_mm = mm_area_zero, t_asid = 0\<rparr>"

text \<open>Offsets of \<^verbatim>\<open>name\<close> and \<^verbatim>\<open>mm\<close> in \<^verbatim>\<open>struct tcb\<close>, and its size, in the LP64 layout.\<close>

definition OFFS_TCB_NAME :: u64 where "OFFS_TCB_NAME = 44"
definition OFFS_TCB_MM :: u64 where "OFFS_TCB_MM = 424"
definition SIZEOF_TCB :: u64 where "SIZEOF_TCB = 536"

definition CONFIG_TASK_NAME_SIZE :: u64 where "CONFIG_TASK_NAME_SIZE = 63"
definition CONFIG_MAX_TASKS :: nat where "CONFIG_MAX_TASKS = 0x20000"
definition CONFIG_DEFAULT_TASK_PRIORITY :: u8 where "CONFIG_DEFAULT_TASK_PRIORITY = 10"
definition CONFIG_MAX_TASK_PRIORITY :: nat where "CONFIG_MAX_TASK_PRIORITY = 32"
definition CONFIG_RR_INTERVAL :: u32 where "CONFIG_RR_INTERVAL = 10"
definition INVALID_TASK_ID :: u32 where "INVALID_TASK_ID = - 1"
definition RAM_PBASE :: u64 where "RAM_PBASE = 0x40000000"
definition RAM_VBASE :: u64 where "RAM_VBASE = 0xffffff8000000000"

record ktask =
  cells :: lheap
  tcbs :: "u64 \<Rightarrow> tcb"
  bytes :: bmem
  task_bitmap :: "u64 arr"
  g_lasttid :: u32
  asid_bits :: u32
  asid_generation :: u64
  asid_bitmap :: "u64 arr"
  cur_idx :: u32
  b_tlb_flush :: bool
  ttbr0_el1 :: u64
  tlb_flushes :: nat

definition upd_tcb :: "'a ktask_scheme \<Rightarrow> u64 \<Rightarrow> (tcb \<Rightarrow> tcb) \<Rightarrow> 'a ktask_scheme" where
  "upd_tcb s task f = s\<lparr>tcbs := (tcbs s)(task := f (tcbs s task))\<rparr>"


section \<open>Address space identifiers\<close>

definition GENMASK :: "nat \<Rightarrow> nat \<Rightarrow> u64" where
  "GENMASK h l = ((- 1) - push_bit l 1 + 1) AND drop_bit (64 - 1 - h) (- 1)"

definition ASID_MASK :: "'a ktask_scheme \<Rightarrow> u64" where
  "ASID_MASK s = GENMASK (unat (asid_bits s) - 1) 0"

definition ASID_FIRST_VERSION :: "'a ktask_scheme \<Rightarrow> u64" where
  "ASID_FIRST_VERSION s = push_bit (unat (asid_bits s)) 1"

definition NUM_USER_ASIDS :: "'a ktask_scheme \<Rightarrow> nat" where
  "NUM_USER_ASIDS s = unat (ASID_FIRST_VERSION s)"

definition get_cpu_asid_bits :: "u64 \<Rightarrow> u32 option" where
  "get_cpu_asid_bits mmfr0 =
     (let asid = bitfield_get mmfr0 4 4
      in if asid = 0 then Some 8 else if asid = 2 then Some 16 else PANIC)"

text \<open>The fall-through part of \<^verbatim>\<open>check_and_switch_context\<close>: a new number, and a new generation
  when the bitmap is full from \<open>cur_idx\<close> on.\<close>

definition asid_allocate :: "'a ktask_scheme \<Rightarrow> u64 \<Rightarrow> u64 \<times> 'a ktask_scheme" where
  "asid_allocate s task =
     (let n = NUM_USER_ASIDS s;
          asid = find_next_zero_bit (asid_bitmap s) n (unat (cur_idx s));
          (asid, s) =
            (if asid \<ge> n then
               let idx = ucast (drop_bit (unat (asid_bits s)) (asid_generation s)) + 1 :: u32;
                   s = s\<lparr>asid_generation := ucast (push_bit (unat (asid_bits s)) idx),
                         b_tlb_flush := True,
                         asid_bitmap := bitmap_clear (asid_bitmap s) 0 (int n)\<rparr>
               in (find_next_zero_bit (asid_bitmap s) n 1, s)
             else (asid, s));
          s = s\<lparr>asid_bitmap := bitmap_set (asid_bitmap s) asid 1\<rparr>;
          s = upd_tcb s task (\<lambda>t. t\<lparr>t_asid := word_of_nat asid OR asid_generation s\<rparr>)
      in (word_of_nat asid, s\<lparr>cur_idx := word_of_nat asid\<rparr>))"

definition check_and_switch_context :: "'a ktask_scheme \<Rightarrow> u64 \<Rightarrow> u64 \<times> 'a ktask_scheme" where
  "check_and_switch_context s task =
     (let asid = t_asid (tcbs s task); generation = asid_generation s
      in if t_type (tcbs s task) = TASK_TYPE_KERNEL then (0, s)
         else if asid AND NOT (ASID_MASK s) = generation then (asid, s)
         else if asid \<noteq> 0 then
           let newasid = generation OR (asid AND ASID_MASK s);
               (old, bm) = test_and_set_bit (unat (asid AND ASID_MASK s)) (asid_bitmap s);
               s = s\<lparr>asid_bitmap := bm\<rparr>
           in if \<not> old then (newasid, s) else asid_allocate s task
         else asid_allocate s task)"

text \<open>
  \<^verbatim>\<open>asid_initialize\<close>: the bitmap starts zeroed, whatever the allocated memory \<open>bm\<close> held.
  (\<^verbatim>\<open>get_cpu_asid_bits\<close> either panics or returns a positive number, so the check for a negative
  one never fires.)
\<close>

definition asid_initialize :: "'a ktask_scheme \<Rightarrow> u64 \<Rightarrow> u64 arr \<Rightarrow> 'a ktask_scheme option" where
  "asid_initialize s mmfr0 bm = do {
     asid \<leftarrow> get_cpu_asid_bits mmfr0;
     let s = s\<lparr>asid_bits := asid\<rparr>;
     let s = s\<lparr>asid_bitmap := bitmap_zero bm (NUM_USER_ASIDS s)\<rparr>;
     Some (s\<lparr>asid_generation := ASID_FIRST_VERSION s\<rparr>)
   }"

section \<open>Task identifiers and names\<close>

definition task_set_tid :: "'a ktask_scheme \<Rightarrow> u64 \<Rightarrow> u32 \<Rightarrow> 'a ktask_scheme" where
  "task_set_tid s task tid = upd_tcb s task (\<lambda>t. t\<lparr>t_tid := tid\<rparr>)"

definition task_set_tgid :: "'a ktask_scheme \<Rightarrow> u64 \<Rightarrow> u32 \<Rightarrow> 'a ktask_scheme" where
  "task_set_tgid s task tgid = upd_tcb s task (\<lambda>t. t\<lparr>t_tgid := tgid\<rparr>)"

definition task_setup_name :: "'a ktask_scheme \<Rightarrow> u64 \<Rightarrow> u64 \<Rightarrow> u64 \<Rightarrow> 'a ktask_scheme" where
  "task_setup_name s g_noname task name =
     (let dest = task + OFFS_TCB_NAME;
          m = (if name = 0 then k_strncpy (bytes s) dest g_noname CONFIG_TASK_NAME_SIZE
               else k_strncpy (bytes s) dest name CONFIG_TASK_NAME_SIZE)
      in s\<lparr>bytes := m(dest + CONFIG_TASK_NAME_SIZE := 0)\<rparr>)"

definition task_release_tid :: "'a ktask_scheme \<Rightarrow> u32 \<Rightarrow> 'a ktask_scheme" where
  "task_release_tid s tid =
     s\<lparr>task_bitmap := bitmap_clear (task_bitmap s) (unat tid) 1, g_lasttid := tid - 1\<rparr>"

definition task_assign_tid :: "'a ktask_scheme \<Rightarrow> u64 \<Rightarrow> u32 \<times> 'a ktask_scheme" where
  "task_assign_tid s task =
     (let pid = g_lasttid s + 1;
          tid = find_next_zero_bit (task_bitmap s) CONFIG_MAX_TASKS (unat (scast pid :: u64))
      in if tid \<ge> CONFIG_MAX_TASKS then (INVALID_TASK_ID, s)
         else let s = s\<lparr>task_bitmap := bitmap_set (task_bitmap s) tid 1\<rparr>;
                  s = upd_tcb s task (\<lambda>t. t\<lparr>t_tid := word_of_nat tid\<rparr>)
              in (word_of_nat tid, s\<lparr>g_lasttid := word_of_nat tid\<rparr>))"

section \<open>Creation and switch\<close>

definition task_init :: "'a ktask_scheme \<Rightarrow> u64 \<Rightarrow> u64 \<Rightarrow> u8 \<Rightarrow> 'a ktask_scheme" where
  "task_init s g_noname task typ =
     (let s = s\<lparr>tcbs := (tcbs s)(task := tcb_zero), bytes := k_memset (bytes s) task 0 SIZEOF_TCB\<rparr>;
          s = s\<lparr>cells := INIT_LIST_HEAD (cells s) task\<rparr>;
          s = upd_tcb s task (\<lambda>t. t\<lparr>t_state := TSTATE_TASK_INACTIVE,
                t_init_priority := CONFIG_DEFAULT_TASK_PRIORITY,
                t_sched_priority := CONFIG_DEFAULT_TASK_PRIORITY,
                t_timeslice := CONFIG_RR_INTERVAL, t_type := typ,
                t_context := context_init (t_context t) typ\<rparr>);
          s = task_setup_name s g_noname task 0
      in s\<lparr>cells := INIT_LIST_HEAD (cells s) (task + OFFS_TCB_MM)\<rparr>)"

definition task_create ::
  "'a ktask_scheme \<Rightarrow> u64 \<Rightarrow> u64 \<Rightarrow> u64 \<Rightarrow> u64 \<Rightarrow> u8 \<Rightarrow> u64 \<Rightarrow> u32 \<Rightarrow> u8 \<Rightarrow> u64 \<Rightarrow> 'a ktask_scheme option" where
  "task_create s g_noname task entry name priority stack stack_size typ as = do {
     let s = task_init s g_noname task typ;
     let s = task_setup_name s g_noname task name;
     let s = snd (task_assign_tid s task);
     k_assert (unat priority < CONFIG_MAX_TASK_PRIORITY);
     Some (upd_tcb s task (\<lambda>t. t\<lparr>t_init_priority := priority, t_sched_priority := priority,
             t_entry := entry, t_state := TSTATE_TASK_INACTIVE, t_stack := stack, t_stack_size := stack_size,
             t_context := context_set_stack (context_set_entry (t_context t) entry) stack stack_size,
             t_addrspace := as\<rparr>))
   }"

definition vbase_to_pbase :: "u64 \<Rightarrow> u64" where
  "vbase_to_pbase vbase = vbase - RAM_VBASE + RAM_PBASE"

definition as_switch :: "'a ktask_scheme \<Rightarrow> u64 \<Rightarrow> u8 \<Rightarrow> u64 \<Rightarrow> 'a ktask_scheme option" where
  "as_switch s as typ asid =
     (if typ = TASK_TYPE_KERNEL then Some s
      else if typ = TASK_TYPE_USER then Some (s\<lparr>ttbr0_el1 := vbase_to_pbase as OR asid\<rparr>)
      else PANIC)"

definition task_switch :: "'a ktask_scheme \<Rightarrow> u64 \<Rightarrow> u64 \<Rightarrow> 'a ktask_scheme option" where
  "task_switch s from to =
     (let (asid, s) = check_and_switch_context s to
      in if t_tgid (tcbs s to) \<noteq> t_tgid (tcbs s from) then do {
           s \<leftarrow> as_switch s (t_addrspace (tcbs s to)) (t_type (tcbs s to))
                  (push_bit (64 - unat (asid_bits s)) asid);
           Some (if b_tlb_flush s then s\<lparr>b_tlb_flush := False, tlb_flushes := tlb_flushes s + 1\<rparr> else s)
         } else Some s)"

section \<open>The pool of task identifiers\<close>

definition tid_ok :: "'a ktask_scheme \<Rightarrow> bool" where
  "tid_ok s \<longleftrightarrow> g_lasttid s = - 1 \<or> unat (g_lasttid s) < CONFIG_MAX_TASKS"

definition tid_start :: "'a ktask_scheme \<Rightarrow> nat" where
  "tid_start s = unat (g_lasttid s + 1)"

lemma tid_start_bound: "tid_ok s \<Longrightarrow> tid_start s \<le> CONFIG_MAX_TASKS"
proof -
  assume ok: "tid_ok s"
  show ?thesis
  proof (cases "g_lasttid s = - 1")
    case False
    with ok have "unat (g_lasttid s) < CONFIG_MAX_TASKS" by (simp add: tid_ok_def)
    moreover from this have "unat (g_lasttid s + 1) = unat (g_lasttid s) + 1"
      by (subst unat_add_small) (simp_all add: CONFIG_MAX_TASKS_def)
    ultimately show ?thesis by (simp add: tid_start_def)
  qed (simp add: tid_start_def)
qed

lemma unat_scast_tid_start: "tid_ok s \<Longrightarrow> unat (scast (g_lasttid s + 1) :: u64) = tid_start s"
  using tid_start_bound [of s] unfolding tid_start_def
  by (subst scast_nonneg) (simp_all add: CONFIG_MAX_TASKS_def unat_ucast_up)

lemma task_assign_tid_eq:
  assumes "tid_ok s"
  shows "task_assign_tid s task =
    (case first_from (\<lambda>j. \<not> abit (task_bitmap s) j) (tid_start s) CONFIG_MAX_TASKS of
       None \<Rightarrow> (INVALID_TASK_ID, s)
     | Some tid \<Rightarrow>
         (word_of_nat tid,
          upd_tcb s task (\<lambda>t. t\<lparr>t_tid := word_of_nat tid\<rparr>)
            \<lparr>task_bitmap := bitmap_set (task_bitmap s) tid 1, g_lasttid := word_of_nat tid\<rparr>))"
proof (cases "first_from (\<lambda>j. \<not> abit (task_bitmap s) j) (tid_start s) CONFIG_MAX_TASKS")
  case None
  then show ?thesis
    unfolding task_assign_tid_def find_next_zero_bit_first Let_def unat_scast_tid_start [OF assms] first_or_def
    by simp
next
  case (Some tid)
  then have "\<not> CONFIG_MAX_TASKS \<le> tid" by (simp add: first_from_Some_iff)
  with Some show ?thesis
    unfolding task_assign_tid_def find_next_zero_bit_first Let_def unat_scast_tid_start [OF assms] first_or_def
    by (simp add: upd_tcb_def)
qed

inductive tid_run :: "'a ktask_scheme \<Rightarrow> 'a ktask_scheme \<Rightarrow> u32 list \<Rightarrow> bool" for s0 where
  tid_start: "tid_run s0 s0 []"
| tid_assign: "tid_run s0 s live \<Longrightarrow> task_assign_tid s task = (tid, s') \<Longrightarrow> tid \<noteq> INVALID_TASK_ID
    \<Longrightarrow> tid_run s0 s' (tid # live)"
| tid_fail: "tid_run s0 s live \<Longrightarrow> task_assign_tid s task = (INVALID_TASK_ID, s') \<Longrightarrow> tid_run s0 s' live"
| tid_release: "tid_run s0 s live \<Longrightarrow> tid \<in> set live \<Longrightarrow> tid_run s0 (task_release_tid s tid) (remove1 tid live)"

definition tid_inv :: "'a ktask_scheme \<Rightarrow> u32 list \<Rightarrow> bool" where
  "tid_inv s live \<longleftrightarrow> tid_ok s \<and> distinct live \<and> (\<forall>tid\<in>set live. unat tid < CONFIG_MAX_TASKS) \<and>
     (\<forall>i<CONFIG_MAX_TASKS. abit (task_bitmap s) i \<longleftrightarrow> word_of_nat i \<in> set live)"

lemma tid_small: "i < CONFIG_MAX_TASKS \<Longrightarrow> unat (word_of_nat i :: u32) = i"
  by (rule unat_of_nat_small) (simp add: CONFIG_MAX_TASKS_def)

lemma tid_small_eq:
  "i < CONFIG_MAX_TASKS \<Longrightarrow> j < CONFIG_MAX_TASKS \<Longrightarrow> (word_of_nat i :: u32) = word_of_nat j \<longleftrightarrow> i = j"
  by (metis tid_small)

lemma tid_inv_assign:
  assumes "tid_inv s live" "task_assign_tid s task = (tid, s')"
  shows "if tid = INVALID_TASK_ID then s' = s else tid_inv s' (tid # live) \<and> tid \<notin> set live"
proof -
  have ok: "tid_ok s" using assms(1) by (simp add: tid_inv_def)
  show ?thesis
  proof (cases "first_from (\<lambda>j. \<not> abit (task_bitmap s) j) (tid_start s) CONFIG_MAX_TASKS")
    case None
    then show ?thesis using assms(2) task_assign_tid_eq [OF ok, of task] by simp
  next
    case (Some i)
    then have i: "i < CONFIG_MAX_TASKS" "\<not> abit (task_bitmap s) i" by (simp_all add: first_from_Some_iff)
    then have i31: "i < 2 ^ 31" by (simp add: CONFIG_MAX_TASKS_def)
    have s': "tid = word_of_nat i" "task_bitmap s' = bitmap_set (task_bitmap s) i 1" "g_lasttid s' = word_of_nat i"
      using assms(2) task_assign_tid_eq [OF ok, of task] Some by auto
    have u: "unat tid = i" using i(1) by (simp add: s'(1) tid_small)
    have valid: "tid \<noteq> INVALID_TASK_ID"
      using i(1) u by (auto simp: INVALID_TASK_ID_def CONFIG_MAX_TASKS_def unsigned_minus_1_eq_mask mask_eq_exp_minus_1)
    have fresh: "tid \<notin> set live" using i assms(1) by (simp add: tid_inv_def s'(1))
    have "tid_inv s' (tid # live)"
      using assms(1) fresh i(1) u bitmap_set_one [OF i31] 
      by (auto simp: tid_inv_def tid_ok_def s'(2,3) s'(1) [symmetric] tid_small_eq) (simp_all add: s'(1) tid_small)
    then show ?thesis using valid fresh by simp
  qed
qed

lemma tid_inv_release:
  assumes "tid_inv s live" "tid \<in> set live"
  shows "tid_inv (task_release_tid s tid) (remove1 tid live)"
proof -
  have t: "unat tid < CONFIG_MAX_TASKS" "distinct live" using assms by (simp_all add: tid_inv_def)
  have "g_lasttid (task_release_tid s tid) = tid - 1" by (simp add: task_release_tid_def)
  moreover have "tid - 1 = - 1 \<or> unat (tid - 1) < CONFIG_MAX_TASKS"
  proof (cases "tid = 0")
    case False
    then have "1 \<le> unat tid" by (simp add: Suc_le_eq unat_pos_iff)
    then have "unat (tid - 1) < CONFIG_MAX_TASKS" using t(1) by (subst unat_minus_small) simp_all
    then show ?thesis ..
  qed simp
  ultimately have ok: "tid_ok (task_release_tid s tid)" by (simp add: tid_ok_def)
  have t31: "unat tid < 2 ^ 31" using t(1) by (simp add: CONFIG_MAX_TASKS_def)
  have "abit (task_bitmap (task_release_tid s tid)) i \<longleftrightarrow> word_of_nat i \<in> set (remove1 tid live)"
    if "i < CONFIG_MAX_TASKS" for i
    using assms(1) that t bitmap_clear_one [OF t31] tid_small [OF that]
    by (auto simp: task_release_tid_def tid_inv_def)
  then show ?thesis using ok assms(1) t(2) by (auto simp: tid_inv_def dest: notin_set_remove1)
qed

lemma tid_run_inv: "tid_run s0 s live \<Longrightarrow> tid_inv s0 [] \<Longrightarrow> tid_inv s live"
proof (induction rule: tid_run.induct)
  case (tid_assign s live task tid s')
  then show ?case using tid_inv_assign [of s live task tid s'] by simp
next
  case (tid_fail s live task s')
  then show ?case using tid_inv_assign [of s live task INVALID_TASK_ID s'] by simp
next
  case (tid_release s live tid)
  then show ?case by (simp add: tid_inv_release)
qed

section \<open>The owners of the address space identifiers\<close>

definition asid_gen :: "nat \<Rightarrow> nat \<Rightarrow> u64" where
  "asid_gen A r = push_bit A (word_of_nat (r + 1))"

lemma asid_gen_mask: "asid_gen A r AND mask A = 0"
  unfolding asid_gen_def by (rule bit_eqI) (auto simp: bit_simps)

lemma unat_asid_gen: "(r + 1) * 2 ^ A < 2 ^ 32 \<Longrightarrow> unat (asid_gen A r) = (r + 1) * 2 ^ A"
proof -
  assume b: "(r + 1) * 2 ^ A < (2::nat) ^ 32"
  have "asid_gen A r = word_of_nat ((r + 1) * 2 ^ A)"
    unfolding asid_gen_def push_bit_eq_mult by (simp add: algebra_simps)
  moreover have "(r + 1) * 2 ^ A < (2::nat) ^ 64" using b by (rule less_trans) simp
  ultimately show ?thesis using unat_of_nat_small [of "(r + 1) * 2 ^ A", where 'a = 64] by simp
qed

lemma ASID_MASK_eq: "unat (asid_bits s) \<in> {8, 16} \<Longrightarrow> ASID_MASK s = mask (unat (asid_bits s))"
  by (auto simp: ASID_MASK_def GENMASK_def mask_eq_exp_minus_1)

lemma NUM_USER_ASIDS_eq: "unat (asid_bits s) \<in> {8, 16} \<Longrightarrow> NUM_USER_ASIDS s = 2 ^ unat (asid_bits s)"
  by (auto simp: NUM_USER_ASIDS_def ASID_FIRST_VERSION_def)

text \<open>Where the allocation finds its number, and the state it leaves.\<close>

definition asid_given :: "'a ktask_scheme \<Rightarrow> u64 \<Rightarrow> nat \<Rightarrow> 'a ktask_scheme" where
  "asid_given s task a =
     upd_tcb (s\<lparr>asid_bitmap := bitmap_set (asid_bitmap s) a 1\<rparr>) task
       (\<lambda>t. t\<lparr>t_asid := word_of_nat a OR asid_generation s\<rparr>)\<lparr>cur_idx := word_of_nat a\<rparr>"

definition asid_rolled :: "'a ktask_scheme \<Rightarrow> nat \<Rightarrow> 'a ktask_scheme" where
  "asid_rolled s r = s\<lparr>asid_generation := asid_gen (unat (asid_bits s)) (r + 1), b_tlb_flush := True,
     asid_bitmap := bitmap_clear (asid_bitmap s) 0 (int (2 ^ unat (asid_bits s)))\<rparr>"

lemma next_generation:
  assumes "A \<le> 16" "(r + 2) * 2 ^ A < 2 ^ 32"
  shows "(ucast (push_bit A (ucast (drop_bit A (asid_gen A r)) + 1 :: u32)) :: u64) = asid_gen A (r + 1)"
proof -
  have "unat (drop_bit A (asid_gen A r)) = r + 1"
    using assms(2) by (simp add: unat_drop_bit unat_asid_gen)
  then have "ucast (drop_bit A (asid_gen A r)) = (word_of_nat (r + 1) :: u32)"
    by (simp add: ucast_eq_of_nat)
  then have idx: "ucast (drop_bit A (asid_gen A r)) + 1 = (word_of_nat (r + 2) :: u32)" by simp
  have "push_bit A (word_of_nat (r + 2) :: u32) = word_of_nat ((r + 2) * 2 ^ A)"
    unfolding push_bit_eq_mult by (simp add: algebra_simps)
  then have "unat (push_bit A (word_of_nat (r + 2) :: u32)) = (r + 2) * 2 ^ A"
    using unat_of_nat_small [of "(r + 2) * 2 ^ A", where 'a = 32] assms(2) by simp
  moreover have "unat (asid_gen A (r + 1)) = (r + 2) * 2 ^ A"
    using unat_asid_gen [of "r + 1" A] assms(2) by (simp add: algebra_simps)
  ultimately show ?thesis
    unfolding idx by (simp add: word_unat_eq_iff unat_ucast_up)
qed

lemma asid_allocate_eq:
  assumes "unat (asid_bits s) \<in> {8, 16}" "asid_generation s = asid_gen (unat (asid_bits s)) r"
    and "(r + 2) * 2 ^ unat (asid_bits s) < 2 ^ 32"
  shows "asid_allocate s task =
    (case first_from (\<lambda>j. \<not> abit (asid_bitmap s) j) (unat (cur_idx s)) (2 ^ unat (asid_bits s)) of
       Some a \<Rightarrow> (word_of_nat a, asid_given s task a)
     | None \<Rightarrow> (1, asid_given (asid_rolled s r) task 1))"
proof (cases "first_from (\<lambda>j. \<not> abit (asid_bitmap s) j) (unat (cur_idx s)) (2 ^ unat (asid_bits s))")
  case (Some a)
  then have "\<not> 2 ^ unat (asid_bits s) \<le> a" by (simp add: first_from_Some_iff)
  then show ?thesis
    unfolding asid_allocate_def find_next_zero_bit_first Let_def first_or_def NUM_USER_ASIDS_eq [OF assms(1)] Some
    by (simp add: asid_given_def upd_tcb_def)
next
  case None
  let ?A = "unat (asid_bits s)"
  have A: "?A \<le> 16" using assms(1) by auto
  have one: "1 < (2::nat) ^ ?A" and len: "0 + 2 ^ ?A < (2::nat) ^ 32" using assms(1) by auto
  have "first_from (\<lambda>j. \<not> abit (bitmap_clear (asid_bitmap s) 0 (int (2 ^ ?A))) j) 1 (2 ^ ?A) = Some 1"
    using one by (intro first_from_hit) (simp_all only: abit_bitmap_clear [OF len], simp_all)
  then show ?thesis
    unfolding asid_allocate_def find_next_zero_bit_first Let_def first_or_def NUM_USER_ASIDS_eq [OF assms(1)] None
    using next_generation [OF A assms(3)]
    by (simp add: asid_given_def asid_rolled_def upd_tcb_def assms(2))
qed

text \<open>
  The owners of the numbers in the current generation.  A task is a control block address
  together with the count of \<^verbatim>\<open>task_init\<close> calls on it, so that a block that is used again is a
  new task.
\<close>

type_synonym incarnation = "u64 \<times> nat"

inductive asid_run ::
  "'a ktask_scheme \<Rightarrow> 'a ktask_scheme \<Rightarrow> (u64 \<Rightarrow> nat) \<Rightarrow> (nat \<rightharpoonup> incarnation) \<Rightarrow> nat \<Rightarrow> bool" for s0 where
  asid_start: "asid_run s0 s0 (\<lambda>_. 0) Map.empty 0"
| asid_task_init: "asid_run s0 s inc own r \<Longrightarrow>
    asid_run s0 (task_init s g_noname task typ) (inc(task := inc task + 1)) own r"
| asid_switch: "asid_run s0 s inc own r \<Longrightarrow> 0 < inc to \<Longrightarrow> t_type (tcbs s to) \<noteq> TASK_TYPE_KERNEL \<Longrightarrow>
    check_and_switch_context s to = (asid, s') \<Longrightarrow>
    asid_run s0 s' inc
      ((if asid_generation s' = asid_generation s then own else Map.empty)
         (unat (asid AND ASID_MASK s) \<mapsto> (to, inc to)))
      (if asid_generation s' = asid_generation s then r else r + 1)"

definition asid_inv ::
  "'a ktask_scheme \<Rightarrow> (u64 \<Rightarrow> nat) \<Rightarrow> (nat \<rightharpoonup> incarnation) \<Rightarrow> nat \<Rightarrow> bool" where
  "asid_inv s inc own r \<longleftrightarrow>
     (let A = unat (asid_bits s) in
        A \<in> {8, 16} \<and> asid_generation s = asid_gen A r \<and> 1 \<le> unat (cur_idx s) \<and>
        dom own \<subseteq> {1..<2 ^ A} \<and> (\<forall>i<2 ^ A. abit (asid_bitmap s) i \<longleftrightarrow> i \<in> dom own) \<and>
        (\<forall>t. 0 < inc t \<and> t_asid (tcbs s t) \<noteq> 0 \<longrightarrow>
           unat (t_asid (tcbs s t) AND mask A) \<noteq> 0 \<and> unat (t_asid (tcbs s t)) < (r + 2) * 2 ^ A \<and>
           (t_asid (tcbs s t) AND NOT (mask A) = asid_gen A r \<longrightarrow>
              own (unat (t_asid (tcbs s t) AND mask A)) = Some (t, inc t))))"

lemma word_or_asid:
  assumes "A \<in> {8, 16}" "a < 2 ^ A" "(r + 1) * 2 ^ A < 2 ^ 32"
  shows "(word_of_nat a OR asid_gen A r) AND mask A = word_of_nat a"
    and "(word_of_nat a OR asid_gen A r) AND NOT (mask A) = asid_gen A r"
    and "unat (word_of_nat a OR asid_gen A r) < (r + 2) * 2 ^ A"
proof -
  have a: "unat (word_of_nat a :: u64) = a" using assms(1,2) by (auto intro!: unat_of_nat_small)
  have "(word_of_nat a :: u64) AND NOT (mask A) = 0"
    using assms(1,2) by (intro small_and_not_mask) (auto simp: a)
  from or_split_mask [OF this asid_gen_mask, of r]
  show "(word_of_nat a OR asid_gen A r) AND mask A = word_of_nat a"
    and not: "(word_of_nat a OR asid_gen A r) AND NOT (mask A) = asid_gen A r" .
  have "unat (word_of_nat a OR asid_gen A r) div 2 ^ A * 2 ^ A = (r + 1) * 2 ^ A"
    using arg_cong [OF not, of unat] assms(1,3) by (auto simp: unat_and_not_mask unat_asid_gen)
  then have "unat (word_of_nat a OR asid_gen A r) div 2 ^ A = r + 1" by (simp only: mult_cancel2) simp
  then have "unat (word_of_nat a OR asid_gen A r) div 2 ^ A < r + 2" by simp
  then show "unat (word_of_nat a OR asid_gen A r) < (r + 2) * 2 ^ A"
    by (subst (asm) div_less_iff_less_mult) simp_all
qed

lemma asid_inv_given:
  assumes inv: "asid_inv s inc own r" and a: "1 \<le> a" "a < 2 ^ unat (asid_bits s)" "a \<notin> dom own"
    and r: "(r + 1) * 2 ^ unat (asid_bits s) < 2 ^ 32"
  shows "asid_inv (asid_given s task a) inc (own(a \<mapsto> (task, inc task))) r"
proof -
  let ?A = "unat (asid_bits s)"
  have A: "?A \<in> {8, 16}" using inv by (simp add: asid_inv_def Let_def)
  have u: "unat (word_of_nat a :: u64) = a" "unat (word_of_nat a :: u32) = a"
    using A a(2) by (auto intro!: unat_of_nat_small)
  have a31: "a < 2 ^ 31" using A a(2) by auto
  note w = word_or_asid [OF A a(2) r]
  have gen: "asid_generation s = asid_gen ?A r" using inv by (simp add: asid_inv_def Let_def)
  show ?thesis
    using inv a(1,2,3) bitmap_set_one [OF a31]
    unfolding asid_inv_def Let_def asid_given_def upd_tcb_def
    by (auto simp: gen w u) (use w(3) in simp_all)
qed

lemma asid_inv_rolled:
  assumes inv: "asid_inv s inc own r" and r: "(r + 2) * 2 ^ unat (asid_bits s) < 2 ^ 32"
  shows "asid_inv (asid_rolled s r) inc Map.empty (r + 1)"
proof -
  let ?A = "unat (asid_bits s)"
  have A: "?A \<in> {8, 16}" using inv by (simp add: asid_inv_def Let_def)
  then have len: "0 + 2 ^ ?A < (2::nat) ^ 32" and A64: "?A \<le> LENGTH(64)" by auto
  have stale: "x AND NOT (mask ?A) \<noteq> asid_gen ?A (r + 1)" if "unat x < (r + 2) * 2 ^ ?A" for x :: u64
  proof
    assume "x AND NOT (mask ?A) = asid_gen ?A (r + 1)"
    then have "unat x div 2 ^ ?A * 2 ^ ?A = (r + 2) * 2 ^ ?A"
      using unat_asid_gen [of "r + 1" ?A] r A64 by (simp add: unat_and_not_mask [symmetric])
    then show False using div_times_less_eq_dividend [of "unat x" "2 ^ ?A"] that by simp
  qed
  have old: "unat (t_asid (tcbs s t) AND mask ?A) \<noteq> 0" "unat (t_asid (tcbs s t)) < (r + 2) * 2 ^ ?A"
    if "0 < inc t" "t_asid (tcbs s t) \<noteq> 0" for t
    using inv that unfolding asid_inv_def Let_def by blast+
  have "unat (t_asid (tcbs s t)) < (r + 1 + 2) * 2 ^ ?A" if "0 < inc t" "t_asid (tcbs s t) \<noteq> 0" for t
    using old(2) [OF that] by simp
  moreover have "\<not> abit (bitmap_clear (asid_bitmap s) 0 (int (2 ^ ?A))) i" if "i < 2 ^ ?A" for i
    using that by (simp only: abit_bitmap_clear [OF len]) simp
  ultimately show ?thesis
    using inv A old stale [OF old(2)]
    unfolding asid_inv_def Let_def asid_rolled_def by (simp del: of_nat_power)
qed

lemma asid_inv_claimed:
  assumes inv: "asid_inv s inc own r" and n: "n = unat (t_asid (tcbs s task) AND mask (unat (asid_bits s)))"
    and t: "0 < inc task" "t_asid (tcbs s task) \<noteq> 0" "n \<notin> dom own"
    and st: "t_asid (tcbs s task) AND NOT (mask (unat (asid_bits s))) \<noteq> asid_generation s"
  shows "asid_inv (s\<lparr>asid_bitmap := snd (test_and_set_bit n (asid_bitmap s))\<rparr>) inc (own(n \<mapsto> (task, inc task))) r"
proof -
  let ?A = "unat (asid_bits s)"
  have A: "?A \<in> {8, 16}" using inv by (simp add: asid_inv_def Let_def)
  have "n \<noteq> 0" using inv t(1,2) unfolding asid_inv_def Let_def n by blast
  moreover have "n < 2 ^ ?A"
    unfolding n take_bit_eq_mask [symmetric] using A by (auto simp: unsigned_take_bit_eq)
  ultimately show ?thesis
    using inv t(3) test_and_set_bit_props(2) [of n "asid_bitmap s"]
    unfolding asid_inv_def Let_def by auto
qed

definition asid_step_ok ::
  "'a ktask_scheme \<Rightarrow> (u64 \<Rightarrow> nat) \<Rightarrow> (nat \<rightharpoonup> incarnation) \<Rightarrow> nat \<Rightarrow> u64 \<Rightarrow> nat \<Rightarrow> 'a ktask_scheme \<Rightarrow> bool" where
  "asid_step_ok s inc own r to n s' \<longleftrightarrow> asid_bits s' = asid_bits s \<and> 1 \<le> n \<and> n < 2 ^ unat (asid_bits s) \<and>
     (if asid_generation s' = asid_generation s
      then (own n = None \<or> own n = Some (to, inc to)) \<and> asid_inv s' inc (own(n \<mapsto> (to, inc to))) r
      else b_tlb_flush s' \<and> asid_inv s' inc [n \<mapsto> (to, inc to)] (r + 1))"

lemma asid_allocate_step:
  assumes inv: "asid_inv s inc own r" and r: "(r + 2) * 2 ^ unat (asid_bits s) < 2 ^ 32"
    and alloc: "asid_allocate s to = (asid, s')"
  shows "asid_step_ok s inc own r to (unat (asid AND ASID_MASK s)) s'"
proof -
  let ?A = "unat (asid_bits s)"
  have A: "?A \<in> {8, 16}" and gen: "asid_generation s = asid_gen ?A r" and cur: "1 \<le> unat (cur_idx s)"
    and bits: "\<And>i. i < 2 ^ ?A \<Longrightarrow> abit (asid_bitmap s) i \<longleftrightarrow> i \<in> dom own"
    using inv by (auto simp: asid_inv_def Let_def)
  have r1: "(r + 1) * 2 ^ ?A < 2 ^ 32" using r by simp
  have one: "1 < (2::nat) ^ ?A" using A by auto
  have num: "unat (word_of_nat a AND ASID_MASK s) = a" if "a < 2 ^ ?A" for a
  proof -
    have "word_of_nat a AND (mask ?A :: u64) = word_of_nat a"
      using word_or_asid(1) [OF A that r1] asid_gen_mask [of ?A r]
      by (simp add: and.commute bit.conj_disj_distrib)
    moreover have "unat (word_of_nat a :: u64) = a" using A that by (auto intro!: unat_of_nat_small)
    ultimately show ?thesis using ASID_MASK_eq [OF A] by simp
  qed
  note eq = asid_allocate_eq [OF A gen r, of to]
  show ?thesis
  proof (cases "first_from (\<lambda>j. \<not> abit (asid_bitmap s) j) (unat (cur_idx s)) (2 ^ ?A)")
    case (Some a)
    then have a: "1 \<le> a" "a < 2 ^ ?A" "a \<notin> dom own" using cur bits by (auto simp: first_from_Some_iff)
    then have none: "own a = None" by blast
    have "asid = word_of_nat a" "s' = asid_given s to a" using alloc eq Some by simp_all
    moreover have "asid_generation (asid_given s to a) = asid_generation s" "asid_bits (asid_given s to a) = asid_bits s"
      by (simp_all add: asid_given_def upd_tcb_def)
    ultimately show ?thesis
      using asid_inv_given [OF inv a r1, of to] a none by (simp add: asid_step_ok_def num [OF a(2)])
  next
    case None
    let ?s = "asid_given (asid_rolled s r) to 1"
    have s': "asid = 1" "s' = ?s" using alloc eq None by simp_all
    have n: "unat (asid AND ASID_MASK s) = 1" using num [OF one] by (simp add: s'(1))
    have f: "asid_bits ?s = asid_bits s" "asid_generation ?s = asid_gen ?A (r + 1)" "b_tlb_flush ?s"
      "asid_bits (asid_rolled s r) = asid_bits s"
      by (simp_all add: asid_given_def asid_rolled_def upd_tcb_def)
    have "asid_gen ?A (r + 1) \<noteq> asid_gen ?A r"
      using unat_asid_gen [of r ?A] unat_asid_gen [of "r + 1" ?A] r by (auto dest: arg_cong [of _ _ unat])
    moreover have "asid_inv ?s inc [1 \<mapsto> (to, inc to)] (r + 1)"
      using asid_inv_given [OF asid_inv_rolled [OF inv r], of 1 to] one r by (simp add: f)
    ultimately show ?thesis unfolding asid_step_ok_def n using one by (simp add: s'(2) f gen del: One_nat_def)
  qed
qed

lemma asid_inv_bits:
  "asid_inv s inc own r \<Longrightarrow> (\<And>i. abit bm i \<longleftrightarrow> abit (asid_bitmap s) i) \<Longrightarrow> asid_inv (s\<lparr>asid_bitmap := bm\<rparr>) inc own r"
  by (simp add: asid_inv_def Let_def)

lemma asid_switch_step:
  assumes inv: "asid_inv s inc own r" and r: "(r + 2) * 2 ^ unat (asid_bits s) < 2 ^ 32"
    and t: "0 < inc to" "t_type (tcbs s to) \<noteq> TASK_TYPE_KERNEL"
    and sw: "check_and_switch_context s to = (asid, s')"
  shows "asid_step_ok s inc own r to (unat (asid AND ASID_MASK s)) s'"
proof -
  let ?A = "unat (asid_bits s)" and ?a = "t_asid (tcbs s to)"
  let ?n = "unat (?a AND mask ?A)"
  have A: "?A \<in> {8, 16}" and gen: "asid_generation s = asid_gen ?A r"
    and bits: "\<And>i. i < 2 ^ ?A \<Longrightarrow> abit (asid_bitmap s) i \<longleftrightarrow> i \<in> dom own"
    using inv by (auto simp: asid_inv_def Let_def)
  note M = ASID_MASK_eq [OF A]
  have n_lt: "?n < 2 ^ ?A" unfolding take_bit_eq_mask [symmetric] using A by (auto simp: unsigned_take_bit_eq)
  have n_pos: "?n \<noteq> 0" if "?a \<noteq> 0" using inv t(1) that unfolding asid_inv_def Let_def by blast
  have own: "own ?n = Some (to, inc to)" if "?a AND NOT (mask ?A) = asid_gen ?A r" "?a \<noteq> 0"
    using inv t(1) that unfolding asid_inv_def Let_def by blast
  have "unat (asid_gen ?A r) \<noteq> 0" using unat_asid_gen [of r ?A] r by simp
  then have gen0: "asid_gen ?A r \<noteq> 0" by (metis unsigned_0)
  consider (current) "?a AND NOT (mask ?A) = asid_gen ?A r"
    | (claim) "?a AND NOT (mask ?A) \<noteq> asid_gen ?A r" "?a \<noteq> 0" "\<not> abit (asid_bitmap s) ?n"
    | (taken) "?a AND NOT (mask ?A) \<noteq> asid_gen ?A r" "?a \<noteq> 0" "abit (asid_bitmap s) ?n"
    | (fresh) "?a AND NOT (mask ?A) \<noteq> asid_gen ?A r" "?a = 0" by blast
  then show ?thesis
  proof cases
    case current
    then have nz: "?a \<noteq> 0" using gen0 by auto
    have "check_and_switch_context s to = (?a, s)"
      using t(2) current by (simp add: check_and_switch_context_def Let_def M gen)
    then have "asid = ?a" "s' = s" using sw by auto
    moreover have "own(?n \<mapsto> (to, inc to)) = own" using own [OF current nz] by auto
    ultimately show ?thesis
      using inv own [OF current nz] n_pos [OF nz] n_lt by (simp add: asid_step_ok_def M Suc_le_eq)
  next
    case claim
    then have "asid = asid_gen ?A r OR (?a AND mask ?A)"
        and s': "s' = s\<lparr>asid_bitmap := snd (test_and_set_bit ?n (asid_bitmap s))\<rparr>"
      using sw t(2) test_and_set_bit_props(1) [of ?n "asid_bitmap s"]
      by (simp_all add: check_and_switch_context_def Let_def M gen split: prod.splits)
    moreover have "word_of_nat ?n = ?a AND mask ?A" by simp
    ultimately have "asid AND mask ?A = ?a AND mask ?A"
      using word_or_asid(1) [OF A n_lt, of r] r by (simp add: or.commute)
    moreover have none: "?n \<notin> dom own" using bits [OF n_lt] claim(3) by simp
    then have "own ?n = None" by blast
    ultimately show ?thesis
      using asid_inv_claimed [OF inv refl t(1) claim(2) none] claim(1) n_pos [OF claim(2)] n_lt gen
      by (simp add: asid_step_ok_def M s' Suc_le_eq)
  next
    case taken
    let ?s = "s\<lparr>asid_bitmap := snd (test_and_set_bit ?n (asid_bitmap s))\<rparr>"
    have "asid_allocate ?s to = (asid, s')"
      using sw t(2) taken test_and_set_bit_props(1) [of ?n "asid_bitmap s"]
      by (simp add: check_and_switch_context_def Let_def M gen split: prod.splits)
    moreover have "asid_inv ?s inc own r"
      by (rule asid_inv_bits [OF inv]) (use test_and_set_bit_props(2) [of ?n "asid_bitmap s"] taken(3) in auto)
    moreover have "ASID_MASK ?s = ASID_MASK s" by (simp add: ASID_MASK_def)
    ultimately show ?thesis
      using asid_allocate_step [of ?s inc own r to asid s'] r by (auto simp: asid_step_ok_def split: if_splits)
  next
    case fresh
    then have "asid_allocate s to = (asid, s')"
      using sw t(2) gen0 by (simp add: check_and_switch_context_def Let_def M gen)
    then show ?thesis by (rule asid_allocate_step [OF inv r])
  qed
qed

lemma task_init_tcbs:
  "tcbs (task_init s g_noname task typ) = (tcbs s)(task := tcb_zero\<lparr>t_state := TSTATE_TASK_INACTIVE,
     t_init_priority := CONFIG_DEFAULT_TASK_PRIORITY, t_sched_priority := CONFIG_DEFAULT_TASK_PRIORITY,
     t_timeslice := CONFIG_RR_INTERVAL, t_type := typ, t_context := context_init (\<lambda>_. 0) typ\<rparr>)"
  by (simp add: task_init_def Let_def upd_tcb_def task_setup_name_def tcb_zero_def)

lemma task_init_other [simp]:
  "task_bitmap (task_init s g_noname task typ) = task_bitmap s"
  "g_lasttid (task_init s g_noname task typ) = g_lasttid s"
  "asid_bits (task_init s g_noname task typ) = asid_bits s"
  "asid_generation (task_init s g_noname task typ) = asid_generation s"
  "asid_bitmap (task_init s g_noname task typ) = asid_bitmap s"
  "cur_idx (task_init s g_noname task typ) = cur_idx s"
  "b_tlb_flush (task_init s g_noname task typ) = b_tlb_flush s"
  by (simp_all add: task_init_def Let_def upd_tcb_def task_setup_name_def)

lemma asid_inv_task_init:
  assumes inv: "asid_inv s inc own r"
  shows "asid_inv (task_init s g_noname task typ) (inc(task := inc task + 1)) own r"
proof -
  let ?s = "task_init s g_noname task typ"
  have "t_asid (tcbs ?s task) = 0" by (simp add: task_init_tcbs tcb_zero_def)
  moreover have "tcbs ?s t = tcbs s t" if "t \<noteq> task" for t using that by (simp add: task_init_tcbs)
  ultimately show ?thesis
    using inv unfolding asid_inv_def Let_def task_init_other by (metis (no_types, lifting) fun_upd_apply)
qed

lemma check_and_switch_bits: "check_and_switch_context s to = (asid, s') \<Longrightarrow> asid_bits s' = asid_bits s"
  by (auto simp: check_and_switch_context_def asid_allocate_def upd_tcb_def Let_def split: if_splits prod.splits)

lemma asid_run_inv:
  "asid_run s0 s inc own r \<Longrightarrow> asid_inv s0 (\<lambda>_. 0) Map.empty 0 \<Longrightarrow> (r + 2) * 2 ^ unat (asid_bits s) < 2 ^ 32
     \<Longrightarrow> asid_inv s inc own r"
proof (induction rule: asid_run.induct)
  case (asid_task_init s inc own r g_noname task ty)
  then have "asid_inv s inc own r" by simp
  then show ?case by (rule asid_inv_task_init)
next
  case (asid_switch s inc own r to asid s')
  have bits: "asid_bits s' = asid_bits s" using asid_switch.hyps(4) by (rule check_and_switch_bits)
  have r: "(r + 2) * 2 ^ unat (asid_bits s) < 2 ^ 32"
    using asid_switch.prems(2) by (auto simp: bits split: if_splits)
  have "asid_step_ok s inc own r to (unat (asid AND ASID_MASK s)) s'"
    using asid_switch.IH asid_switch.prems(1) r asid_switch.hyps by (intro asid_switch_step) auto
  then show ?case
    by (cases "asid_generation s' = asid_generation s") (simp_all add: asid_step_ok_def fun_upd_def)
qed

lemma asid_initialize_inv:
  assumes "asid_initialize s mmfr0 bm = Some s0" "cur_idx s = 1"
  shows "asid_inv s0 (\<lambda>_. 0) Map.empty 0"
proof -
  obtain A where A: "get_cpu_asid_bits mmfr0 = Some A" "A = 8 \<or> A = 16"
    using assms(1) by (auto simp: asid_initialize_def get_cpu_asid_bits_def Let_def PANIC_def split: if_splits bind_splits)
  then have b: "unat (asid_bits (s\<lparr>asid_bits := A\<rparr>)) \<in> {8, 16}" by auto
  have s0: "s0 = s\<lparr>asid_bits := A, asid_bitmap := bitmap_zero bm (2 ^ unat A), asid_generation := push_bit (unat A) 1\<rparr>"
    using assms(1) NUM_USER_ASIDS_eq [OF b]
    by (simp add: asid_initialize_def A(1) Let_def ASID_FIRST_VERSION_def)
  show ?thesis
    using A(2) assms(2) by (auto simp: asid_inv_def Let_def s0 asid_gen_def bitmap_zero_def abit_def below_longs)
qed


section \<open>What task creation leaves\<close>

definition task_name_field :: "'a ktask_scheme \<Rightarrow> u64 \<Rightarrow> u8 list" where
  "task_name_field s task = map (\<lambda>i. bytes s (task + OFFS_TCB_NAME + word_of_nat i)) [0..<64]"

lemma task_setup_name_field:
  assumes "name \<noteq> 0" "c_string (bytes s) name xs"
    and "apart (task + OFFS_TCB_NAME) (unat CONFIG_TASK_NAME_SIZE) name (Suc (length xs))"
  shows "task_name_field (task_setup_name s g_noname task name) task =
    map (\<lambda>i. if i < min 63 (length xs) then xs ! i else 0) [0..<64]"
proof -
  have "task_setup_name s g_noname task name =
    s\<lparr>bytes := (\<lambda>a. if unat (a - (task + OFFS_TCB_NAME)) < 63
       then if unat (a - (task + OFFS_TCB_NAME)) < length xs then xs ! unat (a - (task + OFFS_TCB_NAME)) else 0
       else bytes s a)(task + OFFS_TCB_NAME + CONFIG_TASK_NAME_SIZE := 0)\<rparr>"
    using k_strncpy_eq [OF assms(2,3)] assms(1)
    by (simp add: task_setup_name_def CONFIG_TASK_NAME_SIZE_def Let_def)
  moreover have u: "unat (word_of_nat i :: u64) = i" if "i < 64" for i
    using that unat_of_nat_small [of i, where 'a = 64] by simp
  moreover have "task + OFFS_TCB_NAME + word_of_nat i = task + OFFS_TCB_NAME + CONFIG_TASK_NAME_SIZE \<longleftrightarrow> i = 63"
    if "i < 64" for i
  proof -
    have "(word_of_nat i :: u64) = 63 \<longleftrightarrow> i = 63" using u [OF that] by (auto simp: word_unat_eq_iff)
    then show ?thesis by (simp only: CONFIG_TASK_NAME_SIZE_def add_left_cancel)
  qed
  ultimately show ?thesis unfolding task_name_field_def by (auto simp: less_Suc_eq)
qed

lemma task_init_bytes_frame:
  assumes "536 \<le> unat (a - task)"
  shows "bytes (task_init s g_noname task ty) a = bytes s a"
proof -
  have small: "unat (a - task - k) = unat (a - task) - unat k" if "unat k \<le> 536" for k
    using assms that by (intro unat_minus_small) simp
  have d: "63 \<le> unat (a - (task + OFFS_TCB_NAME))" "a \<noteq> task + OFFS_TCB_NAME + CONFIG_TASK_NAME_SIZE"
  proof -
    have "unat (a - (task + OFFS_TCB_NAME)) = unat (a - task) - 44"
      using small [of OFFS_TCB_NAME] by (simp add: OFFS_TCB_NAME_def diff_diff_eq)
    then show "63 \<le> unat (a - (task + OFFS_TCB_NAME))" using assms by simp
    show "a \<noteq> task + OFFS_TCB_NAME + CONFIG_TASK_NAME_SIZE"
      using assms by (auto simp: OFFS_TCB_NAME_def CONFIG_TASK_NAME_SIZE_def)
  qed
  show ?thesis
    using d assms
    by (simp add: task_init_def Let_def upd_tcb_def task_setup_name_def k_strncpy_frame k_memset_fill fill_def
        CONFIG_TASK_NAME_SIZE_def SIZEOF_TCB_def)
qed

lemma task_create_eq:
  assumes "tid_ok s"
  shows "task_create s g_noname task entry name priority stack sz ty as =
    (if unat priority < CONFIG_MAX_TASK_PRIORITY then
       let s1 = task_setup_name (task_init s g_noname task ty) g_noname task name;
           found = first_from (\<lambda>j. \<not> abit (task_bitmap s) j) (tid_start s) CONFIG_MAX_TASKS
       in Some (s1\<lparr>tcbs := (tcbs s)(task := \<lparr>t_tid = (case found of None \<Rightarrow> 0 | Some tid \<Rightarrow> word_of_nat tid), t_tgid = 0,
              t_sched_priority = priority, t_init_priority = priority, t_entry = entry,
              t_state = TSTATE_TASK_INACTIVE, t_stack = stack, t_stack_size = sz, t_readytime = 0,
              t_timeslice = CONFIG_RR_INTERVAL, t_type = ty,
              t_context = context_set_stack (context_set_entry (context_init (\<lambda>_. 0) ty) entry) stack sz,
              t_addrspace = as, t_mm = mm_area_zero, t_asid = 0\<rparr>),
            task_bitmap := (case found of None \<Rightarrow> task_bitmap s | Some tid \<Rightarrow> bitmap_set (task_bitmap s) tid 1),
            g_lasttid := (case found of None \<Rightarrow> g_lasttid s | Some tid \<Rightarrow> word_of_nat tid)\<rparr>)
     else None)"
proof -
  let ?s1 = "task_setup_name (task_init s g_noname task ty) g_noname task name"
  have s1: "tcbs ?s1 = tcbs (task_init s g_noname task ty)" "task_bitmap ?s1 = task_bitmap s" "g_lasttid ?s1 = g_lasttid s"
    by (simp_all add: task_setup_name_def Let_def)
  then have ok: "tid_ok ?s1" "tid_start ?s1 = tid_start s" using assms by (simp_all add: tid_ok_def tid_start_def)
  show ?thesis
  proof (cases "first_from (\<lambda>j. \<not> abit (task_bitmap s) j) (tid_start s) CONFIG_MAX_TASKS")
    case None
    then have "task_assign_tid ?s1 task = (INVALID_TASK_ID, ?s1)"
      using task_assign_tid_eq [OF ok(1)] by (simp add: ok(2) s1)
    with None show ?thesis
      by (auto simp: task_create_def Let_def k_assert_def upd_tcb_def s1 task_init_tcbs tcb_zero_def
          intro!: ktask.equality)
  next
    case (Some tid)
    with task_assign_tid_eq [OF ok(1), of task] show ?thesis
      by (auto simp: task_create_def Let_def k_assert_def upd_tcb_def s1 ok(2) task_init_tcbs tcb_zero_def
          intro!: ktask.equality)
  qed
qed

section \<open>Properties\<close>

abbreviation demo_ktask :: ktask where
  "demo_ktask \<equiv> \<lparr>cells = \<lparr>nextp = (\<lambda>_. 0), prevp = (\<lambda>_. 0)\<rparr>, tcbs = (\<lambda>_. tcb_zero),
     bytes = (\<lambda>a. if a = 0x10 then 0x41 else 0), task_bitmap = (\<lambda>_. 0), g_lasttid = - 1, asid_bits = 8,
     asid_generation = 0x100, asid_bitmap = (\<lambda>_. 0), cur_idx = 1, b_tlb_flush = False, ttbr0_el1 = 0, tlb_flushes = 0\<rparr>"

text \<open>
  C35.  Task identifiers are unique.  From an empty pool, after any sequence of
  \<^verbatim>\<open>task_assign_tid\<close> and \<^verbatim>\<open>task_release_tid\<close> (of identifiers in use), the identifiers in use are
  pairwise different and below \<^verbatim>\<open>CONFIG_MAX_TASKS\<close>, the next one handed out is the least
  unused one above \<^verbatim>\<open>g_lasttid\<close> (\<^verbatim>\<open>INVALID_TASK_ID\<close> when there is none), and an identifier
  just released is the next one handed out.
\<close>

theorem task_ids_unique:
  assumes "g_lasttid s0 = - 1" "\<forall>i<CONFIG_MAX_TASKS. \<not> abit (task_bitmap s0) i" "tid_run s0 s live"
  shows "distinct live \<and> (\<forall>tid\<in>set live. unat tid < CONFIG_MAX_TASKS) \<and>
    fst (task_assign_tid s task) =
      (case first_from (\<lambda>j. word_of_nat j \<notin> set live) (unat (g_lasttid s + 1)) CONFIG_MAX_TASKS of
         None \<Rightarrow> INVALID_TASK_ID | Some tid \<Rightarrow> word_of_nat tid) \<and>
    (\<forall>tid\<in>set live. fst (task_assign_tid (task_release_tid s tid) task) = tid)"
proof -
  have "tid_inv s0 []" using assms(1,2) by (simp add: tid_inv_def tid_ok_def)
  with assms(3) have inv: "tid_inv s live" by (rule tid_run_inv)
  have next_id: "fst (task_assign_tid s task) =
      (case first_from (\<lambda>j. word_of_nat j \<notin> set live) (unat (g_lasttid s + 1)) CONFIG_MAX_TASKS of
         None \<Rightarrow> INVALID_TASK_ID | Some tid \<Rightarrow> word_of_nat tid)" if "tid_inv s live" for s :: "'a ktask_scheme" and live
  proof -
    have "first_from (\<lambda>j. \<not> abit (task_bitmap s) j) (tid_start s) CONFIG_MAX_TASKS =
      first_from (\<lambda>j. word_of_nat j \<notin> set live) (unat (g_lasttid s + 1)) CONFIG_MAX_TASKS"
      unfolding tid_start_def using that by (intro first_from_cong) (simp add: tid_inv_def)
    moreover have "tid_ok s" using that by (simp add: tid_inv_def)
    ultimately show ?thesis by (simp add: task_assign_tid_eq split: option.splits)
  qed
  have "fst (task_assign_tid (task_release_tid s tid) task) = tid" if t: "tid \<in> set live" for tid
  proof -
    have bound: "unat tid < CONFIG_MAX_TASKS" "distinct live" using inv t by (simp_all add: tid_inv_def)
    have "g_lasttid (task_release_tid s tid) + 1 = tid" by (simp add: task_release_tid_def)
    then show ?thesis
      using next_id [OF tid_inv_release [OF inv t]] bound by (simp add: first_from_hit)
  qed
  then show ?thesis using next_id [OF inv] inv by (simp add: tid_inv_def)
qed

theorem task_ids_unique_witness:
  "\<exists>s. tid_run demo_ktask s [0] \<and> fst (task_assign_tid s 0x200) = 1"
proof -
  let ?s = "snd (task_assign_tid demo_ktask 0x100)"
  have clear: "\<forall>i<CONFIG_MAX_TASKS. \<not> abit (task_bitmap demo_ktask) i" by (simp add: abit_def)
  have "tid_ok demo_ktask" by (simp add: tid_ok_def)
  then have eq: "task_assign_tid demo_ktask 0x100 = (0, ?s)" "g_lasttid ?s = 0"
    by (simp_all add: task_assign_tid_eq tid_start_def abit_def first_from_hit CONFIG_MAX_TASKS_def)
  have "tid_run demo_ktask ?s [0]"
    by (rule tid_assign [OF tid_run.tid_start eq(1)]) (simp add: INVALID_TASK_ID_def)
  moreover from this have "fst (task_assign_tid ?s 0x200) = 1"
    using task_ids_unique [OF _ clear, of ?s "[0]" "0x200"] eq(2)
    by (simp add: first_from_hit CONFIG_MAX_TASKS_def)
  ultimately show ?thesis by blast
qed

text \<open>
  C36.  Address space numbers are not shared.  Start from \<^verbatim>\<open>asid_initialize\<close> and let tasks be
  created and switched to in any order.  When a user task is switched to, its number is
  between 1 and the last one; if the generation stays, no other task has been given that
  number in this generation (a control block used again counts as another task); if the
  generation changes, a TLB flush is requested.  The generation counter is 32 bits wide in the
  code, hence the bound on the number of generations.
\<close>

theorem asid_not_shared:
  assumes "asid_initialize s mmfr0 bm = Some s0" "cur_idx s = 1" "asid_run s0 s1 inc own r"
    and "(r + 2) * NUM_USER_ASIDS s1 < 2 ^ 32" "0 < inc to" "t_type (tcbs s1 to) \<noteq> TASK_TYPE_KERNEL"
    and "check_and_switch_context s1 to = (asid, s2)"
  shows "let n = unat (asid AND ASID_MASK s1) in 0 < n \<and> n < NUM_USER_ASIDS s1 \<and>
    (if asid_generation s2 = asid_generation s1 then own n = None \<or> own n = Some (to, inc to)
     else b_tlb_flush s2)"
proof -
  have A0: "unat (asid_bits s0) \<in> {8, 16}"
    using asid_initialize_inv [OF assms(1,2)] by (simp add: asid_inv_def Let_def)
  have "asid_bits s1 = asid_bits s0" using assms(3)
    by (induction rule: asid_run.induct) (auto dest: check_and_switch_bits)
  with A0 have A: "unat (asid_bits s1) \<in> {8, 16}" by simp
  have r: "(r + 2) * 2 ^ unat (asid_bits s1) < 2 ^ 32" using assms(4) NUM_USER_ASIDS_eq [OF A] by simp
  have "asid_inv s1 inc own r" by (rule asid_run_inv [OF assms(3) asid_initialize_inv [OF assms(1,2)] r])
  from asid_switch_step [OF this r assms(5-7)] show ?thesis
    by (auto simp: asid_step_ok_def Let_def NUM_USER_ASIDS_eq [OF A] split: if_splits)
qed

theorem asid_not_shared_witness:
  "let s1 = task_init (the (asid_initialize demo_ktask 0 (\<lambda>_. 0))) 0x10 0x1000 TASK_TYPE_USER;
       n = unat (fst (check_and_switch_context s1 0x1000) AND ASID_MASK s1)
   in 0 < n \<and> n < 256"
proof -
  let ?s0 = "the (asid_initialize demo_ktask 0 (\<lambda>_. 0))"
  let ?s1 = "task_init ?s0 0x10 0x1000 TASK_TYPE_USER"
  have s0: "asid_initialize demo_ktask 0 (\<lambda>_. 0) = Some ?s0" "asid_bits ?s0 = 8"
    by (simp_all add: asid_initialize_def get_cpu_asid_bits_def bitfield_get_def Let_def)
  have run: "asid_run ?s0 ?s1 ((\<lambda>_. 0)(0x1000 := 0 + 1)) Map.empty 0"
    by (rule asid_task_init) (rule asid_start)
  have n: "NUM_USER_ASIDS ?s1 = 256" by (simp add: NUM_USER_ASIDS_def ASID_FIRST_VERSION_def s0(2))
  have ty: "t_type (tcbs ?s1 0x1000) \<noteq> TASK_TYPE_KERNEL"
    by (simp add: task_init_tcbs TASK_TYPE_USER_def TASK_TYPE_KERNEL_def)
  obtain asid s2 where "check_and_switch_context ?s1 0x1000 = (asid, s2)" by fastforce
  with asid_not_shared [OF s0(1) _ run, of "0x1000" asid s2] show ?thesis
    using n ty by (simp add: Let_def)
qed

text \<open>
  C37.  A switch between tasks of different groups puts the page table of the new task and its
  number into TTBR0_EL1 (the number in the top \<^verbatim>\<open>asid_bits\<close> bits), and flushes the TLB when a
  flush is pending; a switch inside a group or to a kernel task leaves TTBR0_EL1 alone.
\<close>

theorem task_switch_ttbr0:
  assumes "unat (asid_bits s) \<in> {8, 16}" "unat (vbase_to_pbase (t_addrspace (tcbs s to))) < 2 ^ 48"
    and "t_type (tcbs s to) \<in> {TASK_TYPE_KERNEL, TASK_TYPE_USER}"
  shows "\<exists>s'. task_switch s from to = Some s' \<and>
    (if t_tgid (tcbs s to) = t_tgid (tcbs s from) then ttbr0_el1 s' = ttbr0_el1 s
     else \<not> b_tlb_flush s' \<and>
       tlb_flushes s' = tlb_flushes s + of_bool (b_tlb_flush (snd (check_and_switch_context s to))) \<and>
       (if t_type (tcbs s to) = TASK_TYPE_KERNEL then ttbr0_el1 s' = ttbr0_el1 s
        else ttbr0_el1 s' AND mask 48 = vbase_to_pbase (t_addrspace (tcbs s to)) \<and>
          drop_bit (64 - unat (asid_bits s)) (ttbr0_el1 s') =
            fst (check_and_switch_context s to) AND ASID_MASK s))"
proof -
  obtain asid s1 where c: "check_and_switch_context s to = (asid, s1)" by fastforce
  have same: "asid_bits s1 = asid_bits s" "ttbr0_el1 s1 = ttbr0_el1 s" "tlb_flushes s1 = tlb_flushes s"
    "t_tgid (tcbs s1 t) = t_tgid (tcbs s t)" "t_addrspace (tcbs s1 t) = t_addrspace (tcbs s t)"
    "t_type (tcbs s1 t) = t_type (tcbs s t)" for t
    using c by (auto simp: check_and_switch_context_def asid_allocate_def upd_tcb_def Let_def
        split: if_splits prod.splits)
  let ?A = "unat (asid_bits s)" and ?pb = "vbase_to_pbase (t_addrspace (tcbs s to))"
  have A: "?A \<le> 16" using assms(1) by auto
  have pb: "\<not> bit ?pb i" if "48 \<le> i" for i using not_bit_small [OF assms(2)] that by blast
  have low: "(?pb OR push_bit (64 - ?A) asid) AND mask 48 = ?pb"
    by (rule bit_eqI) (use pb A in \<open>auto simp: bit_simps not_le [symmetric]\<close>)
  have high: "drop_bit (64 - ?A) (?pb OR push_bit (64 - ?A) asid) = asid AND mask ?A"
    by (rule bit_eqI) (use pb A in \<open>auto simp: bit_simps\<close>)
  have "TASK_TYPE_USER \<noteq> TASK_TYPE_KERNEL" by (simp add: TASK_TYPE_USER_def TASK_TYPE_KERNEL_def)
  then show ?thesis
    using assms(3) low high ASID_MASK_eq [OF assms(1)]
    by (auto simp: task_switch_def c same as_switch_def)
qed

theorem task_switch_ttbr0_witness:
  "map_option ttbr0_el1 (task_switch (upd_tcb (upd_tcb demo_ktask 0x1000 (\<lambda>t. t\<lparr>t_type := TASK_TYPE_KERNEL\<rparr>))
     0x2000 (\<lambda>t. t\<lparr>t_tgid := 1, t_type := TASK_TYPE_USER, t_addrspace := RAM_VBASE + 0x3000\<rparr>)) 0x1000 0x2000)
   \<noteq> Some 0"
proof -
  let ?s = "upd_tcb (upd_tcb demo_ktask 0x1000 (\<lambda>t. t\<lparr>t_type := TASK_TYPE_KERNEL\<rparr>))
     0x2000 (\<lambda>t. t\<lparr>t_tgid := 1, t_type := TASK_TYPE_USER, t_addrspace := RAM_VBASE + 0x3000\<rparr>)"
  have t: "t_tgid (tcbs ?s 0x2000) = 1" "t_type (tcbs ?s 0x2000) = TASK_TYPE_USER" "t_tgid (tcbs ?s 0x1000) = 0"
    "vbase_to_pbase (t_addrspace (tcbs ?s 0x2000)) = 0x40003000" "asid_bits ?s = 8"
    by (simp_all add: upd_tcb_def tcb_zero_def vbase_to_pbase_def RAM_PBASE_def)
  have ne: "TASK_TYPE_USER \<noteq> TASK_TYPE_KERNEL" by (simp add: TASK_TYPE_USER_def TASK_TYPE_KERNEL_def)
  obtain s' where "task_switch ?s 0x1000 0x2000 = Some s'" "ttbr0_el1 s' AND mask 48 = 0x40003000"
    using task_switch_ttbr0 [of ?s "0x2000" "0x1000"] ne by (auto simp only: t) auto
  then show ?thesis by auto
qed
text \<open>
  C38.  \<^verbatim>\<open>task_create\<close> halts exactly on a priority that is out of range.  Otherwise it fills the
  control block completely whatever it held before, hands out the next task identifier (the
  block keeps identifier 0 when none is left), stores the name cut to 63 bytes, padded with
  zeros and terminated, links the block to itself, and changes no other control block.
\<close>

theorem task_create_result:
  assumes "tid_ok s" "name \<noteq> 0" "c_string (bytes s) name xs" "apart task 536 name (Suc (length xs))"
  shows "case task_create s g_noname task entry name priority stack sz ty as of
      None \<Rightarrow> CONFIG_MAX_TASK_PRIORITY \<le> unat priority
    | Some s' \<Rightarrow> unat priority < CONFIG_MAX_TASK_PRIORITY \<and>
        tcbs s' = (tcbs s)(task :=
          \<lparr>t_tid = (case first_from (\<lambda>j. \<not> abit (task_bitmap s) j) (tid_start s) CONFIG_MAX_TASKS of
                      None \<Rightarrow> 0 | Some tid \<Rightarrow> word_of_nat tid),
           t_tgid = 0, t_sched_priority = priority, t_init_priority = priority, t_entry = entry,
           t_state = TSTATE_TASK_INACTIVE, t_stack = stack, t_stack_size = sz, t_readytime = 0,
           t_timeslice = CONFIG_RR_INTERVAL, t_type = ty,
           t_context = context_set_stack (context_set_entry (context_init (\<lambda>_. 0) ty) entry) stack sz,
           t_addrspace = as, t_mm = mm_area_zero, t_asid = 0\<rparr>) \<and>
        task_name_field s' task = map (\<lambda>i. if i < min 63 (length xs) then xs ! i else 0) [0..<64] \<and>
        is_list (cells s') task []"
proof -
  let ?i = "task_init s g_noname task ty"
  let ?s1 = "task_setup_name ?i g_noname task name"
  have "c_string (bytes ?i) name xs"
  proof (rule c_string_cong [OF assms(3)], intro allI impI)
    fix i assume "i \<le> length xs"
    then have "536 \<le> unat (name + word_of_nat i - task)" using apart_mono [OF assms(4)] by simp
    then show "bytes ?i (name + word_of_nat i) = bytes s (name + word_of_nat i)" by (rule task_init_bytes_frame)
  qed
  then have name: "task_name_field ?s1 task = map (\<lambda>i. if i < min 63 (length xs) then xs ! i else 0) [0..<64]"
    using assms(2) apart_within [OF assms(4), of OFFS_TCB_NAME 63]
    by (intro task_setup_name_field) (simp_all add: OFFS_TCB_NAME_def CONFIG_TASK_NAME_SIZE_def)
  have cells: "is_list (cells ?s1) task []"
    by (simp add: task_setup_name_def Let_def task_init_def upd_tcb_def INIT_LIST_HEAD_def is_list_def
        set_next_def set_prev_def linked_def OFFS_TCB_MM_def)
  show ?thesis
    using name cells unfolding task_create_eq [OF assms(1)]
    by (simp add: Let_def task_name_field_def)
qed

theorem task_create_result_witness:
  "\<exists>s'. task_create demo_ktask 0x20 0x1000 0x8000 0x10 5 0x9000 0x400 TASK_TYPE_USER 0 = Some s' \<and>
     t_tid (tcbs s' 0x1000) = 0 \<and> hd (task_name_field s' 0x1000) = 0x41"
proof -
  have ok: "tid_ok demo_ktask" by (simp add: tid_ok_def)
  have str: "c_string (bytes demo_ktask) 0x10 [0x41]" by simp
  have "apart 0x1000 536 0x10 (Suc (length [0x41 :: u8]))" by (rule apart_above) simp_all
  from task_create_result [OF ok _ str this, where g_noname = "0x20" and entry = "0x8000" and priority = 5
      and stack = "0x9000" and sz = "0x400" and ty = TASK_TYPE_USER and as = 0]
  show ?thesis
    by (auto simp: CONFIG_MAX_TASK_PRIORITY_def tid_start_def first_from_hit CONFIG_MAX_TASKS_def abit_def
        upt_rec [of 0 64] split: option.splits)
qed
text \<open>
  Two things the code does not do.  The search for an identifier does not start again at 0, so
  after the last identifier has been handed out none is found, whatever is free below.  A task
  whose old number is still free in a new generation is given it for this switch only: its
  control block is not updated, so the next switch gives it another number.
\<close>

lemma task_assign_tid_no_wrap:
  "g_lasttid s = word_of_nat (CONFIG_MAX_TASKS - 1) \<Longrightarrow> task_assign_tid s task = (INVALID_TASK_ID, s)"
  by (subst task_assign_tid_eq)
    (simp_all add: tid_ok_def tid_start_def CONFIG_MAX_TASKS_def first_from_empty)

lemma reclaimed_asid_not_stored:
  assumes "t_type (tcbs s task) \<noteq> TASK_TYPE_KERNEL" "t_asid (tcbs s task) \<noteq> 0"
    and "t_asid (tcbs s task) AND NOT (ASID_MASK s) \<noteq> asid_generation s"
    and "\<not> abit (asid_bitmap s) (unat (t_asid (tcbs s task) AND ASID_MASK s))"
  shows "tcbs (snd (check_and_switch_context s task)) = tcbs s"
proof -
  obtain bm where "test_and_set_bit (unat (t_asid (tcbs s task) AND ASID_MASK s)) (asid_bitmap s) = (False, bm)"
    using test_and_set_bit_props(1) [of "unat (t_asid (tcbs s task) AND ASID_MASK s)" "asid_bitmap s"] assms(4)
    by (metis prod.collapse)
  then show ?thesis using assms(1,2,3) by (simp add: check_and_switch_context_def Let_def)
qed

end
