(* ===== verification/K_Sched.thy ===== *)
theory K_Sched
  imports K_Task
begin

text \<open>
  The scheduler, \<^verbatim>\<open>os/core/sched/scheduler.c\<close>, the sleeping part of \<^verbatim>\<open>core/sched/timer.c\<close> and the
  clock of \<^verbatim>\<open>dev/timer/arm_generic\<close>.  The state extends that of the tasks with the running
  task, the two-level priority bitmap, the addresses of the queue heads (\<^verbatim>\<open>g_readytorun\<close> is an
  array of one-member structures of 16 bytes, \<^verbatim>\<open>g_pendingtasks\<close> is one) and the readings the
  hardware counter will give, one per call of \<^verbatim>\<open>get_current_time\<close>.

  The operations are related to sequences of tasks: one per priority, and one of waiting
  tasks.  \<open>sched_rel\<close> is the relation, \<open>sched_wf\<close> says that every non-empty ready queue is
  visible in the bitmap.
\<close>

section \<open>State\<close>

record ksched = ktask +
  g_current_task :: u64
  g_readytorun :: u64
  g_pendingtasks :: u64
  g_priority_bitmap :: "u8 arr"
  g_priority_group :: u8
  clock :: "nat \<Rightarrow> u64"

definition MAX_PRIORITY_BITMAP_INDEX :: nat where
  "MAX_PRIORITY_BITMAP_INDEX = CONFIG_MAX_TASK_PRIORITY div 8"

definition SIZEOF_SCHED_QUEUE :: u64 where "SIZEOF_SCHED_QUEUE = 16"

text \<open>The address of \<^verbatim>\<open>g_readytorun[prio].tasks_head\<close>.\<close>

definition ready_head :: "'a ksched_scheme \<Rightarrow> u8 \<Rightarrow> u64" where
  "ready_head s prio = g_readytorun s + SIZEOF_SCHED_QUEUE * ucast prio"

definition g_priority_map :: "u8 list" where
  "g_priority_map = [
     0, 0, 1, 0, 2, 0, 1, 0, 3, 0, 1, 0, 2, 0, 1, 0, 4, 0, 1, 0, 2, 0, 1, 0, 3, 0, 1, 0, 2, 0, 1, 0,
     5, 0, 1, 0, 2, 0, 1, 0, 3, 0, 1, 0, 2, 0, 1, 0, 4, 0, 1, 0, 2, 0, 1, 0, 3, 0, 1, 0, 2, 0, 1, 0,
     6, 0, 1, 0, 2, 0, 1, 0, 3, 0, 1, 0, 2, 0, 1, 0, 4, 0, 1, 0, 2, 0, 1, 0, 3, 0, 1, 0, 2, 0, 1, 0,
     5, 0, 1, 0, 2, 0, 1, 0, 3, 0, 1, 0, 2, 0, 1, 0, 4, 0, 1, 0, 2, 0, 1, 0, 3, 0, 1, 0, 2, 0, 1, 0,
     7, 0, 1, 0, 2, 0, 1, 0, 3, 0, 1, 0, 2, 0, 1, 0, 4, 0, 1, 0, 2, 0, 1, 0, 3, 0, 1, 0, 2, 0, 1, 0,
     5, 0, 1, 0, 2, 0, 1, 0, 3, 0, 1, 0, 2, 0, 1, 0, 4, 0, 1, 0, 2, 0, 1, 0, 3, 0, 1, 0, 2, 0, 1, 0,
     6, 0, 1, 0, 2, 0, 1, 0, 3, 0, 1, 0, 2, 0, 1, 0, 4, 0, 1, 0, 2, 0, 1, 0, 3, 0, 1, 0, 2, 0, 1, 0,
     5, 0, 1, 0, 2, 0, 1, 0, 3, 0, 1, 0, 2, 0, 1, 0, 4, 0, 1, 0, 2, 0, 1, 0, 3, 0, 1, 0, 2, 0, 1, 0]"

definition TIMER_CLOCK_HZ :: u64 where "TIMER_CLOCK_HZ = 62500000"
definition TICKS_PER_S :: u64 where "TICKS_PER_S = TIMER_CLOCK_HZ"
definition TICKS_PER_MS :: u64 where "TICKS_PER_MS = TIMER_CLOCK_HZ div 1000"
definition TICKS_PER_NS :: u64 where "TICKS_PER_NS = TIMER_CLOCK_HZ div 1000 div 1000 div 1000"

definition get_current_time :: "'a ksched_scheme \<Rightarrow> u64 \<times> 'a ksched_scheme" where
  "get_current_time s = (clock s 0, s\<lparr>clock := \<lambda>i. clock s (Suc i)\<rparr>)"

section \<open>The priority bitmap\<close>

text \<open>
  The tails of the operations.  An index above \<^verbatim>\<open>MAX_PRIORITY_BITMAP_INDEX\<close> is ignored; the index
  4, one past the array, is not (entry 4 of the model is the byte behind it).
\<close>

definition mark_priority :: "'a ksched_scheme \<Rightarrow> u8 \<Rightarrow> 'a ksched_scheme" where
  "mark_priority s prio =
     (let index = unat prio div 8; remain = unat prio mod 8
      in if index > MAX_PRIORITY_BITMAP_INDEX then s
         else s\<lparr>g_priority_group := g_priority_group s OR push_bit index 1,
                g_priority_bitmap := (g_priority_bitmap s)(index := g_priority_bitmap s index OR push_bit remain 1)\<rparr>)"

definition unmark_priority :: "'a ksched_scheme \<Rightarrow> u8 \<Rightarrow> 'a ksched_scheme" where
  "unmark_priority s prio =
     (let index = unat prio div 8; remain = unat prio mod 8
      in if index > MAX_PRIORITY_BITMAP_INDEX then s
         else if list_empty (cells s) (ready_head s prio) then
           let row = g_priority_bitmap s index AND NOT (push_bit remain 1);
               s = s\<lparr>g_priority_bitmap := (g_priority_bitmap s)(index := row)\<rparr>
           in if row = 0 then s\<lparr>g_priority_group := g_priority_group s AND NOT (push_bit index 1)\<rparr> else s
         else s)"

section \<open>Operations\<close>

definition set_state :: "'a ksched_scheme \<Rightarrow> u64 \<Rightarrow> task_state_e \<Rightarrow> 'a ksched_scheme" where
  "set_state s task st = upd_tcb s task (\<lambda>t. t\<lparr>t_state := st\<rparr>)"

definition dump_queue :: "'a ksched_scheme \<Rightarrow> u64 \<Rightarrow> unit option" where
  "dump_queue s queue = map_option (\<lambda>_. ()) (list_for_each (cells s) queue)"

definition sched_attach :: "'a ksched_scheme \<Rightarrow> u64 \<Rightarrow> 'a ksched_scheme option" where
  "sched_attach s task = do {
     k_assert (task \<noteq> 0);
     let s = set_state s task TSTATE_TASK_READYTORUN;
     let prio = t_sched_priority (tcbs s task);
     let s = s\<lparr>cells := list_add_tail (cells s) task (ready_head s prio)\<rparr>;
     Some (mark_priority s prio)
   }"

definition sched_init :: "'a ksched_scheme \<Rightarrow> u64 \<Rightarrow> 'a ksched_scheme option" where
  "sched_init s idle_task = do {
     k_assert (idle_task \<noteq> 0);
     let s = s\<lparr>cells := fold (\<lambda>i h. INIT_LIST_HEAD h (ready_head s (word_of_nat i))) [0..<CONFIG_MAX_TASK_PRIORITY] (cells s)\<rparr>;
     let s = s\<lparr>cells := INIT_LIST_HEAD (cells s) (g_pendingtasks s)\<rparr>;
     s \<leftarrow> sched_attach s idle_task;
     Some (s\<lparr>g_current_task := idle_task\<rparr>)
   }"

definition sched_detach :: "'a ksched_scheme \<Rightarrow> u64 \<Rightarrow> 'a ksched_scheme option" where
  "sched_detach s task = do {
     k_assert (task \<noteq> 0);
     let s = set_state s task TSTATE_TASK_INACTIVE;
     let s = task_release_tid s (t_tid (tcbs s task));
     let prio = t_sched_priority (tcbs s task);
     let s = (if \<not> list_empty (cells s) (ready_head s prio) then s\<lparr>cells := list_del (cells s) task\<rparr> else s);
     Some (unmark_priority s prio)
   }"

definition sched_unblock :: "'a ksched_scheme \<Rightarrow> u64 \<Rightarrow> 'a ksched_scheme option" where
  "sched_unblock s task = do {
     k_assert (task \<noteq> 0);
     let s = set_state s task TSTATE_TASK_READYTORUN;
     let prio = t_sched_priority (tcbs s task);
     let s = s\<lparr>cells := list_add (cells s) task (ready_head s prio)\<rparr>;
     Some (mark_priority s prio)
   }"

definition sched_block :: "'a ksched_scheme \<Rightarrow> u64 \<Rightarrow> 'a ksched_scheme option" where
  "sched_block s task = do {
     k_assert (task \<noteq> 0);
     let s = s\<lparr>cells := list_del_init (cells s) task\<rparr>;
     let s = set_state s task TSTATE_TASK_PENDING;
     Some (unmark_priority s (t_sched_priority (tcbs s task)))
   }"

definition sched_sleep :: "'a ksched_scheme \<Rightarrow> u64 \<Rightarrow> 'a ksched_scheme option" where
  "sched_sleep s task = do {
     k_assert (task \<noteq> 0);
     let s = s\<lparr>cells := list_del_init (cells s) task\<rparr>;
     let s = set_state s task TSTATE_TASK_SLEEPING;
     let prio = t_sched_priority (tcbs s task);
     if unat prio div 8 > MAX_PRIORITY_BITMAP_INDEX then Some s
     else do {
       let s = unmark_priority s prio;
       let s = s\<lparr>cells := list_add_tail (cells s) task (g_pendingtasks s)\<rparr>;
       dump_queue s (g_pendingtasks s);
       Some s
     }
   }"

definition sched_wake :: "'a ksched_scheme \<Rightarrow> u64 \<Rightarrow> 'a ksched_scheme" where
  "sched_wake s task =
     mark_priority (s\<lparr>cells := list_del_init (cells s) task\<rparr>) (t_sched_priority (tcbs s task))"

text \<open>The loop of \<^verbatim>\<open>sched_pending_check\<close>: \<open>pend_task_tmp\<close> is read before the body moves \<open>pend_task\<close>.\<close>

definition pending_step :: "'a ksched_scheme \<Rightarrow> u64 \<Rightarrow> 'a ksched_scheme option" where
  "pending_step s pend_task =
     (let (now, s) = get_current_time s;
          remain_ticks = t_readytime (tcbs s pend_task) - now
      in if sint remain_ticks < 0 then sched_attach (sched_wake s pend_task) pend_task else Some s)"

partial_function (option) pending_loop :: "'a ksched_scheme \<Rightarrow> u64 \<Rightarrow> u64 \<Rightarrow> 'a ksched_scheme option" where
  "pending_loop s pend_task pend_task_tmp =
     (if pend_task \<noteq> g_pendingtasks s then do {
        s \<leftarrow> pending_step s pend_task;
        pending_loop s pend_task_tmp (nextp (cells s) pend_task_tmp)
      } else Some s)"

definition sched_pending_check :: "'a ksched_scheme \<Rightarrow> 'a ksched_scheme option" where
  "sched_pending_check s =
     (let pend_task = nextp (cells s) (g_pendingtasks s)
      in pending_loop s pend_task (nextp (cells s) pend_task))"

text \<open>The search of \<^verbatim>\<open>schedule\<close> for the first ready task that is not the current one.\<close>

partial_function (option) sched_pick :: "'a ksched_scheme \<Rightarrow> u64 \<Rightarrow> u64 \<Rightarrow> u64 \<Rightarrow> u64 \<Rightarrow> u64 option option" where
  "sched_pick s queue cur_task task task_tmp =
     (if task \<noteq> queue then
        if cur_task \<noteq> task then Some (Some task)
        else sched_pick s queue cur_task task_tmp (nextp (cells s) task_tmp)
      else Some None)"

definition sched_run :: "'a ksched_scheme \<Rightarrow> u64 \<Rightarrow> u64 \<Rightarrow> 'a ksched_scheme option" where
  "sched_run s cur_task task = do {
     let s = set_state s task TSTATE_TASK_RUNNING;
     let s = s\<lparr>g_current_task := task\<rparr>;
     let s = s\<lparr>cells := list_del (cells s) task\<rparr>;
     let s = s\<lparr>cells := list_add_tail (cells s) task (g_pendingtasks s)\<rparr>;
     task_switch s cur_task task
   }"

definition next_priority :: "'a ksched_scheme \<Rightarrow> u8" where
  "next_priority s =
     (let row = g_priority_map ! unat (g_priority_group s);
          re = g_priority_bitmap s (unat row);
          col = g_priority_map ! unat re
      in row * 8 + col)"

definition schedule :: "'a ksched_scheme \<Rightarrow> 'a ksched_scheme option" where
  "schedule s = do {
     let cur_task = g_current_task s;
     s \<leftarrow> sched_pending_check s;
     let ready_queue = ready_head s (next_priority s);
     dump_queue s ready_queue;
     dump_queue s (g_pendingtasks s);
     let task = nextp (cells s) ready_queue;
     picked \<leftarrow> sched_pick s ready_queue cur_task task (nextp (cells s) task);
     s \<leftarrow> (case picked of None \<Rightarrow> Some s | Some task \<Rightarrow> sched_run s cur_task task);
     dump_queue s ready_queue;
     dump_queue s (g_pendingtasks s);
     Some s
   }"

section \<open>Sleeping\<close>

definition sys_nanosleep :: "'a ksched_scheme \<Rightarrow> u64 \<Rightarrow> (u64 \<times> 'a ksched_scheme) option" where
  "sys_nanosleep s req = do {
     let tv_sec = load_le 8 (bytes s) req;
     let tv_nsec = load_le 8 (bytes s) (req + 8);
     let current = g_current_task s;
     let (now, s) = get_current_time s;
     let s = upd_tcb s current (\<lambda>t. t\<lparr>t_readytime := now + tv_sec * TICKS_PER_S + tv_nsec * TICKS_PER_NS\<rparr>);
     s \<leftarrow> sched_sleep s current;
     Some (0, s)
   }"

section \<open>The priority table\<close>

fun table_ok :: "u8 \<Rightarrow> u8 list \<Rightarrow> bool" where
  "table_ok x [] \<longleftrightarrow> True"
| "table_ok x (k # ks) \<longleftrightarrow> k < 8 \<and> x AND mask (unat k) = 0 \<and> bit x (unat k) \<and> table_ok (x + 1) ks"

lemma table_ok_nth:
  "table_ok x ks \<Longrightarrow> i < length ks \<Longrightarrow> ks ! i < 8 \<and> (x + word_of_nat i) AND mask (unat (ks ! i)) = 0 \<and>
     bit (x + word_of_nat i) (unat (ks ! i))"
proof (induction x ks arbitrary: i rule: table_ok.induct)
  case (2 x k ks)
  then show ?case by (cases i) (simp_all add: add.assoc)
qed simp

lemma table_ok_map: "table_ok 1 (tl g_priority_map)"
  by code_simp

lemma g_priority_map_lowest:
  fixes x :: u8
  assumes "x \<noteq> 0"
  shows "bit x (unat (g_priority_map ! unat x))" "j < unat (g_priority_map ! unat x) \<Longrightarrow> \<not> bit x j"
    "unat (g_priority_map ! unat x) < 8"
proof -
  have x: "0 < unat x" "unat x < 256" using assms unsigned_less [of x] by (simp_all add: unat_pos_iff)
  have "length g_priority_map = 256" by (simp add: g_priority_map_def)
  then have "tl g_priority_map ! (unat x - 1) = g_priority_map ! unat x" "unat x - 1 < length (tl g_priority_map)"
    using x by (simp_all add: nth_tl)
  moreover have "(1 :: u8) + word_of_nat (unat x - 1) = x"
  proof -
    have "(1 :: u8) + word_of_nat (unat x - 1) = word_of_nat (Suc (unat x - 1))" by simp
    then show ?thesis using x(1) by (simp only: Suc_diff_1) simp
  qed
  ultimately have g: "g_priority_map ! unat x < 8" "x AND mask (unat (g_priority_map ! unat x)) = 0"
    and b: "bit x (unat (g_priority_map ! unat x))"
    using table_ok_nth [OF table_ok_map, of "unat x - 1"] by simp_all
  show "bit x (unat (g_priority_map ! unat x))" by (rule b)
  show "\<not> bit x j" if "j < unat (g_priority_map ! unat x)"
    using g(2) that b bit_imp_le_length [of x] by (auto simp: bit_eq_iff bit_simps)
  show "unat (g_priority_map ! unat x) < 8" using g(1) by (simp add: word_less_nat_alt)
qed

lemma g_priority_map_0 [simp]: "g_priority_map ! 0 = 0"
  by (simp add: g_priority_map_def)

definition prow :: "u8 \<Rightarrow> nat" where "prow p = unat p div 8"
definition pcol :: "u8 \<Rightarrow> nat" where "pcol p = unat p mod 8"

lemma prow_less: "unat p < 32 \<Longrightarrow> prow p < 4" "pcol p < 8"
  by (simp_all add: prow_def pcol_def less_mult_imp_div_less)

lemma prio_parts_eq: "unat p = prow p * 8 + pcol p"
  unfolding prow_def pcol_def by (rule div_mult_mod_eq [symmetric])

lemma prio_eqI: "prow p = prow q \<Longrightarrow> pcol p = pcol q \<Longrightarrow> p = q"
  by (simp only: word_unat_eq_iff prio_parts_eq)

lemma not_bit_u8: "8 \<le> i \<Longrightarrow> \<not> bit (x :: u8) i"
  using bit_imp_le_length [of x i] by auto

definition marks :: "'a ksched_scheme \<Rightarrow> u8 set \<Rightarrow> bool" where
  "marks s M \<longleftrightarrow> (\<forall>p\<in>M. unat p < 32) \<and>
     (\<forall>p. unat p < 32 \<longrightarrow> (p \<in> M \<longleftrightarrow> bit (g_priority_bitmap s (prow p)) (pcol p))) \<and>
     (\<forall>i. bit (g_priority_group s) i \<longleftrightarrow> i < 4 \<and> g_priority_bitmap s i \<noteq> 0)"
lemma marksD:
  assumes "marks s M"
  shows "p \<in> M \<Longrightarrow> unat p < 32"
    and "unat p < 32 \<Longrightarrow> p \<in> M \<longleftrightarrow> bit (g_priority_bitmap s (prow p)) (pcol p)"
    and "bit (g_priority_group s) i \<longleftrightarrow> i < 4 \<and> g_priority_bitmap s i \<noteq> 0"
  using assms by (simp_all add: marks_def)

lemma marks_mark_priority:
  assumes m: "marks s M" and p: "unat p < 32"
  shows "marks (mark_priority s p) (insert p M)"
proof -
  let ?i = "prow p" and ?j = "pcol p"
  let ?row = "g_priority_bitmap s ?i OR push_bit ?j 1"
  have i: "?i < 4" "?j < 8" using prow_less p by simp_all
  have s': "mark_priority s p = s\<lparr>g_priority_group := g_priority_group s OR push_bit ?i 1,
      g_priority_bitmap := (g_priority_bitmap s)(?i := ?row)\<rparr>"
    using i(1) by (simp add: mark_priority_def prow_def pcol_def Let_def MAX_PRIORITY_BITMAP_INDEX_def CONFIG_MAX_TASK_PRIORITY_def)
  have "bit ?row ?j" using i(2) by (simp add: bit_simps)
  then have row: "?row \<noteq> 0" by auto
  have bitrow: "bit ?row k \<longleftrightarrow> bit (g_priority_bitmap s ?i) k \<or> k = ?j" for k
    using i(2) by (auto simp: bit_simps)
  have bitgrp: "bit (g_priority_group s OR push_bit ?i 1) k \<longleftrightarrow> bit (g_priority_group s) k \<or> k = ?i" for k
    using i(1) by (auto simp: bit_simps)
  have mem: "q \<in> insert p M \<longleftrightarrow> bit (((g_priority_bitmap s)(?i := ?row)) (prow q)) (pcol q)"
    if "unat q < 32" for q
  proof (cases "prow q = ?i")
    case True
    then show ?thesis using marksD(2) [OF m that] bitrow [of "pcol q"] prio_eqI [of q p] by auto
  next
    case False
    then show ?thesis using marksD(2) [OF m that] by auto
  qed
  show ?thesis
    unfolding marks_def s'
    using mem bitgrp marksD(1,3) [OF m] row i p by auto
qed

lemma marks_unmark_priority:
  assumes m: "marks s M" and p: "unat p < 32"
  shows "marks (unmark_priority s p) (if list_empty (cells s) (ready_head s p) then M - {p} else M)"
proof (cases "list_empty (cells s) (ready_head s p)")
  case True
  let ?i = "prow p" and ?j = "pcol p"
  let ?row = "g_priority_bitmap s ?i AND NOT (push_bit ?j 1)"
  have i: "?i < 4" "?j < 8" using prow_less p by simp_all
  have s': "unmark_priority s p =
      s\<lparr>g_priority_bitmap := (g_priority_bitmap s)(?i := ?row),
        g_priority_group := (if ?row = 0 then g_priority_group s AND NOT (push_bit ?i 1) else g_priority_group s)\<rparr>"
    using i(1) True
    by (simp add: unmark_priority_def prow_def pcol_def Let_def MAX_PRIORITY_BITMAP_INDEX_def CONFIG_MAX_TASK_PRIORITY_def)
  have bitrow: "bit ?row k \<longleftrightarrow> bit (g_priority_bitmap s ?i) k \<and> k \<noteq> ?j" for k
    using i(2) by (cases "k < 8") (auto simp: bit_simps not_bit_u8)
  have bitgrp: "bit (g_priority_group s AND NOT (push_bit ?i 1)) k \<longleftrightarrow> bit (g_priority_group s) k \<and> k \<noteq> ?i" for k
    using i(1) by (cases "k < 8") (auto simp: bit_simps not_bit_u8)
  have mem: "q \<in> M - {p} \<longleftrightarrow> bit (((g_priority_bitmap s)(?i := ?row)) (prow q)) (pcol q)"
    if "unat q < 32" for q
  proof (cases "prow q = ?i")
    case True
    then show ?thesis using marksD(2) [OF m that] bitrow [of "pcol q"] prio_eqI [of q p] by auto
  next
    case False
    then show ?thesis using marksD(2) [OF m that] by auto
  qed
  have zero: "g_priority_bitmap s ?i \<noteq> 0" if "?row \<noteq> 0" using that by auto
  have grp: "bit (if ?row = 0 then g_priority_group s AND NOT (push_bit ?i 1) else g_priority_group s) k \<longleftrightarrow>
      k < 4 \<and> ((g_priority_bitmap s)(?i := ?row)) k \<noteq> 0" for k
    using marksD(3) [OF m, of k] bitgrp [of k] zero i(1) by auto
  show ?thesis unfolding s' marks_def using mem grp marksD(1) [OF m] True by simp
next
  case False
  then have "unmark_priority s p = s" by (simp add: unmark_priority_def prow_def pcol_def Let_def)
  then show ?thesis using False m by simp
qed
definition top_priority :: "u8 set \<Rightarrow> u8" where
  "top_priority M = (if M = {} then 0 else Min M)"

lemma u8_bit_ex: "x \<noteq> 0 \<Longrightarrow> \<exists>j<8. bit (x :: u8) j"
  using g_priority_map_lowest [of x] by blast

lemma prio_parts:
  assumes "i < 4" "j < 8"
  shows "unat (word_of_nat (8 * i + j) :: u8) = 8 * i + j" "prow (word_of_nat (8 * i + j)) = i"
    "pcol (word_of_nat (8 * i + j)) = j" "8 * i + j < 32"
proof -
  show u: "unat (word_of_nat (8 * i + j) :: u8) = 8 * i + j" by (rule unat_of_nat_small) (use assms in simp)
  show "prow (word_of_nat (8 * i + j)) = i" "pcol (word_of_nat (8 * i + j)) = j"
    unfolding prow_def pcol_def u using assms by simp_all
qed (use assms in simp_all)

lemma marks_empty: "marks s M \<Longrightarrow> M = {} \<longleftrightarrow> g_priority_group s = 0"
proof -
  assume m: "marks s M"
  show ?thesis
  proof
    assume "M = {}"
    then have none: "\<not> bit (g_priority_bitmap s (prow p)) (pcol p)" if "unat p < 32" for p :: u8
      using marksD(2) [OF m that] by simp
    show "g_priority_group s = 0"
    proof (rule ccontr)
      assume "g_priority_group s \<noteq> 0"
      then obtain i where "bit (g_priority_group s) i" using u8_bit_ex by blast
      then have i: "i < 4" "g_priority_bitmap s i \<noteq> 0" using marksD(3) [OF m] by simp_all
      then obtain j where "j < 8" "bit (g_priority_bitmap s i) j" using u8_bit_ex by blast
      then show False using none [of "word_of_nat (8 * i + j)"] prio_parts [OF i(1)] by (simp del: of_nat_add of_nat_mult)
    qed
  next
    assume g: "g_priority_group s = 0"
    show "M = {}"
    proof (rule ccontr)
      assume "M \<noteq> {}"
      then obtain p where p: "p \<in> M" "unat p < 32" using marksD(1) [OF m] by blast
      then have "bit (g_priority_bitmap s (prow p)) (pcol p)" "prow p < 4"
        using marksD(2) [OF m] prow_less(1) by simp_all
      then have "bit (g_priority_group s) (prow p)" unfolding marksD(3) [OF m] by auto
      then show False using g by simp
    qed
  qed
qed

lemma next_priority_top:
  assumes m: "marks s M"
  shows "next_priority s = top_priority M"
proof (cases "M = {}")
  case True
  then have g: "g_priority_group s = 0" using marks_empty [OF m] by simp
  then have "\<not> bit (g_priority_group s) 0" by simp
  then have "g_priority_bitmap s 0 = 0" unfolding marksD(3) [OF m] by simp
  with True g show ?thesis by (simp add: next_priority_def top_priority_def)
next
  case False
  then have g: "g_priority_group s \<noteq> 0" using marks_empty [OF m] by simp
  define i where "i = unat (g_priority_map ! unat (g_priority_group s))"
  have grp: "bit (g_priority_group s) k \<longleftrightarrow> k < 4 \<and> g_priority_bitmap s k \<noteq> 0" for k
    by (rule marksD(3) [OF m])
  have i: "i < 4" "g_priority_bitmap s i \<noteq> 0"
    using g_priority_map_lowest(1) [OF g, folded i_def] grp [of i] by simp_all
  have below: "g_priority_bitmap s k = 0" if "k < i" for k
    using g_priority_map_lowest(2) [OF g, folded i_def, OF that] grp [of k] that i(1) by simp
  define j where "j = unat (g_priority_map ! unat (g_priority_bitmap s i))"
  have j: "j < 8" "bit (g_priority_bitmap s i) j" "\<And>k. k < j \<Longrightarrow> \<not> bit (g_priority_bitmap s i) k"
    using g_priority_map_lowest [OF i(2), folded j_def] by blast+
  note parts = prio_parts [OF i(1) j(1)]
  have "next_priority s = word_of_nat (8 * i + j)"
    unfolding next_priority_def Let_def i_def j_def by (simp add: mult.commute)
  moreover have "word_of_nat (8 * i + j) \<in> M"
    using marksD(2) [OF m, of "word_of_nat (8 * i + j)"] j(2) unfolding parts
    using parts(4) by simp
  moreover have "word_of_nat (8 * i + j) \<le> p" if "p \<in> M" for p
  proof -
    have p: "unat p < 32" "bit (g_priority_bitmap s (prow p)) (pcol p)"
      using marksD(1) [OF m that] marksD(2) [OF m] that by simp_all
    have "\<not> prow p < i"
    proof
      assume "prow p < i"
      then show False using below p(2) by simp
    qed
    then have "8 * i + j \<le> unat p"
    proof (cases "prow p = i")
      case True
      then have "\<not> pcol p < j" using p(2) j(3) by auto
      then show ?thesis using True prio_parts_eq [of p] by linarith
    next
      case False
      then have "Suc i \<le> prow p" using \<open>\<not> prow p < i\<close> by simp
      then show ?thesis using j(1) prio_parts_eq [of p] by linarith
    qed
    then show ?thesis using parts(1) by (simp add: word_le_nat_alt)
  qed
  ultimately have "Min M = next_priority s" by (intro Min_eqI) simp_all
  then show ?thesis using False by (simp add: top_priority_def)
qed

section \<open>The queues of the scheduler\<close>

lemma prio_of_offset: "ucast (drop_bit 4 (SIZEOF_SCHED_QUEUE * ucast p :: u64)) = (p :: u8)"
proof -
  have p: "unat p < 256" using unsigned_less [of p] by simp
  have u: "unat (ucast p :: u64) = unat p" by (simp add: unat_ucast_up)
  then have "unat (SIZEOF_SCHED_QUEUE * ucast p :: u64) = 16 * unat p"
    using p by (simp add: SIZEOF_SCHED_QUEUE_def unat_word_ariths)
  then have "unat (drop_bit 4 (SIZEOF_SCHED_QUEUE * ucast p :: u64)) = unat p" by (simp add: unat_drop_bit)
  then show ?thesis by (subst ucast_eq_of_nat) simp
qed

lemma ready_head_offset: "ucast (drop_bit 4 (ready_head s p - g_readytorun s)) = p"
  by (simp add: ready_head_def prio_of_offset)

lemma ready_head_inj: "ready_head s p = ready_head s q \<longleftrightarrow> p = q"
  by (metis ready_head_offset)

text \<open>The contents of all queues, by the address of their head: \<open>R\<close> by priority, \<open>W\<close> waiting.\<close>

definition qmap :: "'a ksched_scheme \<Rightarrow> (u8 \<Rightarrow> u64 list) \<Rightarrow> u64 list \<Rightarrow> (u64 \<rightharpoonup> u64 list)" where
  "qmap s R W q =
     (if q = g_pendingtasks s then Some W
      else let p = ucast (drop_bit 4 (q - g_readytorun s)) :: u8
           in if unat p < CONFIG_MAX_TASK_PRIORITY \<and> ready_head s p = q then Some (R p) else None)"

definition heads_apart :: "'a ksched_scheme \<Rightarrow> bool" where
  "heads_apart s \<longleftrightarrow> (\<forall>p. unat p < CONFIG_MAX_TASK_PRIORITY \<longrightarrow> ready_head s p \<noteq> g_pendingtasks s)"

abbreviation prio_of :: "'a ktask_scheme \<Rightarrow> u64 \<Rightarrow> u8" where
  "prio_of s t \<equiv> t_sched_priority (tcbs s t)"

definition task_ok :: "'a ktask_scheme \<Rightarrow> u64 \<Rightarrow> bool" where
  "task_ok s t \<longleftrightarrow> t \<noteq> 0 \<and> unat (prio_of s t) < CONFIG_MAX_TASK_PRIORITY \<and>
     t_type (tcbs s t) \<in> {TASK_TYPE_KERNEL, TASK_TYPE_USER}"

lemma qmap_pending [simp]: "qmap s R W (g_pendingtasks s) = Some W"
  by (simp add: qmap_def)

lemma qmap_ready:
  "heads_apart s \<Longrightarrow> unat p < CONFIG_MAX_TASK_PRIORITY \<Longrightarrow> qmap s R W (ready_head s p) = Some (R p)"
  by (simp add: qmap_def heads_apart_def ready_head_offset Let_def)

lemma qmap_upd_ready:
  assumes "heads_apart s" "unat p < CONFIG_MAX_TASK_PRIORITY"
  shows "(qmap s R W)(ready_head s p \<mapsto> xs) = qmap s (R(p := xs)) W"
  using assms by (auto simp: fun_eq_iff qmap_def heads_apart_def ready_head_offset Let_def)

lemma qmap_upd_pending: "(qmap s R W)(g_pendingtasks s \<mapsto> xs) = qmap s R xs"
  by (auto simp: fun_eq_iff qmap_def)

lemma qmap_cong:
  "g_pendingtasks s' = g_pendingtasks s \<Longrightarrow> g_readytorun s' = g_readytorun s \<Longrightarrow> qmap s' R W = qmap s R W"
  by (simp add: fun_eq_iff qmap_def ready_head_def)

text \<open>
  The abstract state: \<open>R\<close>, \<open>W\<close> and the set \<open>M\<close> of the priorities marked in the bitmap.
\<close>

definition sched_rel :: "'a ksched_scheme \<Rightarrow> (u8 \<Rightarrow> u64 list) \<Rightarrow> u64 list \<Rightarrow> u8 set \<Rightarrow> bool" where
  "sched_rel s R W M \<longleftrightarrow> queues is_list (cells s) (qmap s R W) \<and> heads_apart s \<and> marks s M \<and>
     (\<forall>p. \<forall>t\<in>set (R p). task_ok s t \<and> prio_of s t = p) \<and> (\<forall>t\<in>set W. task_ok s t)"

lemma sched_relD:
  assumes "sched_rel s R W M"
  shows "queues is_list (cells s) (qmap s R W)" "heads_apart s" "marks s M"
    and "t \<in> set (R p) \<Longrightarrow> task_ok s t" "t \<in> set (R p) \<Longrightarrow> prio_of s t = p" "t \<in> set W \<Longrightarrow> task_ok s t"
  using assms by (auto simp: sched_rel_def)

lemma task_okD: "task_ok s t \<Longrightarrow> t \<noteq> 0" "task_ok s t \<Longrightarrow> unat (prio_of s t) < CONFIG_MAX_TASK_PRIORITY"
  by (simp_all add: task_ok_def)

lemma MAX_PRIO_32: "CONFIG_MAX_TASK_PRIORITY = 32"
  by (simp add: CONFIG_MAX_TASK_PRIORITY_def)

lemma mark_priority_simps [simp]:
  "cells (mark_priority s p) = cells s" "tcbs (mark_priority s p) = tcbs s"
  "g_pendingtasks (mark_priority s p) = g_pendingtasks s" "g_readytorun (mark_priority s p) = g_readytorun s"
  "g_current_task (mark_priority s p) = g_current_task s" "clock (mark_priority s p) = clock s"
  by (simp_all add: mark_priority_def Let_def)

lemma unmark_priority_simps [simp]:
  "cells (unmark_priority s p) = cells s" "tcbs (unmark_priority s p) = tcbs s"
  "g_pendingtasks (unmark_priority s p) = g_pendingtasks s" "g_readytorun (unmark_priority s p) = g_readytorun s"
  "g_current_task (unmark_priority s p) = g_current_task s" "clock (unmark_priority s p) = clock s"
  by (simp_all add: unmark_priority_def Let_def)

lemma marks_cong:
  "g_priority_bitmap s' = g_priority_bitmap s \<Longrightarrow> g_priority_group s' = g_priority_group s \<Longrightarrow> marks s' M \<longleftrightarrow> marks s M"
  by (simp add: marks_def)

lemma set_state_simps [simp]:
  "cells (set_state s t st) = cells s" "g_pendingtasks (set_state s t st) = g_pendingtasks s"
  "g_readytorun (set_state s t st) = g_readytorun s" "g_current_task (set_state s t st) = g_current_task s"
  "clock (set_state s t st) = clock s" "g_priority_bitmap (set_state s t st) = g_priority_bitmap s"
  "g_priority_group (set_state s t st) = g_priority_group s"
  "prio_of (set_state s t st) u = prio_of s u" "t_type (tcbs (set_state s t st) u) = t_type (tcbs s u)"
  "t_readytime (tcbs (set_state s t st) u) = t_readytime (tcbs s u)"
  by (simp_all add: set_state_def upd_tcb_def)

lemma ready_head_cong: "g_readytorun s' = g_readytorun s \<Longrightarrow> ready_head s' p = ready_head s p"
  by (simp add: ready_head_def)

lemma task_ok_cong:
  "tcbs s' t = tcbs s t \<or> prio_of s' t = prio_of s t \<and> t_type (tcbs s' t) = t_type (tcbs s t)
     \<Longrightarrow> task_ok s' t \<longleftrightarrow> task_ok s t"
  by (auto simp: task_ok_def)

definition sched_frame :: "'a ksched_scheme \<Rightarrow> 'a ksched_scheme \<Rightarrow> bool" where
  "sched_frame s s' \<longleftrightarrow> g_readytorun s' = g_readytorun s \<and> g_pendingtasks s' = g_pendingtasks s \<and>
     (\<forall>u. prio_of s' u = prio_of s u \<and> t_type (tcbs s' u) = t_type (tcbs s u) \<and>
        t_readytime (tcbs s' u) = t_readytime (tcbs s u))"

lemma sched_frame_refl [simp]: "sched_frame s s"
  by (simp add: sched_frame_def)

lemma sched_frame_trans: "sched_frame s s' \<Longrightarrow> sched_frame s' s'' \<Longrightarrow> sched_frame s s''"
  by (simp add: sched_frame_def)

lemma sched_frameD:
  assumes "sched_frame s s'"
  shows "qmap s' R W = qmap s R W" "heads_apart s' = heads_apart s" "prio_of s' u = prio_of s u"
    "task_ok s' u = task_ok s u" "t_readytime (tcbs s' u) = t_readytime (tcbs s u)"
    "g_pendingtasks s' = g_pendingtasks s" "ready_head s' p = ready_head s p"
  using assms by (auto simp: sched_frame_def heads_apart_def task_ok_def ready_head_def intro!: qmap_cong)

lemma sched_rel_step:
  assumes "sched_rel s R W M" "sched_frame s s'" "queues is_list (cells s') (qmap s R' W')" "marks s' M'"
    and "\<And>p t. t \<in> set (R' p) \<Longrightarrow> task_ok s t \<and> prio_of s t = p" "\<And>t. t \<in> set W' \<Longrightarrow> task_ok s t"
  shows "sched_rel s' R' W' M'"
  using assms sched_relD(2) [OF assms(1)] by (simp add: sched_rel_def sched_frameD [OF assms(2)])

text \<open>Whether a task is in a queue, and taking it out of the one it is in.\<close>

definition queued :: "'a ktask_scheme \<Rightarrow> (u8 \<Rightarrow> u64 list) \<Rightarrow> u64 list \<Rightarrow> u64 \<Rightarrow> bool" where
  "queued s R W t \<longleftrightarrow> t \<in> set W \<or> t \<in> set (R (prio_of s t))"

lemma queue_disjoint:
  assumes "queues is_list h (qmap s R W)" "heads_apart s" "unat p < CONFIG_MAX_TASK_PRIORITY"
  shows "set W \<inter> set (R p) = {}"
  using queuesD(2) [OF assms(1) qmap_pending qmap_ready [OF assms(2,3)]] assms(2,3)
  by (auto simp: heads_apart_def)

lemma queues_take_out:
  assumes del: "\<And>h Q q xs e. queues is_list h Q \<Longrightarrow> Q q = Some xs \<Longrightarrow> e \<in> set xs \<Longrightarrow>
        queues is_list (del h e) (Q(q \<mapsto> remove1 e xs)) \<and> fresh_for (Q(q \<mapsto> remove1 e xs)) e"
    and rel: "sched_rel s R W M" and t: "queued s R W t"
  shows "queues is_list (del (cells s) t) (qmap s (R(prio_of s t := remove1 t (R (prio_of s t)))) (remove1 t W)) \<and>
    fresh_for (qmap s (R(prio_of s t := remove1 t (R (prio_of s t)))) (remove1 t W)) t"
proof -
  let ?p = "prio_of s t"
  have "task_ok s t" using t sched_relD(4,6) [OF rel] by (auto simp: queued_def)
  then have p: "unat ?p < CONFIG_MAX_TASK_PRIORITY" by (rule task_okD)
  note q = sched_relD(1) [OF rel] and ap = sched_relD(2) [OF rel]
  have dis: "set W \<inter> set (R ?p) = {}" by (rule queue_disjoint [OF q ap p])
  show ?thesis
  proof (cases "t \<in> set W")
    case True
    then have "R(?p := remove1 t (R ?p)) = R" using dis by (auto simp: fun_eq_iff intro!: remove1_idem)
    then show ?thesis using del [OF q qmap_pending True] by (simp only: qmap_upd_pending)
  next
    case False
    then have "remove1 t W = W" "t \<in> set (R ?p)" using t by (auto simp: queued_def intro!: remove1_idem)
    then show ?thesis using del [OF q qmap_ready [OF ap p]] by (simp only: qmap_upd_ready [OF ap p])
  qed
qed

lemmas take_out_del = queues_take_out [where del = list_del, OF conjI [OF lq.queues_del]]
lemmas take_out_del_init = queues_take_out [where del = list_del_init, OF conjI [OF lqi.queues_del]]

lemma taken_out_ok:
  assumes "sched_rel s R W M" "q = prio_of s t"
  shows "u \<in> set ((R(q := remove1 t (R q))) p) \<Longrightarrow> task_ok s u \<and> prio_of s u = p"
    and "u \<in> set (remove1 t W) \<Longrightarrow> task_ok s u"
  using sched_relD(4-6) [OF assms(1)] by (auto split: if_splits dest: subsetD [OF set_remove1_subset])

section \<open>The operations on the abstract queues\<close>

lemma sched_frame_set_state [simp]: "sched_frame s (set_state s t st)"
  by (simp add: sched_frame_def)

lemma sched_frame_cells [simp]: "sched_frame s (s'\<lparr>cells := h\<rparr>) = sched_frame s s'"
  by (simp add: sched_frame_def)

lemma sched_frame_mark [simp]: "sched_frame s (mark_priority s' p) = sched_frame s s'"
  by (simp add: sched_frame_def)

lemma sched_frame_unmark [simp]: "sched_frame s (unmark_priority s' p) = sched_frame s s'"
  by (simp add: sched_frame_def)

lemma marks_set_state [simp]: "marks (set_state s t st) M = marks s M" "marks (s\<lparr>cells := h\<rparr>) M = marks s M"
  by (simp_all add: marks_def)

lemma sched_attach_rel:
  assumes rel: "sched_rel s R W M" and t: "task_ok s t" "fresh_for (qmap s R W) t" and p: "p = prio_of s t"
  shows "\<exists>s'. sched_attach s t = Some s' \<and> sched_rel s' (R(p := R p @ [t])) W (insert p M) \<and> sched_frame s s' \<and>
    tcbs s' = tcbs (set_state s t TSTATE_TASK_READYTORUN) \<and> g_current_task s' = g_current_task s \<and> clock s' = clock s"
proof -
  let ?s = "set_state s t TSTATE_TASK_READYTORUN"
  let ?s' = "mark_priority (?s\<lparr>cells := list_add_tail (cells s) t (ready_head s p)\<rparr>) p"
  note ap = sched_relD(2) [OF rel]
  have p32: "unat p < CONFIG_MAX_TASK_PRIORITY" unfolding p by (rule task_okD(2) [OF t(1)])
  have "sched_attach s t = Some ?s'"
    using task_okD(1) [OF t(1)] p by (simp add: sched_attach_def ready_head_def Let_def)
  moreover have "queues is_list (cells ?s') (qmap s (R(p := R p @ [t])) W)"
    using lq.queues_enq [OF sched_relD(1) [OF rel] qmap_ready [OF ap p32] t(2)]
    by (simp only: qmap_upd_ready [OF ap p32] mark_priority_simps) simp
  then have "sched_rel ?s' (R(p := R p @ [t])) W (insert p M)"
    using sched_relD(3-6) [OF rel] t(1) p p32
    by (intro sched_rel_step [OF rel] marks_mark_priority) (auto simp: MAX_PRIO_32 split: if_splits)
  ultimately show ?thesis by simp
qed

lemma sched_unblock_rel:
  assumes rel: "sched_rel s R W M" and t: "task_ok s t" "fresh_for (qmap s R W) t" and p: "p = prio_of s t"
  shows "\<exists>s'. sched_unblock s t = Some s' \<and> sched_rel s' (R(p := t # R p)) W (insert p M) \<and> sched_frame s s'"
proof -
  let ?s = "set_state s t TSTATE_TASK_READYTORUN"
  let ?s' = "mark_priority (?s\<lparr>cells := list_add (cells s) t (ready_head s p)\<rparr>) p"
  note ap = sched_relD(2) [OF rel]
  have p32: "unat p < CONFIG_MAX_TASK_PRIORITY" unfolding p by (rule task_okD(2) [OF t(1)])
  have "sched_unblock s t = Some ?s'"
    using task_okD(1) [OF t(1)] p by (simp add: sched_unblock_def ready_head_def Let_def)
  moreover have "queues is_list (cells ?s') (qmap s (R(p := t # R p)) W)"
    using lq.queues_push [OF sched_relD(1) [OF rel] qmap_ready [OF ap p32] t(2)]
    by (simp only: qmap_upd_ready [OF ap p32] mark_priority_simps) simp
  then have "sched_rel ?s' (R(p := t # R p)) W (insert p M)"
    using sched_relD(3-6) [OF rel] t(1) p p32
    by (intro sched_rel_step [OF rel] marks_mark_priority) (auto simp: MAX_PRIO_32 split: if_splits)
  ultimately show ?thesis by simp
qed

text \<open>Taking a task out of its queue and clearing the mark of its priority when that queue is empty.\<close>

definition unmarked :: "u8 \<Rightarrow> u64 list \<Rightarrow> u8 set \<Rightarrow> u8 set" where
  "unmarked p xs M = (if xs = [] then M - {p} else M)"

lemma sched_block_rel:
  assumes rel: "sched_rel s R W M" and t: "queued s R W t" and p: "p = prio_of s t"
  shows "\<exists>s'. sched_block s t = Some s' \<and>
    sched_rel s' (R(p := remove1 t (R p))) (remove1 t W) (unmarked p (remove1 t (R p)) M) \<and> sched_frame s s' \<and>
    fresh_for (qmap s (R(p := remove1 t (R p))) (remove1 t W)) t \<and>
    s' = unmark_priority (set_state (s\<lparr>cells := list_del_init (cells s) t\<rparr>) t TSTATE_TASK_PENDING) p"
proof -
  let ?s = "set_state (s\<lparr>cells := list_del_init (cells s) t\<rparr>) t TSTATE_TASK_PENDING"
  let ?R = "R(p := remove1 t (R p))" and ?W = "remove1 t W"
  have ok: "task_ok s t" using t sched_relD(4,6) [OF rel] by (auto simp: queued_def)
  have p32: "unat p < CONFIG_MAX_TASK_PRIORITY" unfolding p by (rule task_okD(2) [OF ok])
  have q: "queues is_list (cells ?s) (qmap s ?R ?W)" and f: "fresh_for (qmap s ?R ?W) t"
    using take_out_del_init [OF _ _ _ _ _ _ rel t] p by simp_all
  have e: "list_empty (cells ?s) (ready_head s p) \<longleftrightarrow> remove1 t (R p) = []"
    using lqi.queues_empty [OF q qmap_ready [OF sched_relD(2) [OF rel] p32]] by simp
  have "sched_block s t = Some (unmark_priority ?s p)"
    using task_okD(1) [OF ok] p by (simp add: sched_block_def set_state_def upd_tcb_def Let_def)
  moreover have "marks (unmark_priority ?s p) (unmarked p (remove1 t (R p)) M)"
    using marks_unmark_priority [of ?s M p] sched_relD(3) [OF rel] p32 e
    by (simp add: MAX_PRIO_32 unmarked_def ready_head_def)
  then have "sched_rel (unmark_priority ?s p) ?R ?W (unmarked p (remove1 t (R p)) M)"
    using q taken_out_ok [OF rel p] by (intro sched_rel_step [OF rel]) (simp_all add: sched_frame_def)
  ultimately show ?thesis using f by (simp add: sched_frame_def)
qed

lemma dump_queue_Some:
  "queues is_list (cells s) Q \<Longrightarrow> Q q = Some xs \<Longrightarrow> dump_queue s q = Some ()"
  unfolding dump_queue_def by (drule (1) queuesD(1)) (simp add: list_for_each_is_list)

lemma sched_sleep_rel:
  assumes rel: "sched_rel s R W M" and t: "queued s R W t" and p: "p = prio_of s t"
  shows "\<exists>s'. sched_sleep s t = Some s' \<and>
    sched_rel s' (R(p := remove1 t (R p))) (remove1 t W @ [t]) (unmarked p (remove1 t (R p)) M) \<and> sched_frame s s' \<and>
    g_current_task s' = g_current_task s \<and> clock s' = clock s \<and> t_state (tcbs s' t) = TSTATE_TASK_SLEEPING"
proof -
  let ?s = "unmark_priority (set_state (s\<lparr>cells := list_del_init (cells s) t\<rparr>) t TSTATE_TASK_SLEEPING) p"
  let ?s' = "?s\<lparr>cells := list_add_tail (cells ?s) t (g_pendingtasks s)\<rparr>"
  let ?R = "R(p := remove1 t (R p))" and ?W = "remove1 t W" and ?M = "unmarked p (remove1 t (R p)) M"
  have ok: "task_ok s t" using t sched_relD(4,6) [OF rel] by (auto simp: queued_def)
  have p32: "unat p < CONFIG_MAX_TASK_PRIORITY" unfolding p by (rule task_okD(2) [OF ok])
  have q: "queues is_list (cells ?s) (qmap s ?R ?W)" and f: "fresh_for (qmap s ?R ?W) t"
    using take_out_del_init [OF _ _ _ _ _ _ rel t] p by simp_all
  have e: "list_empty (cells ?s) (ready_head s p) \<longleftrightarrow> remove1 t (R p) = []"
    using lqi.queues_empty [OF q qmap_ready [OF sched_relD(2) [OF rel] p32]] by simp
  have q': "queues is_list (cells ?s') (qmap s ?R (?W @ [t]))"
    using lq.queues_enq [OF q qmap_pending f] by (simp add: qmap_upd_pending)
  have "dump_queue ?s' (g_pendingtasks s) = Some ()" by (rule dump_queue_Some [OF q' qmap_pending])
  moreover have "\<not> MAX_PRIORITY_BITMAP_INDEX < unat p div 8"
    using p32 by (simp add: MAX_PRIORITY_BITMAP_INDEX_def MAX_PRIO_32 less_mult_imp_div_less not_less)
  ultimately have "sched_sleep s t = Some ?s'"
    using task_okD(1) [OF ok] p by (simp add: sched_sleep_def Let_def)
  moreover have "marks ?s ?M"
    using marks_unmark_priority [of "set_state (s\<lparr>cells := list_del_init (cells s) t\<rparr>) t TSTATE_TASK_SLEEPING" M p]
      sched_relD(3) [OF rel] p32 e by (simp add: MAX_PRIO_32 unmarked_def ready_head_def)
  then have "sched_rel ?s' ?R (?W @ [t]) ?M"
    using q' taken_out_ok [OF rel p] ok by (intro sched_rel_step [OF rel]) (auto simp: sched_frame_def)
  ultimately show ?thesis by (simp add: sched_frame_def set_state_def upd_tcb_def)
qed

lemma sched_detach_rel:
  assumes rel: "sched_rel s R W M" and t: "queued s R W t" and p: "p = prio_of s t"
  shows "\<exists>s'. sched_detach s t = Some s' \<and> sched_frame s s' \<and> t_state (tcbs s' t) = TSTATE_TASK_INACTIVE \<and>
    task_bitmap s' = bitmap_clear (task_bitmap s) (unat (t_tid (tcbs s t))) 1 \<and>
    (if R p = [] then sched_rel s' R W (M - {p})
     else sched_rel s' (R(p := remove1 t (R p))) (remove1 t W) (unmarked p (remove1 t (R p)) M))"
proof -
  let ?s = "task_release_tid (set_state s t TSTATE_TASK_INACTIVE) (t_tid (tcbs s t))"
  let ?d = "?s\<lparr>cells := list_del (cells s) t\<rparr>"
  let ?R = "R(p := remove1 t (R p))" and ?W = "remove1 t W"
  have ok: "task_ok s t" using t sched_relD(4,6) [OF rel] by (auto simp: queued_def)
  have p32: "unat p < CONFIG_MAX_TASK_PRIORITY" unfolding p by (rule task_okD(2) [OF ok])
  have s: "cells ?s = cells s" "ready_head ?s p = ready_head s p" "ready_head ?d p = ready_head s p"
    "sched_frame s ?s" "marks ?s M" "marks ?d M"
    using sched_relD(3) [OF rel] by (simp_all add: task_release_tid_def ready_head_def sched_frame_def marks_def)
  have e: "list_empty (cells s) (ready_head s p) \<longleftrightarrow> R p = []"
    using lq.queues_empty [OF sched_relD(1) [OF rel] qmap_ready [OF sched_relD(2) [OF rel] p32]] .
  have tid: "t_tid (tcbs (set_state s t TSTATE_TASK_INACTIVE) t) = t_tid (tcbs s t)"
    "prio_of ?s t = p" using p by (simp_all add: set_state_def upd_tcb_def task_release_tid_def)
  have fields: "t_state (tcbs ?s t) = TSTATE_TASK_INACTIVE"
    "task_bitmap ?s = bitmap_clear (task_bitmap s) (unat (t_tid (tcbs s t))) 1"
    by (simp_all add: set_state_def upd_tcb_def task_release_tid_def)
  have keep: "task_bitmap (unmark_priority u p) = task_bitmap u" for u :: "'a ksched_scheme"
    by (simp add: unmark_priority_def Let_def)
  show ?thesis
  proof (cases "R p = []")
    case True
    have "sched_detach s t = Some (unmark_priority ?s p)"
      using task_okD(1) [OF ok] True tid e s by (simp add: sched_detach_def Let_def)
    moreover have "marks (unmark_priority ?s p) (M - {p})"
      using marks_unmark_priority [OF s(5), of p] p32 e True s by (simp add: MAX_PRIO_32)
    then have "sched_rel (unmark_priority ?s p) R W (M - {p})"
      using sched_relD(1,4-6) [OF rel] s by (intro sched_rel_step [OF rel]) simp_all
    ultimately show ?thesis using True s fields keep by simp
  next
    case False
    have "sched_detach s t = Some (unmark_priority ?d p)"
      using task_okD(1) [OF ok] False tid e s by (simp add: sched_detach_def Let_def)
    moreover have q: "queues is_list (cells ?d) (qmap s ?R ?W)"
      using take_out_del [OF _ _ _ _ _ _ rel t] p by simp
    have "marks (unmark_priority ?d p) (unmarked p (remove1 t (R p)) M)"
      using marks_unmark_priority [OF s(6), of p] p32 s
        lq.queues_empty [OF q qmap_ready [OF sched_relD(2) [OF rel] p32]] by (simp add: MAX_PRIO_32 unmarked_def)
    then have "sched_rel (unmark_priority ?d p) ?R ?W (unmarked p (remove1 t (R p)) M)"
      using q taken_out_ok [OF rel p] s by (intro sched_rel_step [OF rel]) simp_all
    ultimately show ?thesis using False s fields keep by simp
  qed
qed

lemma sched_wake_rel:
  assumes rel: "sched_rel s R W M" and t: "queued s R W t" and p: "p = prio_of s t"
  shows "sched_rel (sched_wake s t) (R(p := remove1 t (R p))) (remove1 t W) (insert p M)"
    "sched_frame s (sched_wake s t)" "fresh_for (qmap s (R(p := remove1 t (R p))) (remove1 t W)) t"
proof -
  let ?R = "R(p := remove1 t (R p))" and ?W = "remove1 t W" and ?w = "sched_wake s t"
  have ok: "task_ok s t" using t sched_relD(4,6) [OF rel] by (auto simp: queued_def)
  have p32: "unat p < CONFIG_MAX_TASK_PRIORITY" unfolding p by (rule task_okD(2) [OF ok])
  have out: "queues is_list (list_del_init (cells s) t) (qmap s ?R ?W)" "fresh_for (qmap s ?R ?W) t"
    using take_out_del_init [OF _ _ _ _ _ _ rel t] p by simp_all
  show fw: "sched_frame s ?w" by (simp add: sched_wake_def sched_frame_def)
  have "marks ?w (insert p M)"
    using marks_mark_priority [of "s\<lparr>cells := list_del_init (cells s) t\<rparr>" M p] p32 sched_relD(3) [OF rel] p
    by (simp add: MAX_PRIO_32 sched_wake_def)
  then show "sched_rel ?w ?R ?W (insert p M)"
    using out(1) fw taken_out_ok [OF rel p] by (intro sched_rel_step [OF rel]) (simp_all add: sched_wake_def)
  show "fresh_for (qmap s ?R ?W) t" by (rule out(2))
qed

section \<open>Waking the waiting tasks\<close>

definition due :: "'a ktask_scheme \<Rightarrow> u64 \<Rightarrow> u64 \<Rightarrow> bool" where
  "due s t now \<longleftrightarrow> sint (t_readytime (tcbs s t) - now) < 0"

text \<open>The waiting tasks split into those woken and those kept, one clock reading for each.\<close>

fun wake_due :: "(u64 \<Rightarrow> u64 \<Rightarrow> bool) \<Rightarrow> (nat \<Rightarrow> u64) \<Rightarrow> u64 list \<Rightarrow> u64 list \<times> u64 list" where
  "wake_due d c [] = ([], [])"
| "wake_due d c (t # ts) =
     (case wake_due d (\<lambda>i. c (Suc i)) ts of (woken, kept) \<Rightarrow>
        if d t (c 0) then (t # woken, kept) else (woken, t # kept))"

lemma pending_step_rel:
  assumes rel: "sched_rel s R (ys @ t # xs) M"
  shows "\<exists>s'. pending_step s t = Some s' \<and> sched_frame s s' \<and> clock s' = (\<lambda>i. clock s (Suc i)) \<and>
    g_current_task s' = g_current_task s \<and>
    (if due s t (clock s 0)
     then sched_rel s' (R(prio_of s t := R (prio_of s t) @ [t])) (ys @ xs) (insert (prio_of s t) M)
     else sched_rel s' R (ys @ t # xs) M)"
proof -
  let ?s = "s\<lparr>clock := \<lambda>i. clock s (Suc i)\<rparr>" and ?W = "ys @ t # xs" and ?p = "prio_of s t"
  have frame: "sched_frame s ?s" by (simp add: sched_frame_def)
  have "marks ?s M" using sched_relD(3) [OF rel] by (simp add: marks_def)
  then have rel1: "sched_rel ?s R ?W M"
    using sched_relD(1,4-6) [OF rel] frame by (intro sched_rel_step [OF rel]) simp_all
  show ?thesis
  proof (cases "due s t (clock s 0)")
    case False
    then show ?thesis using rel1 frame by (simp add: pending_step_def get_current_time_def due_def)
  next
    case True
    let ?w = "sched_wake ?s t"
    have q: "queued ?s R ?W t" by (simp add: queued_def)
    have ok: "task_ok ?s t" using sched_relD(6) [OF rel1] by simp
    have p32: "unat ?p < CONFIG_MAX_TASK_PRIORITY" using task_okD(2) [OF ok] by simp
    have dis: "distinct (g_pendingtasks s # ?W)"
      using is_list_distinct [OF queuesD(1) [OF sched_relD(1) [OF rel1] qmap_pending]] by simp
    then have W: "remove1 t ?W = ys @ xs" by (simp add: remove1_append)
    have tR: "t \<notin> set (R ?p)" using queue_disjoint [OF sched_relD(1,2) [OF rel] p32] by auto
    have R: "R(?p := remove1 t (R ?p)) = R" using tR by (simp add: remove1_idem)
    have p: "?p = prio_of ?s t" by simp
    note wake = sched_wake_rel [OF rel1 q p, unfolded W R]
    note rel2 = wake(1) and fw = wake(2)
    have "task_ok ?w t" "prio_of ?w t = ?p" "fresh_for (qmap ?w R (ys @ xs)) t"
      using ok wake(3) by (simp_all add: sched_frameD [OF fw])
    from sched_attach_rel [OF rel2 this(1,3) this(2) [symmetric]]
    obtain s' where s': "sched_attach ?w t = Some s'" "sched_frame ?w s'"
      "sched_rel s' (R(?p := R ?p @ [t])) (ys @ xs) (insert ?p (insert ?p M))"
      "g_current_task s' = g_current_task ?w" "clock s' = clock ?w" by blast
    have "pending_step s t = Some s'"
      using True s'(1) by (simp add: pending_step_def get_current_time_def due_def)
    moreover have "sched_frame s s'" using frame fw s'(2) sched_frame_trans by blast
    ultimately show ?thesis using s'(3-5) True by (simp add: sched_wake_def)
  qed
qed

lemma pending_loop_rel:
  assumes "sched_rel s R (ys @ xs) M" "wake_due (due s) (clock s) xs = (woken, kept)"
    and "pos = hd (xs @ [g_pendingtasks s])" "tmp = nextp (cells s) pos"
  shows "\<exists>s'. pending_loop s pos tmp = Some s' \<and> sched_frame s s' \<and>
    clock s' = (\<lambda>i. clock s (length xs + i)) \<and> g_current_task s' = g_current_task s \<and>
    sched_rel s' (\<lambda>p. R p @ filter (\<lambda>t. prio_of s t = p) woken) (ys @ kept) (M \<union> prio_of s ` set woken)"
  using assms
proof (induction xs arbitrary: s R ys M woken kept pos tmp)
  case Nil
  then show ?case by (subst pending_loop.simps) simp
next
  case (Cons t xs)
  let ?h = "g_pendingtasks s" and ?p = "prio_of s t"
  have lst: "is_list (cells s) ?h (ys @ t # xs)"
    using queuesD(1) [OF sched_relD(1) [OF Cons.prems(1)] qmap_pending] .
  have pos: "pos = t" "pos \<noteq> ?h" "tmp = hd (xs @ [?h])"
    using Cons.prems(3,4) is_list_around(2) [OF lst] is_list_distinct [OF lst] by auto
  obtain s1 where s1: "pending_step s t = Some s1" "sched_frame s s1" "clock s1 = (\<lambda>i. clock s (Suc i))"
    "g_current_task s1 = g_current_task s"
    "if due s t (clock s 0) then sched_rel s1 (R(?p := R ?p @ [t])) (ys @ xs) (insert ?p M)
     else sched_rel s1 R (ys @ t # xs) M"
    using pending_step_rel [OF Cons.prems(1)] by blast
  have same: "due s1 = due s" "prio_of s1 u = prio_of s u" "g_pendingtasks s1 = ?h" for u
    using sched_frameD [OF s1(2)] by (simp_all add: due_def fun_eq_iff)
  obtain w k where wk: "wake_due (due s) (\<lambda>i. clock s (Suc i)) xs = (w, k)" by fastforce
  then have wk1: "wake_due (due s1) (clock s1) xs = (w, k)" by (simp add: same s1(3))
  have tmp: "tmp = hd (xs @ [g_pendingtasks s1])" using pos(3) same by simp
  have step: "pending_loop s pos tmp = pending_loop s1 tmp (nextp (cells s1) tmp)"
    using pos s1(1) by (subst pending_loop.simps) simp
  show ?case
  proof (cases "due s t (clock s 0)")
    case True
    have out: "woken = t # w" "kept = k" using Cons.prems(2) wk True by auto
    have rel1: "sched_rel s1 (R(?p := R ?p @ [t])) (ys @ xs) (insert ?p M)" using s1(5) True by simp
    have R: "(\<lambda>p. (R(?p := R ?p @ [t])) p @ filter (\<lambda>t. prio_of s t = p) w) =
        (\<lambda>p. R p @ filter (\<lambda>t. prio_of s t = p) woken)" by (auto simp: out)
    obtain s' where s': "pending_loop s pos tmp = Some s'" "sched_frame s1 s'"
      "clock s' = (\<lambda>i. clock s1 (length xs + i))" "g_current_task s' = g_current_task s1"
      "sched_rel s' (\<lambda>p. R p @ filter (\<lambda>t. prio_of s t = p) woken) (ys @ k) (insert ?p M \<union> prio_of s ` set w)"
      using Cons.IH [OF rel1 wk1 tmp refl] unfolding step same(2) R by blast
    have M: "insert ?p M \<union> prio_of s ` set w = M \<union> prio_of s ` set woken" by (auto simp: out)
    have clk: "clock s' = (\<lambda>i. clock s (length (t # xs) + i))" using s'(3) s1(3) by simp
    have "sched_rel s' (\<lambda>p. R p @ filter (\<lambda>t. prio_of s t = p) woken) (ys @ kept) (M \<union> prio_of s ` set woken)"
      using s'(5) unfolding M by (simp only: out(2))
    then show ?thesis using s'(1,4) clk sched_frame_trans [OF s1(2) s'(2)] s1(4) by auto
  next
    case False
    have out: "woken = w" "kept = t # k" using Cons.prems(2) wk False by auto
    have rel1: "sched_rel s1 R ((ys @ [t]) @ xs) M" using s1(5) False by simp
    obtain s' where s': "pending_loop s pos tmp = Some s'" "sched_frame s1 s'"
      "clock s' = (\<lambda>i. clock s1 (length xs + i))" "g_current_task s' = g_current_task s1"
      "sched_rel s' (\<lambda>p. R p @ filter (\<lambda>t. prio_of s t = p) w) ((ys @ [t]) @ k) (M \<union> prio_of s ` set w)"
      using Cons.IH [OF rel1 wk1 tmp refl] unfolding step same(2) by blast
    have clk: "clock s' = (\<lambda>i. clock s (length (t # xs) + i))" using s'(3) s1(3) by simp
    show ?thesis using s' clk sched_frame_trans [OF s1(2) s'(2)] s1(4) by (auto simp: out)
  qed
qed

lemma sched_pending_check_rel:
  assumes "sched_rel s R W M" "wake_due (due s) (clock s) W = (woken, kept)"
  shows "\<exists>s'. sched_pending_check s = Some s' \<and> sched_frame s s' \<and>
    clock s' = (\<lambda>i. clock s (length W + i)) \<and> g_current_task s' = g_current_task s \<and>
    sched_rel s' (\<lambda>p. R p @ filter (\<lambda>t. prio_of s t = p) woken) kept (M \<union> prio_of s ` set woken)"
proof -
  have "nextp (cells s) (g_pendingtasks s) = hd (W @ [g_pendingtasks s])"
    by (rule is_list_ends(1) [OF queuesD(1) [OF sched_relD(1) [OF assms(1)] qmap_pending]])
  then show ?thesis
    using pending_loop_rel [of s R "[]" W M woken kept, OF _ assms(2)] assms(1)
    unfolding sched_pending_check_def Let_def by simp
qed

section \<open>Choosing the next task\<close>

lemma sched_pick_find:
  assumes "is_list (cells s) queue (ys @ xs)" "task = hd (xs @ [queue])" "tmp = nextp (cells s) task"
  shows "sched_pick s queue cur_task task tmp = Some (find (\<lambda>t. t \<noteq> cur_task) xs)"
  using assms
proof (induction xs arbitrary: ys task tmp)
  case Nil
  then show ?case by (subst sched_pick.simps) simp
next
  case (Cons t xs)
  have "task = t" "task \<noteq> queue" "tmp = hd (xs @ [queue])"
    using Cons.prems is_list_around(2) [OF Cons.prems(1)] is_list_distinct [OF Cons.prems(1)] by auto
  then show ?case
    using Cons.IH [of "ys @ [t]" tmp "nextp (cells s) tmp"] Cons.prems(1)
    by (subst sched_pick.simps) auto
qed

lemma task_switch_frame:
  fixes s :: "'a ksched_scheme"
  assumes "t_type (tcbs s to) \<in> {TASK_TYPE_KERNEL, TASK_TYPE_USER}"
  shows "\<exists>s'. task_switch s from to = Some s' \<and> sched_frame s s' \<and> cells s' = cells s \<and>
    g_priority_bitmap s' = g_priority_bitmap s \<and> g_priority_group s' = g_priority_group s \<and>
    g_current_task s' = g_current_task s \<and> clock s' = clock s \<and> t_state (tcbs s' u) = t_state (tcbs s u)"
proof -
  obtain asid s1 where c: "check_and_switch_context s to = (asid, s1)" by fastforce
  have k: "sched_frame s s1" "cells s1 = cells s" "g_priority_bitmap s1 = g_priority_bitmap s"
    "g_priority_group s1 = g_priority_group s" "g_current_task s1 = g_current_task s" "clock s1 = clock s"
    "t_state (tcbs s1 u) = t_state (tcbs s u)" "t_type (tcbs s1 to) = t_type (tcbs s to)"
    using c by (auto simp: check_and_switch_context_def asid_allocate_def upd_tcb_def Let_def sched_frame_def
        split: if_splits prod.splits)
  then show ?thesis using assms
    by (auto simp: task_switch_def c as_switch_def sched_frame_def)
qed

lemma sched_run_rel:
  assumes rel: "sched_rel s R W M" and t: "t \<in> set (R p)"
  shows "\<exists>s'. sched_run s cur_task t = Some s' \<and> sched_frame s s' \<and> clock s' = clock s \<and> g_current_task s' = t \<and>
    t_state (tcbs s' t) = TSTATE_TASK_RUNNING \<and> sched_rel s' (R(p := remove1 t (R p))) (W @ [t]) M"
proof -
  let ?s1 = "(set_state s t TSTATE_TASK_RUNNING)\<lparr>g_current_task := t, cells := list_del (cells s) t\<rparr>"
  let ?s2 = "?s1\<lparr>cells := list_add_tail (cells ?s1) t (g_pendingtasks s)\<rparr>"
  let ?R = "R(p := remove1 t (R p))"
  have p: "p = prio_of s t" and ok: "task_ok s t" using sched_relD(4,5) [OF rel t] by simp_all
  have p32: "unat p < CONFIG_MAX_TASK_PRIORITY" unfolding p by (rule task_okD(2) [OF ok])
  have q: "queued s R W t" using t by (simp add: queued_def p [symmetric])
  have "t \<notin> set W" using queue_disjoint [OF sched_relD(1,2) [OF rel] p32] t by auto
  then have W: "remove1 t W = W" by (rule remove1_idem)
  have out: "queues is_list (list_del (cells s) t) (qmap s ?R W)" "fresh_for (qmap s ?R W) t"
    using take_out_del [OF _ _ _ _ _ _ rel q] unfolding p [symmetric] W by simp_all
  have enq: "queues is_list (cells ?s2) (qmap s ?R (W @ [t]))"
    using lq.queues_enq [OF out(1) qmap_pending out(2)] by (simp add: qmap_upd_pending)
  have f2: "sched_frame s ?s2" by (simp add: sched_frame_def)
  have "t_type (tcbs ?s2 t) \<in> {TASK_TYPE_KERNEL, TASK_TYPE_USER}" using ok by (simp add: task_ok_def)
  from task_switch_frame [OF this, of cur_task t]
  obtain s' where s': "task_switch ?s2 cur_task t = Some s'" "sched_frame ?s2 s'" "cells s' = cells ?s2"
    "g_priority_bitmap s' = g_priority_bitmap s" "g_priority_group s' = g_priority_group s"
    "g_current_task s' = t" "clock s' = clock s" "t_state (tcbs s' t) = t_state (tcbs ?s2 t)"
    by auto
  have "sched_run s cur_task t = Some s'" using s'(1) by (simp add: sched_run_def Let_def)
  moreover have fr: "sched_frame s s'" using sched_frame_trans [OF f2 s'(2)] .
  moreover have "marks s' M" using sched_relD(3) [OF rel] marks_cong [of s' s] s'(4,5) by simp
  then have "sched_rel s' ?R (W @ [t]) M"
    using enq fr s'(3) ok taken_out_ok(1) [OF rel p] sched_relD(6) [OF rel]
    by (intro sched_rel_step [OF rel]) auto
  ultimately show ?thesis using s'(6-8) by (simp add: set_state_def upd_tcb_def)
qed

definition woken_ready :: "'a ktask_scheme \<Rightarrow> (u8 \<Rightarrow> u64 list) \<Rightarrow> u64 list \<Rightarrow> u8 \<Rightarrow> u64 list" where
  "woken_ready s R woken p = R p @ filter (\<lambda>t. prio_of s t = p) woken"

lemma top_priority_bound: "marks s M \<Longrightarrow> unat (top_priority M) < CONFIG_MAX_TASK_PRIORITY"
proof -
  assume m: "marks s M"
  have "finite M" by simp
  then have "M \<noteq> {} \<Longrightarrow> Min M \<in> M" by (rule Min_in)
  then show ?thesis using marksD(1) [OF m] by (auto simp: top_priority_def MAX_PRIO_32)
qed

lemma schedule_rel:
  assumes rel: "sched_rel s R W M" and wk: "wake_due (due s) (clock s) W = (woken, kept)"
    and R1: "R1 = woken_ready s R woken" and M1: "M1 = M \<union> prio_of s ` set woken" and p: "p = top_priority M1"
  shows "\<exists>s'. schedule s = Some s' \<and> sched_frame s s' \<and> clock s' = (\<lambda>i. clock s (length W + i)) \<and>
    (case find (\<lambda>t. t \<noteq> g_current_task s) (R1 p) of
       None \<Rightarrow> sched_rel s' R1 kept M1 \<and> g_current_task s' = g_current_task s
     | Some t \<Rightarrow> sched_rel s' (R1(p := remove1 t (R1 p))) (kept @ [t]) M1 \<and> g_current_task s' = t \<and>
         t_state (tcbs s' t) = TSTATE_TASK_RUNNING)"
proof -
  let ?cur = "g_current_task s"
  obtain s1 where s1: "sched_pending_check s = Some s1" "sched_frame s s1"
    "clock s1 = (\<lambda>i. clock s (length W + i))" "g_current_task s1 = ?cur" "sched_rel s1 R1 kept M1"
    using sched_pending_check_rel [OF rel wk] unfolding R1 M1 woken_ready_def by blast
  note ap = sched_relD(2) [OF s1(5)] and q = sched_relD(1) [OF s1(5)]
  have np: "next_priority s1 = p" using next_priority_top [OF sched_relD(3) [OF s1(5)]] p by simp
  have p32: "unat p < CONFIG_MAX_TASK_PRIORITY" unfolding p by (rule top_priority_bound [OF sched_relD(3) [OF s1(5)]])
  let ?rq = "ready_head s1 p"
  have lst: "is_list (cells s1) ?rq ([] @ R1 p)" using queuesD(1) [OF q qmap_ready [OF ap p32]] by simp
  have first: "nextp (cells s1) ?rq = hd (R1 p @ [?rq])" using is_list_ends(1) [OF lst] by simp
  have pick: "sched_pick s1 ?rq ?cur (nextp (cells s1) ?rq) (nextp (cells s1) (nextp (cells s1) ?rq)) =
      Some (find (\<lambda>t. t \<noteq> ?cur) (R1 p))"
    by (rule sched_pick_find [OF lst first refl])
  have dump: "dump_queue s2 ?rq = Some ()" "dump_queue s2 (g_pendingtasks s2) = Some ()"
    if "sched_rel s2 R2 W2 M2" "sched_frame s1 s2" for s2 :: "'a ksched_scheme" and R2 W2 M2
    using dump_queue_Some [OF sched_relD(1) [OF that(1)] qmap_ready [OF sched_relD(2) [OF that(1)] p32]]
      dump_queue_Some [OF sched_relD(1) [OF that(1)] qmap_pending] sched_frameD [OF that(2)] by simp_all
  show ?thesis
  proof (cases "find (\<lambda>t. t \<noteq> ?cur) (R1 p)")
    case None
    have "schedule s = Some s1"
      using s1 pick None dump [OF s1(5)] by (simp add: schedule_def Let_def np)
    then show ?thesis using s1 None by simp
  next
    case (Some t)
    then have "t \<in> set (R1 p)" by (auto simp: find_Some_iff)
    then obtain s2 where s2: "sched_run s1 ?cur t = Some s2" "sched_frame s1 s2" "clock s2 = clock s1"
      "g_current_task s2 = t" "t_state (tcbs s2 t) = TSTATE_TASK_RUNNING"
      "sched_rel s2 (R1(p := remove1 t (R1 p))) (kept @ [t]) M1"
      using sched_run_rel [OF s1(5)] by blast
    have "schedule s = Some s2"
      using s1 pick Some dump [OF s1(5)] dump [OF s2(6,2)] s2(1) sched_frameD(6,7) [OF s2(2)]
      by (simp add: schedule_def Let_def np)
    then show ?thesis using s1 s2 Some sched_frame_trans [OF s1(2) s2(2)] by simp
  qed
qed

section \<open>Starting\<close>

lemma INIT_LIST_HEAD_simps [simp]:
  "nextp (INIT_LIST_HEAD h a) = (nextp h)(a := a)" "prevp (INIT_LIST_HEAD h a) = (prevp h)(a := a)"
  by (simp_all add: INIT_LIST_HEAD_def)

lemma fold_INIT_LIST_HEAD:
  "nextp (fold (\<lambda>i h. INIT_LIST_HEAD h (f i)) is h) a = (if a \<in> f ` set is then a else nextp h a)"
  "prevp (fold (\<lambda>i h. INIT_LIST_HEAD h (f i)) is h) a = (if a \<in> f ` set is then a else prevp h a)"
  by (induction "is" arbitrary: h) auto

lemma qmap_heads:
  "qmap s R W q = Some xs \<Longrightarrow> q = g_pendingtasks s \<and> xs = W \<or>
     (\<exists>p. unat p < CONFIG_MAX_TASK_PRIORITY \<and> q = ready_head s p \<and> xs = R p)"
  by (auto simp: qmap_def Let_def split: if_splits)

lemma queues_init:
  assumes "heads_apart s"
    and h: "h = INIT_LIST_HEAD (fold (\<lambda>i h. INIT_LIST_HEAD h (ready_head s (word_of_nat i)))
         [0..<CONFIG_MAX_TASK_PRIORITY] (cells s)) (g_pendingtasks s)"
  shows "queues is_list h (qmap s (\<lambda>_. []) [])"
proof -
  have self: "nextp h q = q" "prevp h q = q" if "qmap s (\<lambda>_. []) [] q = Some xs" for q xs
  proof -
    have "q = g_pendingtasks s \<or> q \<in> (\<lambda>i. ready_head s (word_of_nat i)) ` {0..<CONFIG_MAX_TASK_PRIORITY}"
      using qmap_heads [OF that]
    proof (elim disjE exE conjE)
      fix p assume "unat p < CONFIG_MAX_TASK_PRIORITY" "q = ready_head s p"
      then have "q \<in> (\<lambda>i. ready_head s (word_of_nat i)) ` {0..<CONFIG_MAX_TASK_PRIORITY}"
        by (intro image_eqI [of _ _ "unat p"]) simp_all
      then show ?thesis ..
    qed simp
    then show "nextp h q = q" "prevp h q = q"
      unfolding h by (auto simp: fold_INIT_LIST_HEAD)
  qed
  have empty: "xs = []" if "qmap s (\<lambda>_. []) [] q = Some xs" for q xs
    using qmap_heads [OF that] by auto
  have lst: "is_list h q xs" if "qmap s (\<lambda>_. []) [] q = Some xs" for q xs
    using self [OF that] empty [OF that] by (simp add: is_list_def linked_def)
  show ?thesis
    unfolding queues_def
  proof (intro conjI allI impI lst)
    fix p q xs ys
    assume "qmap s (\<lambda>_. []) [] p = Some xs" "qmap s (\<lambda>_. []) [] q = Some ys" "p \<noteq> q"
    then show "set (p # xs) \<inter> set (q # ys) = {}" by (auto dest!: empty)
  qed
qed

lemma fresh_for_init:
  assumes "t \<noteq> g_pendingtasks s" "\<And>p. unat p < CONFIG_MAX_TASK_PRIORITY \<Longrightarrow> t \<noteq> ready_head s p"
  shows "fresh_for (qmap s (\<lambda>_. []) []) t"
  unfolding fresh_for_def using assms by (auto dest!: qmap_heads)

lemma sched_init_rel:
  assumes "heads_apart s" "g_priority_group s = 0" "\<And>i. i < 4 \<Longrightarrow> g_priority_bitmap s i = 0"
    and idle: "task_ok s idle" "idle \<noteq> g_pendingtasks s"
      "\<And>p. unat p < CONFIG_MAX_TASK_PRIORITY \<Longrightarrow> idle \<noteq> ready_head s p"
  shows "\<exists>s'. sched_init s idle = Some s' \<and> sched_frame s s' \<and> g_current_task s' = idle \<and> clock s' = clock s \<and>
    sched_rel s' ((\<lambda>_. [])(prio_of s idle := [idle])) [] {prio_of s idle}"
proof -
  let ?h = "INIT_LIST_HEAD (fold (\<lambda>i h. INIT_LIST_HEAD h (ready_head s (word_of_nat i)))
         [0..<CONFIG_MAX_TASK_PRIORITY] (cells s)) (g_pendingtasks s)"
  let ?s = "s\<lparr>cells := ?h\<rparr>"
  have f: "sched_frame s ?s" by (simp add: sched_frame_def)
  have "marks ?s {}"
    using assms(2,3) prow_less(1) by (auto simp: marks_def)
  then have rel: "sched_rel ?s (\<lambda>_. []) [] {}"
    using queues_init [OF assms(1) refl] assms(1) by (simp add: sched_rel_def sched_frameD [OF f])
  have "task_ok ?s idle" "fresh_for (qmap ?s (\<lambda>_. []) []) idle" "prio_of s idle = prio_of ?s idle"
    using idle assms(1) by (simp_all add: sched_frameD [OF f] fresh_for_init)
  from sched_attach_rel [OF rel this] obtain s' where s': "sched_attach ?s idle = Some s'" "sched_frame ?s s'"
    "sched_rel s' ((\<lambda>_. [])(prio_of s idle := [idle])) [] {prio_of s idle}" "clock s' = clock s"
    by (auto simp: fun_upd_def)
  let ?s'' = "s'\<lparr>g_current_task := idle\<rparr>"
  have "sched_rel ?s'' ((\<lambda>_. [])(prio_of s idle := [idle])) [] {prio_of s idle}"
    using sched_relD [OF s'(3)] by (intro sched_rel_step [OF s'(3)]) (simp_all add: sched_frame_def marks_def)
  moreover have "sched_frame s ?s''" using sched_frame_trans [OF f s'(2)] by (simp add: sched_frame_def)
  moreover have "sched_init s idle = Some ?s''"
    using s'(1) task_okD(1) [OF idle(1)] by (simp add: sched_init_def Let_def ready_head_def)
  ultimately show ?thesis using s'(4) by simp
qed

section \<open>The running kernel\<close>

lemma wake_due_set: "wake_due d c ts = (w, k) \<Longrightarrow> set w \<union> set k = set ts"
proof (induction ts arbitrary: c w k)
  case (Cons u ts)
  obtain w' k' where wk: "wake_due d (\<lambda>i. c (Suc i)) ts = (w', k')" by fastforce
  then have "w = u # w' \<and> k = k' \<or> w = w' \<and> k = u # k'" using Cons.prems by (auto split: if_splits)
  then show ?case using Cons.IH [OF wk, symmetric] by (elim disjE conjE) simp_all
qed simp

lemma wake_due_woken: "wake_due d c ts = (w, k) \<Longrightarrow> t \<in> set w \<Longrightarrow> \<exists>i<length ts. d t (c i)"
proof (induction ts arbitrary: c w k)
  case (Cons u ts)
  obtain w' k' where wk: "wake_due d (\<lambda>i. c (Suc i)) ts = (w', k')" by fastforce
  show ?case
  proof (cases "t \<in> set w'")
    case True
    then obtain i where "i < length ts" "d t (c (Suc i))" using Cons.IH [OF wk] by blast
    then show ?thesis by (intro exI [of _ "Suc i"]) simp
  next
    case False
    then have "t = u" "d t (c 0)" using Cons.prems wk by (auto split: if_splits)
    then show ?thesis by (intro exI [of _ 0]) simp
  qed
qed simp

lemma wake_due_kept: "wake_due d c ts = (w, k) \<Longrightarrow> t \<in> set k \<Longrightarrow> \<exists>i<length ts. \<not> d t (c i)"
proof (induction ts arbitrary: c w k)
  case (Cons u ts)
  obtain w' k' where wk: "wake_due d (\<lambda>i. c (Suc i)) ts = (w', k')" by fastforce
  show ?case
  proof (cases "t \<in> set k'")
    case True
    then obtain i where "i < length ts" "\<not> d t (c (Suc i))" using Cons.IH [OF wk] by blast
    then show ?thesis by (intro exI [of _ "Suc i"]) simp
  next
    case False
    then have "t = u" "\<not> d t (c 0)" using Cons.prems wk by (auto split: if_splits)
    then show ?thesis by (intro exI [of _ 0]) simp
  qed
qed simp

lemma sint_diff_less: "unat (a :: u64) < 2 ^ 63 \<Longrightarrow> unat b < 2 ^ 63 \<Longrightarrow> sint (a - b) < 0 \<longleftrightarrow> a < b"
proof -
  assume "unat a < 2 ^ 63" "unat b < 2 ^ 63"
  then have "int (unat a) < int (2 ^ 63)" "int (unat b) < int (2 ^ 63)" by (simp_all only: of_nat_less_iff)
  then have ab: "uint a < 2 ^ 63" "uint b < 2 ^ 63" by simp_all
  have "a - b = word_of_int (uint a - uint b)" by (simp add: word_of_int_uint of_int_diff)
  moreover have "sint (word_of_int (uint a - uint b) :: u64) = signed_take_bit 63 (uint a - uint b)"
    by (subst signed_of_int) (simp del: of_int_diff)
  ultimately have "sint (a - b) = signed_take_bit 63 (uint a - uint b)" by (simp only:)
  also have "\<dots> = uint a - uint b"
    using ab uint_ge_0 [of a] uint_ge_0 [of b] by (intro signed_take_bit_int_eq_self) linarith+
  finally show ?thesis by (simp add: word_less_alt)
qed
text \<open>What the scheduler keeps between its calls; \<open>rt\<close> is the time a task waits for.\<close>

abbreviation rt :: "'a ktask_scheme \<Rightarrow> u64 \<Rightarrow> u64" where
  "rt s t \<equiv> t_readytime (tcbs s t)"

definition clock_ok :: "(nat \<Rightarrow> u64) \<Rightarrow> bool" where
  "clock_ok c \<longleftrightarrow> 0 < c 0 \<and> (\<forall>i j. i \<le> j \<longrightarrow> c i \<le> c j) \<and> (\<forall>i. unat (c i) < 2 ^ 62)"

definition sched_inv :: "'a ksched_scheme \<Rightarrow> (u8 \<Rightarrow> u64 list) \<Rightarrow> u64 list \<Rightarrow> u8 set \<Rightarrow> bool" where
  "sched_inv s R W M \<longleftrightarrow> sched_rel s R W M \<and> clock_ok (clock s) \<and> queued s R W (g_current_task s) \<and>
     (\<forall>p. R p \<noteq> [] \<longrightarrow> p \<in> M) \<and> (\<forall>t. queued s R W t \<longrightarrow> unat (rt s t) < 2 ^ 63) \<and>
     (\<forall>p. \<forall>t\<in>set (R p). rt s t < clock s 0) \<and>
     (\<forall>p\<in>M. R p = [] \<longrightarrow> p = prio_of s (g_current_task s) \<and> g_current_task s \<in> set W \<and>
        rt s (g_current_task s) < clock s 0)"

lemma sched_invD:
  assumes "sched_inv s R W M"
  shows "sched_rel s R W M" "clock_ok (clock s)" "queued s R W (g_current_task s)" "R p \<noteq> [] \<Longrightarrow> p \<in> M"
    "queued s R W t \<Longrightarrow> unat (rt s t) < 2 ^ 63" "t \<in> set (R p) \<Longrightarrow> rt s t < clock s 0"
    "p \<in> M \<Longrightarrow> R p = [] \<Longrightarrow> p = prio_of s (g_current_task s) \<and> g_current_task s \<in> set W \<and>
        rt s (g_current_task s) < clock s 0"
  using assms unfolding sched_inv_def by blast+

lemma clock_okD:
  assumes "clock_ok c"
  shows "i \<le> j \<Longrightarrow> c i \<le> c j" "unat (c i) < 2 ^ 63" "0 < c i"
proof -
  show "i \<le> j \<Longrightarrow> c i \<le> c j" using assms by (simp add: clock_ok_def)
  have "unat (c i) < 2 ^ 62" using assms by (simp add: clock_ok_def)
  then show "unat (c i) < 2 ^ 63" by simp
  have "0 < c 0" "c 0 \<le> c i" using assms by (simp_all add: clock_ok_def)
  then show "0 < c i" by (rule less_le_trans)
qed

lemma clock_ok_shift: "clock_ok c \<Longrightarrow> clock_ok (\<lambda>i. c (n + i))"
  using clock_okD(3) [of c n] by (simp add: clock_ok_def)

lemma due_iff:
  assumes "clock_ok (clock s)" "unat (rt s t) < 2 ^ 63"
  shows "due s t (clock s i) \<longleftrightarrow> rt s t < clock s i"
  unfolding due_def using assms clock_okD(2) by (intro sint_diff_less) auto

lemma woken_ready_mem:
  assumes "sched_rel s R W M"
  shows "t \<in> set (woken_ready s R woken p) \<longleftrightarrow> t \<in> set (R p) \<or> t \<in> set woken \<and> prio_of s t = p"
  by (auto simp: woken_ready_def)

text \<open>After the waiting tasks have been woken, exactly the priorities with a ready task are marked.\<close>

lemma marks_exact:
  assumes inv: "sched_inv s R W M" and wk: "wake_due (due s) (clock s) W = (woken, kept)"
  shows "p \<in> M \<union> prio_of s ` set woken \<longleftrightarrow> woken_ready s R woken p \<noteq> []"
proof
  assume "woken_ready s R woken p \<noteq> []"
  then show "p \<in> M \<union> prio_of s ` set woken"
    using sched_invD(4) [OF inv, of p] by (auto simp: woken_ready_def filter_empty_conv)
next
  let ?cur = "g_current_task s"
  assume "p \<in> M \<union> prio_of s ` set woken"
  then consider "p \<in> prio_of s ` set woken" | "R p \<noteq> []" | "p \<in> M" "R p = []" by blast
  then show "woken_ready s R woken p \<noteq> []"
  proof cases
    case 1
    then show ?thesis by (auto simp: woken_ready_def filter_empty_conv)
  next
    case 3
    then have cur: "p = prio_of s ?cur" "?cur \<in> set W" "rt s ?cur < clock s 0"
      using sched_invD(7) [OF inv] by blast+
    have "unat (rt s ?cur) < 2 ^ 63" using sched_invD(3,5) [OF inv] by blast
    then have "due s ?cur (clock s i)" for i
      using cur(3) clock_okD(1) [OF sched_invD(2) [OF inv], of 0 i]
      by (subst due_iff [OF sched_invD(2) [OF inv]]) auto
    then have "?cur \<notin> set kept" using wake_due_kept [OF wk] by blast
    then have "?cur \<in> set woken" using wake_due_set [OF wk] cur(2) by blast
    then show ?thesis using cur(1) by (auto simp: woken_ready_def filter_empty_conv)
  qed (simp add: woken_ready_def)
qed

lemma woken_past:
  assumes inv: "sched_inv s R W M" and wk: "wake_due (due s) (clock s) W = (woken, kept)"
    and t: "t \<in> set (woken_ready s R woken p)"
  shows "rt s t < clock s (length W)"
proof -
  note c = sched_invD(2) [OF inv]
  consider "t \<in> set (R p)" | "t \<in> set woken" using t by (auto simp: woken_ready_def)
  then show ?thesis
  proof cases
    case 1
    then show ?thesis using sched_invD(6) [OF inv] clock_okD(1) [OF c, of 0 "length W"] by (meson less_le_trans zero_le)
  next
    case 2
    then obtain i where i: "i < length W" "due s t (clock s i)" using wake_due_woken [OF wk] by blast
    have "t \<in> set W" using 2 wake_due_set [OF wk] by blast
    then have "unat (rt s t) < 2 ^ 63" by (intro sched_invD(5) [OF inv]) (simp add: queued_def)
    then have "rt s t < clock s i" using i(2) due_iff [OF c] by blast
    then show ?thesis using clock_okD(1) [OF c, of i "length W"] i(1) by (meson less_le_trans less_imp_le)
  qed
qed

lemma queued_after_wake:
  assumes rel: "sched_rel s R W M" and wk: "wake_due (due s) (clock s) W = (woken, kept)"
  shows "queued s (woken_ready s R woken) kept t \<longleftrightarrow> queued s R W t"
  using wake_due_set [OF wk] by (auto simp: queued_def woken_ready_def)

lemma sched_inv_schedule:
  assumes inv: "sched_inv s R W M" and wk: "wake_due (due s) (clock s) W = (woken, kept)"
    and R1: "R1 = woken_ready s R woken" and M1: "M1 = M \<union> prio_of s ` set woken" and p: "p = top_priority M1"
  shows "\<exists>s'. schedule s = Some s' \<and>
    (case find (\<lambda>t. t \<noteq> g_current_task s) (R1 p) of
       None \<Rightarrow> sched_inv s' R1 kept M1 \<and> g_current_task s' = g_current_task s
     | Some t \<Rightarrow> sched_inv s' (R1(p := remove1 t (R1 p))) (kept @ [t]) M1 \<and> g_current_task s' = t \<and>
         t_state (tcbs s' t) = TSTATE_TASK_RUNNING)"
proof -
  let ?cur = "g_current_task s"
  note rel = sched_invD(1) [OF inv] and c = sched_invD(2) [OF inv]
  obtain s' where s': "schedule s = Some s'" "sched_frame s s'" "clock s' = (\<lambda>i. clock s (length W + i))"
    and out: "case find (\<lambda>t. t \<noteq> ?cur) (R1 p) of
       None \<Rightarrow> sched_rel s' R1 kept M1 \<and> g_current_task s' = ?cur
     | Some t \<Rightarrow> sched_rel s' (R1(p := remove1 t (R1 p))) (kept @ [t]) M1 \<and> g_current_task s' = t \<and>
         t_state (tcbs s' t) = TSTATE_TASK_RUNNING"
    using schedule_rel [OF rel wk R1 M1 p] by blast
  have clk: "clock_ok (clock s')" unfolding s'(3) by (rule clock_ok_shift [OF c])
  have fr: "prio_of s' t = prio_of s t" "rt s' t = rt s t" for t using sched_frameD [OF s'(2)] by simp_all
  have q: "queued s' R2 W2 t \<longleftrightarrow> queued s R2 W2 t" for R2 W2 t by (simp add: queued_def fr)
  have ex: "q' \<in> M1 \<longleftrightarrow> R1 q' \<noteq> []" for q' unfolding M1 R1 by (rule marks_exact [OF inv wk])
  have past: "t \<in> set (R1 q') \<Longrightarrow> rt s' t < clock s' 0" for t q'
    using woken_past [OF inv wk] by (simp add: R1 fr s'(3))
  have bound: "unat (rt s' t) < 2 ^ 63" if "queued s R1 kept t" for t
    using that sched_invD(5) [OF inv] queued_after_wake [OF rel wk] by (simp add: R1 fr)
  show ?thesis
  proof (cases "find (\<lambda>t. t \<noteq> ?cur) (R1 p)")
    case None
    then have o: "sched_rel s' R1 kept M1" "g_current_task s' = ?cur" using out by simp_all
    have "queued s R1 kept ?cur" using sched_invD(3) [OF inv] queued_after_wake [OF rel wk] by (simp add: R1)
    then have "sched_inv s' R1 kept M1"
      unfolding sched_inv_def using o clk q ex past bound by auto
    then show ?thesis using s'(1) None o(2) by simp
  next
    case (Some t)
    let ?R = "R1(p := remove1 t (R1 p))"
    have o: "sched_rel s' ?R (kept @ [t]) M1" "g_current_task s' = t" "t_state (tcbs s' t) = TSTATE_TASK_RUNNING"
      using out Some by simp_all
    have t: "t \<in> set (R1 p)" using Some by (auto simp: find_Some_iff)
    have sub: "u \<in> set (?R q') \<Longrightarrow> u \<in> set (R1 q')" for u q'
      by (auto split: if_splits dest: subsetD [OF set_remove1_subset])
    have pt: "prio_of s t = p"
      using t sched_relD(5) [OF rel] by (auto simp: R1 woken_ready_def)
    have b: "unat (rt s' u) < 2 ^ 63" if "queued s ?R (kept @ [t]) u" for u
    proof (rule bound)
      show "queued s R1 kept u" using that sub [of u] t pt by (auto simp: queued_def)
    qed
    have nonempty: "q' \<in> M1" if "?R q' \<noteq> []" for q'
    proof -
      have "R1 q' \<noteq> []" using that by (cases "q' = p") auto
      then show ?thesis using ex by blast
    qed
    have stale: "q' = p" if "q' \<in> M1" "?R q' = []" for q'
    proof (rule ccontr)
      assume "q' \<noteq> p"
      then show False using that ex [of q'] by simp
    qed
    have "sched_inv s' ?R (kept @ [t]) M1"
      unfolding sched_inv_def
    proof (intro conjI allI ballI impI o(1) clk nonempty b)
      show "queued s' ?R (kept @ [t]) (g_current_task s')" by (simp add: o(2) queued_def)
      show "queued s ?R (kept @ [t]) u" if "queued s' ?R (kept @ [t]) u" for u using that q by blast
      show "rt s' u < clock s' 0" if "u \<in> set (?R q')" for u q' using past [OF sub [OF that]] .
      show "q' = prio_of s' (g_current_task s')" if "q' \<in> M1" "?R q' = []" for q'
        using stale [OF that] pt fr by (simp add: o(2))
      show "g_current_task s' \<in> set (kept @ [t])" by (simp add: o(2))
      show "rt s' (g_current_task s') < clock s' 0" using past [OF t] by (simp add: o(2))
    qed
    then show ?thesis using s'(1) Some o(2,3) by simp
  qed
qed

lemma sched_inv_attach:
  assumes inv: "sched_inv s R W M" and t: "task_ok s t" "fresh_for (qmap s R W) t" "rt s t = 0"
    and p: "p = prio_of s t"
  shows "\<exists>s'. sched_attach s t = Some s' \<and> sched_inv s' (R(p := R p @ [t])) W (insert p M)"
proof -
  let ?R = "R(p := R p @ [t])"
  obtain s' where s': "sched_attach s t = Some s'" "sched_rel s' ?R W (insert p M)" "sched_frame s s'"
    "g_current_task s' = g_current_task s" "clock s' = clock s"
    using sched_attach_rel [OF sched_invD(1) [OF inv] t(1,2) p] by blast
  have fr: "prio_of s' u = prio_of s u" "rt s' u = rt s u" for u using sched_frameD [OF s'(3)] by simp_all
  have q: "queued s' ?R W u \<longleftrightarrow> queued s R W u \<or> u = t" for u
    by (auto simp: queued_def fr p split: if_splits)
  have "sched_inv s' ?R W (insert p M)"
    unfolding sched_inv_def fr s'(4,5)
  proof (intro conjI allI ballI impI s'(2) sched_invD(2) [OF inv])
    show "queued s' ?R W (g_current_task s)" using q sched_invD(3) [OF inv] by blast
    show "q' \<in> insert p M" if "?R q' \<noteq> []" for q'
      using that sched_invD(4) [OF inv, of q'] by (cases "q' = p") auto
    show "unat (rt s u) < 2 ^ 63" if "queued s' ?R W u" for u
      using that q sched_invD(5) [OF inv] t(3) by auto
    show "rt s u < clock s 0" if "u \<in> set (?R q')" for u q'
      using that sched_invD(6) [OF inv] t(3) clock_okD(3) [OF sched_invD(2) [OF inv]] by (auto split: if_splits)
    fix q' assume "q' \<in> insert p M" "?R q' = []"
    then have "q' \<in> M" "R q' = []" by (auto split: if_splits)
    note stale = sched_invD(7) [OF inv this]
    show "q' = prio_of s (g_current_task s)" "g_current_task s \<in> set W" "rt s (g_current_task s) < clock s 0"
      using stale by blast+
  qed
  then show ?thesis using s'(1) by blast
qed

definition timespec_ok :: "'a ktask_scheme \<Rightarrow> u64 \<Rightarrow> bool" where
  "timespec_ok s req \<longleftrightarrow> unat (load_le 8 (bytes s) req) < 2 ^ 35"

lemma nanosleep_time:
  assumes "unat (now :: u64) < 2 ^ 62" "unat sec < 2 ^ 35"
  shows "unat (now + sec * TICKS_PER_S + nsec * TICKS_PER_NS) < 2 ^ 63"
proof -
  have ns: "TICKS_PER_NS = 0" and hz: "unat TICKS_PER_S = 62500000"
    by (simp_all add: TICKS_PER_NS_def TICKS_PER_S_def TIMER_CLOCK_HZ_def)
  have "unat sec * 62500000 < 2 ^ 35 * 2 ^ 26" using assms(2) by simp
  then have m: "unat (sec * TICKS_PER_S) = unat sec * 62500000" "unat sec * 62500000 < 2 ^ 61"
    by (simp_all add: unat_word_ariths hz)
  then have "unat (now + sec * TICKS_PER_S) = unat now + unat sec * 62500000"
    using assms(1) by (subst unat_add_small) simp_all
  then show ?thesis using m(2) assms(1) by (simp add: ns)
qed

lemma sched_inv_nanosleep:
  assumes inv: "sched_inv s R W M" and ts: "timespec_ok s req"
    and cur: "cur = g_current_task s" and p: "p = prio_of s cur"
  shows "\<exists>s'. sys_nanosleep s req = Some (0, s') \<and>
    sched_inv s' (R(p := remove1 cur (R p))) (remove1 cur W @ [cur]) (unmarked p (remove1 cur (R p)) M) \<and>
    rt s' cur = clock s 0 + load_le 8 (bytes s) req * TICKS_PER_S"
proof -
  let ?R = "R(p := remove1 cur (R p))" and ?W = "remove1 cur W @ [cur]" and ?M = "unmarked p (remove1 cur (R p)) M"
  define wake where "wake = clock s 0 + load_le 8 (bytes s) req * TICKS_PER_S + load_le 8 (bytes s) (req + 8) * TICKS_PER_NS"
  let ?s = "upd_tcb (s\<lparr>clock := \<lambda>i. clock s (Suc i)\<rparr>) cur (\<lambda>t. t\<lparr>t_readytime := wake\<rparr>)"
  note rel = sched_invD(1) [OF inv] and c = sched_invD(2) [OF inv]
  have same: "prio_of ?s u = prio_of s u" "t_type (tcbs ?s u) = t_type (tcbs s u)" "cells ?s = cells s"
    "g_pendingtasks ?s = g_pendingtasks s" "g_readytorun ?s = g_readytorun s" "task_ok ?s u = task_ok s u" for u
    by (auto simp: upd_tcb_def task_ok_def)
  have rel1: "sched_rel ?s R W M"
    using rel unfolding sched_rel_def same qmap_cong [OF same(4,5)]
    by (simp add: heads_apart_def ready_head_def upd_tcb_def marks_def)
  have "queued ?s R W cur" using sched_invD(3) [OF inv] unfolding queued_def same(1) by (simp only: cur)
  from sched_sleep_rel [OF rel1 this, of p] obtain s' where s': "sched_sleep ?s cur = Some s'"
    "sched_rel s' ?R ?W ?M" "sched_frame ?s s'" "g_current_task s' = cur" "clock s' = (\<lambda>i. clock s (1 + i))"
    using p unfolding same(1) by (auto simp: upd_tcb_def cur)
  have fr: "prio_of s' u = prio_of s u" "rt s' u = (if u = cur then wake else rt s u)" for u
    using sched_frameD [OF s'(3)] same by (simp_all add: upd_tcb_def)
  have dist: "cur \<notin> set (remove1 cur (R p))"
  proof -
    have "task_ok s cur" using sched_invD(3) [OF inv] sched_relD(4,6) [OF rel] by (auto simp: queued_def cur)
    then have "unat p < CONFIG_MAX_TASK_PRIORITY" unfolding p by (rule task_okD)
    then have "distinct (R p)"
      using is_list_distinct [OF queuesD(1) [OF sched_relD(1) [OF rel] qmap_ready [OF sched_relD(2) [OF rel]]]] by simp
    then show ?thesis by simp
  qed
  have sub: "u \<in> set (R q') \<and> u \<noteq> cur" if "u \<in> set (?R q')" for u q'
    using that dist sched_relD(5) [OF rel, of u q'] by (auto simp: p split: if_splits dest: subsetD [OF set_remove1_subset])
  have wake: "unat wake < 2 ^ 63"
    unfolding wake_def using ts c by (intro nanosleep_time) (simp_all add: timespec_ok_def clock_ok_def)
  have "sched_inv s' ?R ?W ?M"
    unfolding sched_inv_def s'(4)
  proof (intro conjI allI ballI impI s'(2))
    show "clock_ok (clock s')" unfolding s'(5) by (rule clock_ok_shift [OF c])
    show "queued s' ?R ?W cur" by (simp add: queued_def)
    show "q' \<in> ?M" if "?R q' \<noteq> []" for q'
      using that sched_invD(4) [OF inv, of q'] by (cases "R p = []") (auto simp: unmarked_def split: if_splits)
    show "unat (rt s' u) < 2 ^ 63" if "queued s' ?R ?W u" for u
    proof (cases "u = cur")
      case False
      then have "u \<in> set (remove1 cur W) \<or> u \<in> set (?R (prio_of s u))"
        using that unfolding queued_def fr(1) by simp
      then have "queued s R W u"
        using sub [of u "prio_of s u"] subsetD [OF set_remove1_subset, of u cur W] unfolding queued_def by blast
      then show ?thesis using False sched_invD(5) [OF inv] by (simp add: fr(2))
    qed (use wake in \<open>simp add: fr(2)\<close>)
    show "rt s' u < clock s' 0" if "u \<in> set (?R q')" for u q'
    proof -
      have "rt s u < clock s 0" "u \<noteq> cur" using sub [OF that] sched_invD(6) [OF inv] by blast+
      moreover have "clock s 0 \<le> clock s 1" by (rule clock_okD(1) [OF c]) simp
      ultimately show ?thesis by (simp add: fr(2) s'(5))
    qed
    fix q' assume "q' \<in> ?M" "?R q' = []"
    then have "q' \<in> M" "q' \<noteq> p" "R q' = []" by (auto simp: unmarked_def split: if_splits)
    then have False using sched_invD(7) [OF inv, of q'] by (simp add: p cur)
    then show "q' = prio_of s' cur" "cur \<in> set ?W" "rt s' cur < clock s' 0" by blast+
  qed
  moreover have "sys_nanosleep s req = Some (0, s')"
    using s'(1) by (simp add: sys_nanosleep_def Let_def get_current_time_def cur wake_def)
  moreover have "rt s' cur = clock s 0 + load_le 8 (bytes s) req * TICKS_PER_S"
    unfolding fr(2) wake_def by (simp add: TICKS_PER_NS_def TIMER_CLOCK_HZ_def)
  ultimately show ?thesis by blast
qed

lemma sched_inv_init:
  assumes "heads_apart s" "g_priority_group s = 0" "\<And>i. i < 4 \<Longrightarrow> g_priority_bitmap s i = 0" "clock_ok (clock s)"
    and idle: "task_ok s idle" "idle \<noteq> g_pendingtasks s"
      "\<And>p. unat p < CONFIG_MAX_TASK_PRIORITY \<Longrightarrow> idle \<noteq> ready_head s p" "rt s idle = 0"
  shows "\<exists>s'. sched_init s idle = Some s' \<and>
    sched_inv s' ((\<lambda>_. [])(prio_of s idle := [idle])) [] {prio_of s idle}"
proof -
  let ?R = "(\<lambda>_. [])(prio_of s idle := [idle])"
  obtain s' where s': "sched_init s idle = Some s'" "sched_frame s s'" "g_current_task s' = idle" "clock s' = clock s"
    "sched_rel s' ?R [] {prio_of s idle}"
    using sched_init_rel [OF assms(1-3) idle(1-3)] by blast
  have "sched_inv s' ?R [] {prio_of s idle}"
    unfolding sched_inv_def using s'(3-5) assms(4) idle(4) clock_okD(3) [OF assms(4)]
    by (auto simp: queued_def sched_frameD [OF s'(2)] split: if_splits)
  then show ?thesis using s'(1) by blast
qed

text \<open>
  A step of anything else: it may write everything but the cells of the queues, the
  scheduler's variables, and of the queued control blocks the priority, type and ready time.
\<close>

definition untouched :: "'a ksched_scheme \<Rightarrow> 'a ksched_scheme \<Rightarrow> bool" where
  "untouched s s' \<longleftrightarrow> g_readytorun s' = g_readytorun s \<and> g_pendingtasks s' = g_pendingtasks s \<and>
     g_priority_bitmap s' = g_priority_bitmap s \<and> g_priority_group s' = g_priority_group s \<and>
     g_current_task s' = g_current_task s \<and> clock s' = clock s \<and>
     (\<forall>R W M. sched_rel s R W M \<longrightarrow>
        (\<forall>t. (t \<in> set W \<or> (\<exists>p. t \<in> set (R p))) \<longrightarrow> prio_of s' t = prio_of s t \<and> t_type (tcbs s' t) = t_type (tcbs s t) \<and>
           rt s' t = rt s t) \<and>
        (\<forall>c. \<not> fresh_for (qmap s R W) c \<longrightarrow> nextp (cells s') c = nextp (cells s) c \<and> prevp (cells s') c = prevp (cells s) c))"

lemma sched_inv_untouched:
  assumes inv: "sched_inv s R W M" and u: "untouched s s'"
  shows "sched_inv s' R W M"
proof -
  note rel = sched_invD(1) [OF inv]
  have v: "g_readytorun s' = g_readytorun s" "g_pendingtasks s' = g_pendingtasks s"
    "g_priority_bitmap s' = g_priority_bitmap s" "g_priority_group s' = g_priority_group s"
    "g_current_task s' = g_current_task s" "clock s' = clock s"
    using u by (simp_all add: untouched_def)
  have t: "prio_of s' t = prio_of s t" "t_type (tcbs s' t) = t_type (tcbs s t)" "rt s' t = rt s t"
    if "t \<in> set W \<or> (\<exists>p. t \<in> set (R p))" for t
    using u rel that unfolding untouched_def by blast+
  have c: "nextp (cells s') c = nextp (cells s) c \<and> prevp (cells s') c = prevp (cells s) c"
    if "\<not> fresh_for (qmap s R W) c" for c
    using u rel that unfolding untouched_def by blast
  have "queues is_list (cells s') (qmap s R W)"
    unfolding queues_def
  proof (intro conjI allI impI)
    fix q xs assume q: "qmap s R W q = Some xs"
    show "is_list (cells s') q xs"
      by (rule is_list_frame [OF queuesD(1) [OF sched_relD(1) [OF rel] q]], rule c) (use q in \<open>auto simp: fresh_for_def\<close>)
  next
    fix a b xs ys
    assume ab: "qmap s R W a = Some xs" "qmap s R W b = Some ys" "a \<noteq> b"
    show "set (a # xs) \<inter> set (b # ys) = {}" by (rule queuesD(2) [OF sched_relD(1) [OF rel] ab(2,1,3)])
  qed
  moreover have "heads_apart s'" using sched_relD(2) [OF rel] by (simp add: heads_apart_def ready_head_def v)
  moreover have ok: "task_ok s' t \<longleftrightarrow> task_ok s t" if "t \<in> set W \<or> (\<exists>p. t \<in> set (R p))" for t
    using t [OF that] by (simp add: task_ok_def)
  ultimately have "sched_rel s' R W M"
    using sched_relD [OF rel] t(1) ok qmap_cong [OF v(2,1)] marks_cong [OF v(3,4)]
    unfolding sched_rel_def by (metis (no_types, lifting))
  moreover have q: "queued s' R W x \<longleftrightarrow> queued s R W x" if "x \<in> set W \<or> (\<exists>p. x \<in> set (R p))" for x
    using t(1) [OF that] by (simp add: queued_def)
  have qd: "x \<in> set W \<or> (\<exists>p. x \<in> set (R p))" if "queued s'' R W x" for x and s'' :: "'a ksched_scheme"
    using that by (auto simp: queued_def)
  note cur = qd [OF sched_invD(3) [OF inv]]
  ultimately show ?thesis
    unfolding sched_inv_def v
  proof (intro conjI allI ballI impI sched_invD(2) [OF inv])
    show "queued s' R W (g_current_task s)" using q [OF cur] sched_invD(3) [OF inv] by simp
    show "p \<in> M" if "R p \<noteq> []" for p using sched_invD(4) [OF inv that] .
    show "unat (rt s' x) < 2 ^ 63" if "queued s' R W x" for x
      using q [OF qd [OF that]] t(3) [OF qd [OF that]] that sched_invD(5) [OF inv] by simp
    show "rt s' x < clock s 0" if "x \<in> set (R p)" for x p
    proof -
      have "x \<in> set W \<or> (\<exists>p. x \<in> set (R p))" using that by blast
      from t(3) [OF this] show ?thesis using sched_invD(6) [OF inv that] by simp
    qed
    fix p assume "p \<in> M" "R p = []"
    then show "p = prio_of s' (g_current_task s)" "g_current_task s \<in> set W" "rt s' (g_current_task s) < clock s 0"
      using sched_invD(7) [OF inv] t(1,3) [OF cur] by simp_all
  qed
qed

text \<open>
  The runs of the kernel: the scheduler is started with the idle task; then, in any order, new
  tasks are attached, the running task sleeps, the timer interrupt or a system call schedules,
  and other code runs that leaves the scheduler's data alone.
\<close>

definition free_cell :: "'a ksched_scheme \<Rightarrow> u64 \<Rightarrow> bool" where
  "free_cell s t \<longleftrightarrow> (\<forall>R W M. sched_rel s R W M \<longrightarrow> fresh_for (qmap s R W) t)"

inductive kernel_run :: "'a ksched_scheme \<Rightarrow> u64 \<Rightarrow> 'a ksched_scheme \<Rightarrow> bool" for s0 idle where
  run_init: "sched_init s0 idle = Some s \<Longrightarrow> kernel_run s0 idle s"
| run_attach: "kernel_run s0 idle s \<Longrightarrow> task_ok s t \<Longrightarrow> free_cell s t \<Longrightarrow> rt s t = 0 \<Longrightarrow>
    sched_attach s t = Some s' \<Longrightarrow> kernel_run s0 idle s'"
| run_sleep: "kernel_run s0 idle s \<Longrightarrow> timespec_ok s req \<Longrightarrow> sys_nanosleep s req = Some (r, s') \<Longrightarrow>
    kernel_run s0 idle s'"
| run_schedule: "kernel_run s0 idle s \<Longrightarrow> schedule s = Some s' \<Longrightarrow> kernel_run s0 idle s'"
| run_other: "kernel_run s0 idle s \<Longrightarrow> untouched s s' \<Longrightarrow> kernel_run s0 idle s'"

definition boot_ok :: "'a ksched_scheme \<Rightarrow> u64 \<Rightarrow> bool" where
  "boot_ok s idle \<longleftrightarrow> heads_apart s \<and> g_priority_group s = 0 \<and> (\<forall>i<4. g_priority_bitmap s i = 0) \<and>
     clock_ok (clock s) \<and> task_ok s idle \<and> idle \<noteq> g_pendingtasks s \<and>
     (\<forall>p. unat p < CONFIG_MAX_TASK_PRIORITY \<longrightarrow> idle \<noteq> ready_head s p) \<and> rt s idle = 0"

lemma kernel_run_inv: "kernel_run s0 idle s \<Longrightarrow> boot_ok s0 idle \<Longrightarrow> \<exists>R W M. sched_inv s R W M"
proof (induction rule: kernel_run.induct)
  case (run_init s)
  then show ?case using sched_inv_init [of s0 idle] by (fastforce simp: boot_ok_def)
next
  case (run_attach s t s')
  then obtain R W M where inv: "sched_inv s R W M" by blast
  have "fresh_for (qmap s R W) t" using run_attach.hyps(3) sched_invD(1) [OF inv] unfolding free_cell_def by blast
  then show ?case using sched_inv_attach [OF inv run_attach.hyps(2) _ run_attach.hyps(4) refl] run_attach.hyps(5) by auto
next
  case (run_sleep s req r s')
  then obtain R W M where inv: "sched_inv s R W M" by blast
  show ?case using sched_inv_nanosleep [OF inv run_sleep.hyps(2) refl refl] run_sleep.hyps(3) by auto
next
  case (run_schedule s s')
  then obtain R W M where inv: "sched_inv s R W M" by blast
  obtain woken kept where wk: "wake_due (due s) (clock s) W = (woken, kept)" by fastforce
  show ?case
    using sched_inv_schedule [OF inv wk refl refl refl] run_schedule.hyps(2) by (fastforce split: option.splits)
next
  case (run_other s s')
  then show ?case using sched_inv_untouched by blast
qed

section \<open>Properties\<close>

text \<open>
  C31.  The queue operations of the scheduler implement sequences of tasks, one per priority and
  one of waiting tasks, with the set of marked priorities.  Attaching adds a task at the tail and
  unblocking at the head of the queue of its priority, and both mark the priority.  Blocking and sleeping
  take a task out of the queue it is in, ready or waiting, and remove the mark of its priority when no ready task is left
  there; a sleeping task goes to the end of the waiting queue.  Waking takes the task out and marks its priority.
  Detaching takes the task out when its priority has a ready task; when it has none, a waiting task stays in the waiting queue and
  only the mark is removed.  None of the operations halts.
\<close>

theorem sched_ops_refine:
  assumes "sched_rel s R W M" "task_ok s t" "fresh_for (qmap s R W) t" "queued s R W u"
  shows "(\<exists>s'. sched_attach s t = Some s' \<and>
        sched_rel s' (R(prio_of s t := R (prio_of s t) @ [t])) W (insert (prio_of s t) M)) \<and>
    (\<exists>s'. sched_unblock s t = Some s' \<and>
        sched_rel s' (R(prio_of s t := t # R (prio_of s t))) W (insert (prio_of s t) M)) \<and>
    (let p = prio_of s u; R' = R(p := remove1 u (R p)); M' = unmarked p (remove1 u (R p)) M in
      (\<exists>s'. sched_block s u = Some s' \<and> sched_rel s' R' (remove1 u W) M') \<and>
      (\<exists>s'. sched_sleep s u = Some s' \<and> sched_rel s' R' (remove1 u W @ [u]) M') \<and>
      sched_rel (sched_wake s u) R' (remove1 u W) (insert p M) \<and>
      (\<exists>s'. sched_detach s u = Some s' \<and>
        (if R p = [] then u \<in> set W \<and> sched_rel s' R W (M - {p}) else sched_rel s' R' (remove1 u W) M')))"
proof -
  let ?p = "prio_of s u"
  have "u \<in> set W" if "R ?p = []" using assms(4) that by (simp add: queued_def)
  then have detach: "\<exists>s'. sched_detach s u = Some s' \<and>
      (if R ?p = [] then u \<in> set W \<and> sched_rel s' R W (M - {?p})
       else sched_rel s' (R(?p := remove1 u (R ?p))) (remove1 u W) (unmarked ?p (remove1 u (R ?p)) M))"
    using sched_detach_rel [OF assms(1,4) refl] by (simp split: if_splits) blast+
  show ?thesis
    unfolding Let_def
    using sched_attach_rel [OF assms(1-3) refl] sched_unblock_rel [OF assms(1-3) refl] detach
      sched_block_rel [OF assms(1,4) refl] sched_sleep_rel [OF assms(1,4) refl] sched_wake_rel(1) [OF assms(1,4) refl]
    by (intro conjI) blast+
qed

text \<open>
  C32.  \<^verbatim>\<open>schedule\<close> returns, and does this to the queues: every waiting task whose time has passed
  at the clock reading taken for it moves, in order, to the tail of the ready queue of its
  priority; then the first task other than the current one in the queue of the highest marked
  priority, if there is one, becomes the current task and moves to the end of the waiting
  queue.
\<close>

theorem schedule_refines:
  assumes "sched_rel s R W M"
  shows "let (woken, kept) = wake_due (due s) (clock s) W;
        R1 = woken_ready s R woken; M1 = M \<union> prio_of s ` set woken; p = top_priority M1
    in \<exists>s'. schedule s = Some s' \<and>
      (case find (\<lambda>t. t \<noteq> g_current_task s) (R1 p) of
         None \<Rightarrow> sched_rel s' R1 kept M1 \<and> g_current_task s' = g_current_task s
       | Some t \<Rightarrow> sched_rel s' (R1(p := remove1 t (R1 p))) (kept @ [t]) M1 \<and> g_current_task s' = t \<and>
           t_state (tcbs s' t) = TSTATE_TASK_RUNNING)"
proof -
  obtain woken kept where wk: "wake_due (due s) (clock s) W = (woken, kept)" by fastforce
  show ?thesis unfolding wk Let_def prod.case using schedule_rel [OF assms wk refl refl refl] by blast
qed

lemma top_priority_least:
  assumes "\<And>q. q \<in> M \<longleftrightarrow> R q \<noteq> []" "\<And>q t. t \<in> set (R q) \<Longrightarrow> pr t = q" "t \<in> set (R (top_priority M))" "v \<in> set (R q)"
  shows "pr t \<le> pr v"
proof -
  have "q \<in> M" "M \<noteq> {}" using assms(1) [of q] assms(4) by auto
  then have "top_priority M \<le> q" by (simp add: top_priority_def)
  then show ?thesis using assms(2) [OF assms(3)] assms(2) [OF assms(4)] by simp
qed

text \<open>The first entry other than \<open>cur\<close> of the queue of the highest marked priority, or \<open>cur\<close>, against all ready tasks.\<close>

lemma pick_highest:
  fixes R :: "u8 \<Rightarrow> u64 list"
  defines "ready \<equiv> {t. \<exists>p. t \<in> set (R p)}"
  assumes ex: "\<And>q. q \<in> M \<longleftrightarrow> R q \<noteq> []" and pr: "\<And>q t. t \<in> set (R q) \<Longrightarrow> pr t = q"
    and out: "case find (\<lambda>t. t \<noteq> cur) (R (top_priority M)) of None \<Rightarrow> t' = cur | Some t \<Rightarrow> t' = t"
  shows "if t' = cur then \<forall>u\<in>ready. (\<forall>v\<in>ready. pr u \<le> pr v) \<longrightarrow> u = t' else t' \<in> ready \<and> (\<forall>v\<in>ready. pr t' \<le> pr v)"
proof (cases "find (\<lambda>t. t \<noteq> cur) (R (top_priority M))")
  case None
  let ?p = "top_priority M"
  have "u = cur" if u: "u \<in> set (R q)" "\<forall>v\<in>ready. pr u \<le> pr v" for u q
  proof -
    have "M \<noteq> {}" "finite M" using ex [of q] u(1) by auto
    then have "?p \<in> M" by (simp add: top_priority_def)
    then obtain v where v: "v \<in> set (R ?p)" using ex [of ?p] by (cases "R ?p") auto
    then have "pr u = ?p" using top_priority_least [where R = R and pr = pr, OF ex pr v u(1)] u(2) pr [OF v]
      unfolding ready_def by fastforce
    then have "u \<in> set (R ?p)" using u(1) pr [OF u(1)] by simp
    then show ?thesis using None by (auto simp: find_None_iff)
  qed
  then show ?thesis using out None by (auto simp: ready_def)
next
  case (Some t)
  then have t: "t \<in> set (R (top_priority M))" "t \<noteq> cur" by (auto simp: find_Some_iff)
  then show ?thesis using out Some top_priority_least [where R = R and pr = pr, OF ex pr t(1)] by (auto simp: ready_def)
qed

text \<open>
  C33.  Priority scheduling.  In every run of the kernel \<^verbatim>\<open>schedule\<close> returns, and the task it
  switches to has the highest priority (the least number) of all ready tasks, those just
  woken included; it keeps the current task only when no other ready task has the highest
  priority.
\<close>

theorem schedule_picks_highest:
  assumes "boot_ok s0 idle" "kernel_run s0 idle s"
  shows "\<exists>R W M s'. sched_rel s R W M \<and> schedule s = Some s' \<and>
    (let (woken, kept) = wake_due (due s) (clock s) W;
         ready = {t. \<exists>p. t \<in> set (woken_ready s R woken p)};
         t = g_current_task s'
     in if t = g_current_task s
        then \<forall>u\<in>ready. (\<forall>v\<in>ready. prio_of s u \<le> prio_of s v) \<longrightarrow> u = t
        else t \<in> ready \<and> (\<forall>v\<in>ready. prio_of s t \<le> prio_of s v))"
proof -
  obtain R W M where inv: "sched_inv s R W M" using kernel_run_inv [OF assms(2,1)] by blast
  note rel = sched_invD(1) [OF inv]
  obtain woken kept where wk: "wake_due (due s) (clock s) W = (woken, kept)" by fastforce
  define R1 where "R1 = woken_ready s R woken"
  define M1 where "M1 = M \<union> prio_of s ` set woken"
  let ?p = "top_priority M1" and ?cur = "g_current_task s"
  have ex: "q \<in> M1 \<longleftrightarrow> R1 q \<noteq> []" for q unfolding M1_def R1_def by (rule marks_exact [OF inv wk])
  have pr: "prio_of s t = q" if "t \<in> set (R1 q)" for t q
    using that sched_relD(5) [OF rel] by (auto simp: R1_def woken_ready_def)
  obtain s' where s': "schedule s = Some s'"
    and out: "case find (\<lambda>t. t \<noteq> ?cur) (R1 ?p) of None \<Rightarrow> g_current_task s' = ?cur | Some t \<Rightarrow> g_current_task s' = t"
    using sched_inv_schedule [OF inv wk R1_def M1_def refl] by (auto split: option.splits)
  note pick = pick_highest [where R = R1 and pr = "\<lambda>t. prio_of s t", OF ex pr out]
  have res: "let (woken, kept) = wake_due (due s) (clock s) W;
         ready = {t. \<exists>p. t \<in> set (woken_ready s R woken p)};
         t = g_current_task s'
     in if t = g_current_task s
        then \<forall>u\<in>ready. (\<forall>v\<in>ready. prio_of s u \<le> prio_of s v) \<longrightarrow> u = t
        else t \<in> ready \<and> (\<forall>v\<in>ready. prio_of s t \<le> prio_of s v)"
    using pick unfolding wk Let_def prod.case R1_def .
  show ?thesis by (intro exI conjI) (rule rel, rule s', rule res)
qed

text \<open>Waiting tasks whose time lies before the first reading are woken, those whose time is not before the last are kept.\<close>

lemma sleepers_split:
  assumes inv: "sched_inv s R W M" and wk: "wake_due (due s) (clock s) W = (woken, kept)" and t: "t \<in> set W"
  shows "rt s t < clock s 0 \<Longrightarrow> t \<in> set woken" "clock s (length W) \<le> rt s t \<Longrightarrow> t \<in> set kept"
proof -
  note c = sched_invD(2) [OF inv]
  have "unat (rt s t) < 2 ^ 63" using t by (intro sched_invD(5) [OF inv]) (simp add: queued_def)
  note d = due_iff [OF c this]
  show "t \<in> set woken" if "rt s t < clock s 0"
  proof -
    have "due s t (clock s i)" for i using that clock_okD(1) [OF c, of 0 i] d by (simp add: order_less_le_trans)
    then show ?thesis using wake_due_kept [OF wk] wake_due_set [OF wk] t by blast
  qed
  show "t \<in> set kept" if "clock s (length W) \<le> rt s t"
  proof -
    have "\<not> due s t (clock s i)" if "i < length W" for i
      using that \<open>clock s (length W) \<le> rt s t\<close> clock_okD(1) [OF c, of i "length W"] d by (simp add: not_less order_trans)
    then show ?thesis using wake_due_woken [OF wk] wake_due_set [OF wk] t by blast
  qed
qed

text \<open>
  C34.  Sleeping.  In every run of the kernel, a waiting task whose ready time lies before the
  present is ready after the next call of \<^verbatim>\<open>schedule\<close> or running; one whose ready time is not
  before any of the clock readings taken stays in the waiting queue.  \<^verbatim>\<open>sys_nanosleep\<close> sets that
  time to the present plus the whole seconds of the request.
\<close>

theorem sleepers_wake_in_time:
  assumes "boot_ok s0 idle" "kernel_run s0 idle s" "timespec_ok s req"
  shows "\<exists>R W M. sched_rel s R W M \<and>
    (\<exists>s' R' W' M'. schedule s = Some s' \<and> sched_rel s' R' W' M' \<and>
      (\<forall>t\<in>set W. (rt s t < clock s 0 \<longrightarrow> t \<in> set (R' (prio_of s t)) \<or> t = g_current_task s') \<and>
                (clock s (length W) \<le> rt s t \<longrightarrow> t \<in> set W'))) \<and>
    (\<exists>s' R' W' M'. sys_nanosleep s req = Some (0, s') \<and> sched_rel s' R' (W' @ [g_current_task s]) M' \<and>
       rt s' (g_current_task s) = clock s 0 + load_le 8 (bytes s) req * TICKS_PER_S)"
proof -
  obtain R W M where inv: "sched_inv s R W M" using kernel_run_inv [OF assms(2,1)] by blast
  note rel = sched_invD(1) [OF inv]
  obtain woken kept where wk: "wake_due (due s) (clock s) W = (woken, kept)" by fastforce
  define R1 where "R1 = woken_ready s R woken"
  define M1 where "M1 = M \<union> prio_of s ` set woken"
  let ?p = "top_priority M1" and ?cur = "g_current_task s"
  have early: "t \<in> set (R1 (prio_of s t))" if "t \<in> set W" "rt s t < clock s 0" for t
    using sleepers_split(1) [OF inv wk that] by (simp add: R1_def woken_ready_def)
  note late = sleepers_split(2) [OF inv wk]
  obtain s' where s': "schedule s = Some s'"
    and out: "case find (\<lambda>t. t \<noteq> ?cur) (R1 ?p) of
       None \<Rightarrow> sched_rel s' R1 kept M1 \<and> g_current_task s' = ?cur
     | Some t \<Rightarrow> sched_rel s' (R1(?p := remove1 t (R1 ?p))) (kept @ [t]) M1 \<and> g_current_task s' = t \<and>
         t_state (tcbs s' t) = TSTATE_TASK_RUNNING"
    using schedule_rel [OF rel wk R1_def M1_def refl] by blast
  have "\<exists>R' W' M'. sched_rel s' R' W' M' \<and>
      (\<forall>t\<in>set W. (rt s t < clock s 0 \<longrightarrow> t \<in> set (R' (prio_of s t)) \<or> t = g_current_task s') \<and>
                (clock s (length W) \<le> rt s t \<longrightarrow> t \<in> set W'))"
  proof (cases "find (\<lambda>t. t \<noteq> ?cur) (R1 ?p)")
    case None
    then show ?thesis using out early late by auto
  next
    case (Some u)
    have moved: "t \<in> set ((R1(?p := remove1 u (R1 ?p))) (prio_of s t))" if "t \<in> set (R1 (prio_of s t))" "t \<noteq> u" for t
      using that by auto
    have o: "sched_rel s' (R1(?p := remove1 u (R1 ?p))) (kept @ [u]) M1" "g_current_task s' = u"
      using out Some by simp_all
    have "\<forall>t\<in>set W. (rt s t < clock s 0 \<longrightarrow>
        t \<in> set ((R1(?p := remove1 u (R1 ?p))) (prio_of s t)) \<or> t = g_current_task s') \<and>
        (clock s (length W) \<le> rt s t \<longrightarrow> t \<in> set (kept @ [u]))"
    proof (intro ballI conjI impI)
      fix t assume t: "t \<in> set W"
      show "t \<in> set ((R1(?p := remove1 u (R1 ?p))) (prio_of s t)) \<or> t = g_current_task s'" if "rt s t < clock s 0"
        using moved [OF early [OF t that]] o(2) by blast
      show "t \<in> set (kept @ [u])" if "clock s (length W) \<le> rt s t" using late [OF t that] by simp
    qed
    then show ?thesis using o(1) by blast
  qed
  moreover have "\<exists>s' R' W' M'. sys_nanosleep s req = Some (0, s') \<and> sched_rel s' R' (W' @ [?cur]) M' \<and>
       rt s' ?cur = clock s 0 + load_le 8 (bytes s) req * TICKS_PER_S"
    using sched_inv_nanosleep [OF inv assms(3) refl refl] sched_invD(1) by blast
  ultimately show ?thesis using rel s' by blast
qed

abbreviation demo_ksched :: ksched where
  "demo_ksched \<equiv> \<lparr>cells = \<lparr>nextp = (\<lambda>_. 0), prevp = (\<lambda>_. 0)\<rparr>,
     tcbs = (\<lambda>a. if a = 0x6000 then tcb_zero\<lparr>t_sched_priority := 5\<rparr> else tcb_zero\<lparr>t_sched_priority := 31\<rparr>),
     bytes = (\<lambda>a. 0), task_bitmap = (\<lambda>_. 0), g_lasttid = - 1, asid_bits = 8, asid_generation = 0x100,
     asid_bitmap = (\<lambda>_. 0), cur_idx = 1, b_tlb_flush = False, ttbr0_el1 = 0, tlb_flushes = 0,
     g_current_task = 0, g_readytorun = 0x10000, g_pendingtasks = 0x20000, g_priority_bitmap = (\<lambda>_. 0),
     g_priority_group = 0, clock = (\<lambda>_. 1)\<rparr>"

lemma demo_head: "unat p < 32 \<Longrightarrow> unat (ready_head demo_ksched p) = 0x10000 + 16 * unat p"
proof -
  assume p: "unat p < 32"
  have "unat (ucast p :: u64) = unat p" by (simp add: unat_ucast_up)
  then have "unat (16 * ucast p :: u64) = 16 * unat p" using p by (simp add: unat_word_ariths)
  then show ?thesis using p unfolding ready_head_def SIZEOF_SCHED_QUEUE_def by (subst unat_add_small) simp_all
qed

lemma demo_head_ne:
  "unat p < 32 \<Longrightarrow> unat w < 0x10000 \<or> 0x20000 \<le> unat w \<Longrightarrow> ready_head demo_ksched p \<noteq> w"
  using demo_head [of p] by auto

lemma demo_boot: "boot_ok demo_ksched 0x5000"
proof -
  note h = demo_head_ne
  have "heads_apart demo_ksched" unfolding heads_apart_def MAX_PRIO_32 using h by (simp add: h)
  moreover have "\<forall>p. unat p < CONFIG_MAX_TASK_PRIORITY \<longrightarrow> 0x5000 \<noteq> ready_head demo_ksched p"
    unfolding MAX_PRIO_32 using h [THEN not_sym] by simp
  ultimately show ?thesis
    by (simp add: boot_ok_def clock_ok_def task_ok_def tcb_zero_def MAX_PRIO_32 TASK_TYPE_USER_def TASK_TYPE_KERNEL_def)
qed

lemma demo_started:
  "\<exists>s. sched_init demo_ksched 0x5000 = Some s \<and> sched_frame demo_ksched s \<and>
     sched_rel s ((\<lambda>_. [])(31 := [0x5000])) [] {31} \<and> g_current_task s = 0x5000"
proof -
  have b: "heads_apart demo_ksched" "g_priority_group demo_ksched = 0" "task_ok demo_ksched 0x5000"
    "0x5000 \<noteq> g_pendingtasks demo_ksched"
    "\<And>p. unat p < CONFIG_MAX_TASK_PRIORITY \<Longrightarrow> 0x5000 \<noteq> ready_head demo_ksched p"
    using demo_boot unfolding boot_ok_def by blast+
  have "prio_of demo_ksched 0x5000 = 31" by simp
  then show ?thesis using sched_init_rel [OF b(1,2) _ b(3-5)] by fastforce
qed

theorem sched_ops_refine_witness:
  "\<exists>s s'. sched_init demo_ksched 0x5000 = Some s \<and> sched_sleep s 0x5000 = Some s' \<and>
     sched_rel s' ((\<lambda>_. [])(31 := [])) [0x5000] {}"
proof -
  obtain s where s: "sched_init demo_ksched 0x5000 = Some s" "sched_frame demo_ksched s"
    "sched_rel s ((\<lambda>_. [])(31 := [0x5000])) [] {31}" using demo_started by blast
  have p: "prio_of s 0x5000 = 31" "prio_of s 0x6000 = 5" using sched_frameD(3) [OF s(2)] by simp_all
  have t: "task_ok s 0x6000"
    unfolding sched_frameD(4) [OF s(2)] by (simp add: task_ok_def tcb_zero_def MAX_PRIO_32 TASK_TYPE_USER_def)
  have fresh: "fresh_for (qmap s ((\<lambda>_. [])(31 := [0x5000])) []) 0x6000"
    unfolding fresh_for_def
  proof (intro allI impI)
    fix q xs assume "qmap s ((\<lambda>_. [])(31 := [0x5000])) [] q = Some xs"
    then show "0x6000 \<notin> set (q # xs)"
      unfolding sched_frameD(1) [OF s(2)] using demo_head_ne [of _ "0x6000"] by (auto simp: MAX_PRIO_32 dest!: qmap_heads)
  qed
  have q: "queued s ((\<lambda>_. [])(31 := [0x5000])) [] 0x5000" by (simp add: queued_def p)
  from sched_ops_refine [OF s(3) t fresh q] s(1) show ?thesis by (auto simp: p Let_def unmarked_def)
qed

theorem schedule_refines_witness:
  "\<exists>s s'. sched_init demo_ksched 0x5000 = Some s \<and> schedule s = Some s' \<and> sched_rel s' ((\<lambda>_. [])(31 := [0x5000])) [] {31}"
proof -
  obtain s where s: "sched_init demo_ksched 0x5000 = Some s" "sched_frame demo_ksched s"
    "sched_rel s ((\<lambda>_. [])(31 := [0x5000])) [] {31}" "g_current_task s = 0x5000"
    using demo_started by blast
  have "woken_ready s ((\<lambda>_. [])(31 := [0x5000])) [] = (\<lambda>_. [])(31 := [0x5000])" by (simp add: woken_ready_def fun_eq_iff)
  then show ?thesis
    using schedule_refines [OF s(3)] s(1,4) by (auto simp: Let_def top_priority_def)
qed

theorem schedule_picks_highest_witness:
  "\<exists>s s'. sched_init demo_ksched 0x5000 = Some s \<and> schedule s = Some s'"
proof -
  obtain s where s: "sched_init demo_ksched 0x5000 = Some s" using demo_started by blast
  then have "kernel_run demo_ksched 0x5000 s" by (rule run_init)
  from schedule_picks_highest [OF demo_boot this] s show ?thesis by blast
qed

theorem sleepers_wake_in_time_witness:
  "\<exists>s s'. sched_init demo_ksched 0x5000 = Some s \<and> sys_nanosleep s 0x30 = Some (0, s')"
proof -
  obtain s where s: "sched_init demo_ksched 0x5000 = Some s" using demo_started by blast
  then have run: "kernel_run demo_ksched 0x5000 s" by (rule run_init)
  have b: "bytes s = (\<lambda>a. 0)"
    using s by (auto simp: sched_init_def sched_attach_def set_state_def upd_tcb_def mark_priority_def Let_def k_assert_def split: if_splits)
  have "load_le 8 (\<lambda>a. 0) 0x30 = 0" by code_simp
  then have "timespec_ok s 0x30" by (simp add: timespec_ok_def b)
  from sleepers_wake_in_time [OF demo_boot run this] s show ?thesis by blast
qed

text \<open>
  A task that runs alone on its priority stands in the waiting queue, and its ready queue is
  empty; \<^verbatim>\<open>sched_detach\<close> then leaves it there, and the next \<^verbatim>\<open>schedule\<close> makes it ready again.
\<close>

lemma detached_task_still_queued:
  assumes "sched_rel s R W M" "t \<in> set W" "R (prio_of s t) = []"
  shows "\<exists>s'. sched_detach s t = Some s' \<and> sched_rel s' R W (M - {prio_of s t})"
  using sched_detach_rel [OF assms(1) _ refl, of t] assms(2,3) by (auto simp: queued_def)

end
