(* ===== verification/K_Pagetable.thy ===== *)
theory K_Pagetable
  imports K_Task K_Gran
begin

text \<open>
  The page tables, \<^verbatim>\<open>os/arch/arm64/pagetable.c\<close> with the descriptor formats of
  \<^verbatim>\<open>asm/pgtable-hwdef.h\<close> and \<^verbatim>\<open>asm/pgtable-prot.h\<close>, for the configured 4 KiB pages, 39-bit
  addresses and three levels.

  The memory that holds tables is a map from the (kernel virtual) addresses of 64-bit words to
  words.  \<open>pt_map\<close> and \<open>idmap_pt_map\<close> are the same algorithm; they differ in how the address of a
  table is put into a descriptor and taken out of it, which is an argument of the shared
  definitions.  The table allocator is an argument as in the code.  The loops are partial
  functions, \<open>None\<close> when they do not end or when an assertion fails.

  \<open>xl\<close> is the translation the hardware makes from the tables, by page number.  The main result
  is that mapping a range changes the translation exactly on the range.
\<close>

section \<open>Descriptors\<close>

definition PAGE_SHIFT :: nat where "PAGE_SHIFT = 12"
definition PAGE_SIZE :: u64 where "PAGE_SIZE = push_bit PAGE_SHIFT 1"
definition PAGE_MASK :: u64 where "PAGE_MASK = NOT (PAGE_SIZE - 1)"
definition VA_BITS :: nat where "VA_BITS = 39"
definition CONFIG_PGTABLE_LEVELS :: nat where "CONFIG_PGTABLE_LEVELS = 3"

definition ARM64_HW_PGTABLE_LEVEL_SHIFT :: "nat \<Rightarrow> nat" where
  "ARM64_HW_PGTABLE_LEVEL_SHIFT n = (PAGE_SHIFT - 3) * (4 - n) + 3"

definition PTRS_PER_PTE :: u64 where "PTRS_PER_PTE = push_bit (PAGE_SHIFT - 3) 1"
definition PMD_SHIFT :: nat where "PMD_SHIFT = ARM64_HW_PGTABLE_LEVEL_SHIFT 2"
definition PMD_SIZE :: u64 where "PMD_SIZE = push_bit PMD_SHIFT 1"
definition PMD_MASK :: u64 where "PMD_MASK = NOT (PMD_SIZE - 1)"
definition PTRS_PER_PMD :: u64 where "PTRS_PER_PMD = PTRS_PER_PTE"
definition PGDIR_SHIFT :: nat where "PGDIR_SHIFT = ARM64_HW_PGTABLE_LEVEL_SHIFT (4 - CONFIG_PGTABLE_LEVELS)"
definition PGDIR_SIZE :: u64 where "PGDIR_SIZE = push_bit PGDIR_SHIFT 1"
definition PGDIR_MASK :: u64 where "PGDIR_MASK = NOT (PGDIR_SIZE - 1)"
definition PTRS_PER_PGD :: u64 where "PTRS_PER_PGD = push_bit (VA_BITS - PGDIR_SHIFT) 1"
definition SECTION_SHIFT :: nat where "SECTION_SHIFT = PMD_SHIFT"
definition SECTION_SIZE :: u64 where "SECTION_SIZE = push_bit SECTION_SHIFT 1"
definition SECTION_MASK :: u64 where "SECTION_MASK = NOT (SECTION_SIZE - 1)"

definition PMD_TYPE_TABLE :: u64 where "PMD_TYPE_TABLE = 3"
definition PMD_TYPE_SECT :: u64 where "PMD_TYPE_SECT = 1"
definition PMD_SECT_S :: u64 where "PMD_SECT_S = push_bit 8 3"
definition PMD_SECT_AF :: u64 where "PMD_SECT_AF = push_bit 10 1"
definition PMD_SECT_NG :: u64 where "PMD_SECT_NG = push_bit 11 1"
definition PMD_SECT_PXN :: u64 where "PMD_SECT_PXN = push_bit 53 1"
definition PMD_SECT_UXN :: u64 where "PMD_SECT_UXN = push_bit 54 1"
definition PMD_ATTRINDX :: "u64 \<Rightarrow> u64" where "PMD_ATTRINDX t = push_bit 2 t"
definition PTE_TYPE_PAGE :: u64 where "PTE_TYPE_PAGE = 3"
definition PTE_TABLE_BIT :: u64 where "PTE_TABLE_BIT = push_bit 1 1"
definition PTE_USER :: u64 where "PTE_USER = push_bit 6 1"
definition PTE_RDONLY :: u64 where "PTE_RDONLY = push_bit 7 1"
definition PTE_SHARED :: u64 where "PTE_SHARED = push_bit 8 3"
definition PTE_AF :: u64 where "PTE_AF = push_bit 10 1"
definition PTE_NG :: u64 where "PTE_NG = push_bit 11 1"
definition PTE_DBM :: u64 where "PTE_DBM = push_bit 51 1"
definition PTE_PXN :: u64 where "PTE_PXN = push_bit 53 1"
definition PTE_UXN :: u64 where "PTE_UXN = push_bit 54 1"
definition PTE_ADDR_MASK :: u64 where "PTE_ADDR_MASK = NOT (push_bit PAGE_SHIFT 1 - 1)"
definition PTE_ATTRINDX :: "u64 \<Rightarrow> u64" where "PTE_ATTRINDX t = push_bit 2 t"

definition MT_DEVICE_nGnRE :: u64 where "MT_DEVICE_nGnRE = 1"
definition MT_NORMAL :: u64 where "MT_NORMAL = 4"

definition PTE_WRITE :: u64 where "PTE_WRITE = PTE_DBM"
definition PROT_DEFAULT :: u64 where "PROT_DEFAULT = (PTE_TYPE_PAGE OR PTE_AF OR PTE_SHARED) OR PTE_NG"
definition PROT_SECT_DEFAULT :: u64 where
  "PROT_SECT_DEFAULT = (PMD_TYPE_SECT OR PMD_SECT_AF OR PMD_SECT_S) OR PMD_SECT_NG"
definition PROT_NORMAL :: u64 where
  "PROT_NORMAL = PROT_DEFAULT OR PTE_PXN OR PTE_UXN OR PTE_WRITE OR PTE_ATTRINDX MT_NORMAL"
definition PROT_SECT_DEVICE_nGnRE :: u64 where
  "PROT_SECT_DEVICE_nGnRE = PROT_SECT_DEFAULT OR PMD_SECT_PXN OR PMD_SECT_UXN OR PMD_ATTRINDX MT_DEVICE_nGnRE"
definition PAGE_KERNEL :: u64 where "PAGE_KERNEL = PROT_NORMAL"
definition PAGE_KERNEL_RO :: u64 where
  "PAGE_KERNEL_RO = (PROT_NORMAL AND NOT PTE_WRITE) OR PTE_RDONLY"
definition PAGE_KERNEL_ROX :: u64 where
  "PAGE_KERNEL_ROX = (PROT_NORMAL AND NOT (PTE_WRITE OR PTE_PXN)) OR PTE_RDONLY"

definition pbase_to_vbase :: "u64 \<Rightarrow> u64" where
  "pbase_to_vbase pbase = pbase - RAM_PBASE + RAM_VBASE"

section \<open>Mapping\<close>

type_synonym tmem = "u64 \<Rightarrow> u64"

record 'h pts =
  words :: tmem
  heap :: 'h

type_synonym 'h pt_alloc_fn = "u64 \<Rightarrow> 'h pts \<Rightarrow> (u64 \<times> 'h pts) option"

text \<open>
  The first half of \<^verbatim>\<open>pte_map\<close> and \<^verbatim>\<open>pmd_map\<close>: the table that the descriptor at \<open>slot\<close> points to,
  a new one when the descriptor is zero.
\<close>

definition next_table ::
  "(u64 \<Rightarrow> u64) \<Rightarrow> (u64 \<Rightarrow> u64) \<Rightarrow> 'h pt_alloc_fn \<Rightarrow> 'h pts \<Rightarrow> u64 \<Rightarrow> (u64 \<times> 'h pts) option" where
  "next_table to_p of_p pt_alloc st slot =
     (if words st slot = 0 then do {
        (tbl, st) \<leftarrow> pt_alloc PAGE_SIZE st;
        k_assert (tbl \<noteq> 0);
        Some (tbl, st\<lparr>words := (words st)(slot := to_p (tbl OR PMD_TYPE_TABLE))\<rparr>)
      } else Some (of_p (words st slot AND PTE_ADDR_MASK), st))"

definition next_addr :: "u64 \<Rightarrow> u64 \<Rightarrow> u64 \<Rightarrow> u64 \<Rightarrow> u64" where
  "next_addr step msk next fin = (let next = (next + step) AND msk in if next < fin then next else fin)"

partial_function (option) pte_loop :: "tmem \<Rightarrow> u64 \<Rightarrow> u64 \<Rightarrow> u64 \<Rightarrow> u64 \<Rightarrow> u64 \<Rightarrow> tmem option" where
  "pte_loop w pte vaddr fin paddr attr =
     (if vaddr \<noteq> fin then
        let next = next_addr PAGE_SIZE PAGE_MASK vaddr fin
        in pte_loop (w(pte := push_bit PAGE_SHIFT (drop_bit PAGE_SHIFT paddr) OR PTE_TYPE_PAGE OR attr))
             (pte + 8) next fin (paddr + (next - vaddr)) attr
      else Some w)"

definition gen_pte_map ::
  "(u64 \<Rightarrow> u64) \<Rightarrow> (u64 \<Rightarrow> u64) \<Rightarrow> 'h pt_alloc_fn \<Rightarrow> 'h pts \<Rightarrow> u64 \<Rightarrow> u64 \<Rightarrow> u64 \<Rightarrow> u64 \<Rightarrow> u64 \<Rightarrow> 'h pts option" where
  "gen_pte_map to_p of_p pt_alloc st pmd_p vaddr fin paddr attr = do {
     (pte, st) \<leftarrow> next_table to_p of_p pt_alloc st pmd_p;
     let idx = (drop_bit PAGE_SHIFT vaddr AND (PTRS_PER_PTE - 1));
     w \<leftarrow> pte_loop (words st) (pte + 8 * idx) vaddr fin paddr attr;
     Some (st\<lparr>words := w\<rparr>)
   }"

definition pmd_step ::
  "(u64 \<Rightarrow> u64) \<Rightarrow> (u64 \<Rightarrow> u64) \<Rightarrow> 'h pt_alloc_fn \<Rightarrow> 'h pts \<Rightarrow> u64 \<Rightarrow> u64 \<Rightarrow> u64 \<Rightarrow> u64 \<Rightarrow> u64 \<Rightarrow> 'h pts option" where
  "pmd_step to_p of_p pt_alloc st pmd vaddr next paddr attr =
     (if (vaddr OR next OR paddr) AND NOT SECTION_MASK \<noteq> 0
      then gen_pte_map to_p of_p pt_alloc st pmd vaddr next paddr attr
      else Some (st\<lparr>words := (words st)(pmd :=
             push_bit PMD_SHIFT (drop_bit PMD_SHIFT paddr) OR PMD_TYPE_SECT OR (attr AND NOT PTE_TABLE_BIT))\<rparr>))"

partial_function (option) pmd_loop ::
  "(u64 \<Rightarrow> u64) \<Rightarrow> (u64 \<Rightarrow> u64) \<Rightarrow> 'h pt_alloc_fn \<Rightarrow> 'h pts \<Rightarrow> u64 \<Rightarrow> u64 \<Rightarrow> u64 \<Rightarrow> u64 \<Rightarrow> u64 \<Rightarrow> 'h pts option" where
  "pmd_loop to_p of_p pt_alloc st pmd vaddr fin paddr attr =
     (if vaddr \<noteq> fin then
        let next = next_addr PMD_SIZE PMD_MASK vaddr fin
        in do {
          st \<leftarrow> pmd_step to_p of_p pt_alloc st pmd vaddr next paddr attr;
          pmd_loop to_p of_p pt_alloc st (pmd + 8) next fin (paddr + (next - vaddr)) attr
        }
      else Some st)"

definition gen_pmd_map ::
  "(u64 \<Rightarrow> u64) \<Rightarrow> (u64 \<Rightarrow> u64) \<Rightarrow> 'h pt_alloc_fn \<Rightarrow> 'h pts \<Rightarrow> u64 \<Rightarrow> u64 \<Rightarrow> u64 \<Rightarrow> u64 \<Rightarrow> u64 \<Rightarrow> 'h pts option" where
  "gen_pmd_map to_p of_p pt_alloc st pud_p vaddr fin paddr attr = do {
     (pmd, st) \<leftarrow> next_table to_p of_p pt_alloc st pud_p;
     let idx = (drop_bit PMD_SHIFT vaddr AND (PTRS_PER_PMD - 1));
     pmd_loop to_p of_p pt_alloc st (pmd + 8 * idx) vaddr fin paddr attr
   }"

partial_function (option) pgd_loop ::
  "(u64 \<Rightarrow> u64) \<Rightarrow> (u64 \<Rightarrow> u64) \<Rightarrow> 'h pt_alloc_fn \<Rightarrow> 'h pts \<Rightarrow> u64 \<Rightarrow> u64 \<Rightarrow> u64 \<Rightarrow> u64 \<Rightarrow> u64 \<Rightarrow> 'h pts option" where
  "pgd_loop to_p of_p pt_alloc st pgd vaddr fin paddr attr =
     (if vaddr \<noteq> fin then
        let next = next_addr PGDIR_SIZE PGDIR_MASK vaddr fin
        in do {
          st \<leftarrow> gen_pmd_map to_p of_p pt_alloc st pgd vaddr next paddr attr;
          pgd_loop to_p of_p pt_alloc st (pgd + 8) next fin (paddr + (next - vaddr)) attr
        }
      else Some st)"

definition gen_pt_map ::
  "(u64 \<Rightarrow> u64) \<Rightarrow> (u64 \<Rightarrow> u64) \<Rightarrow> 'h pt_alloc_fn \<Rightarrow> 'h pts \<Rightarrow> u64 \<Rightarrow> u64 \<Rightarrow> u64 \<Rightarrow> u64 \<Rightarrow> u64 \<Rightarrow> 'h pts option" where
  "gen_pt_map to_p of_p pt_alloc st pgd_p vaddr paddr sz attr = do {
     k_assert (pgd_p \<noteq> 0);
     k_assert (vaddr AND bitmask PAGE_SHIFT = 0);
     k_assert (paddr AND bitmask PAGE_SHIFT = 0);
     k_assert (sz \<noteq> 0);
     k_assert (sz \<le> k_bit VA_BITS);
     let idx = (drop_bit PGDIR_SHIFT vaddr AND (PTRS_PER_PGD - 1));
     let fin = ALIGN (vaddr + sz) PAGE_SIZE;
     pgd_loop to_p of_p pt_alloc st (pgd_p + 8 * idx) vaddr fin paddr attr
   }"

text \<open>The kernel's own tables, and the identity-mapped tables of the boot code.\<close>

definition pte_map :: "'h pt_alloc_fn \<Rightarrow> 'h pts \<Rightarrow> u64 \<Rightarrow> u64 \<Rightarrow> u64 \<Rightarrow> u64 \<Rightarrow> u64 \<Rightarrow> 'h pts option" where
  "pte_map = gen_pte_map vbase_to_pbase pbase_to_vbase"

definition pmd_map :: "'h pt_alloc_fn \<Rightarrow> 'h pts \<Rightarrow> u64 \<Rightarrow> u64 \<Rightarrow> u64 \<Rightarrow> u64 \<Rightarrow> u64 \<Rightarrow> 'h pts option" where
  "pmd_map = gen_pmd_map vbase_to_pbase pbase_to_vbase"

definition pt_map :: "'h pt_alloc_fn \<Rightarrow> 'h pts \<Rightarrow> u64 \<Rightarrow> u64 \<Rightarrow> u64 \<Rightarrow> u64 \<Rightarrow> u64 \<Rightarrow> 'h pts option" where
  "pt_map = gen_pt_map vbase_to_pbase pbase_to_vbase"

definition idmap_pte_map :: "'h pt_alloc_fn \<Rightarrow> 'h pts \<Rightarrow> u64 \<Rightarrow> u64 \<Rightarrow> u64 \<Rightarrow> u64 \<Rightarrow> u64 \<Rightarrow> 'h pts option" where
  "idmap_pte_map = gen_pte_map (\<lambda>x. x) (\<lambda>x. x)"

definition idmap_pmd_map :: "'h pt_alloc_fn \<Rightarrow> 'h pts \<Rightarrow> u64 \<Rightarrow> u64 \<Rightarrow> u64 \<Rightarrow> u64 \<Rightarrow> u64 \<Rightarrow> 'h pts option" where
  "idmap_pmd_map = gen_pmd_map (\<lambda>x. x) (\<lambda>x. x)"

definition idmap_pt_map :: "'h pt_alloc_fn \<Rightarrow> 'h pts \<Rightarrow> u64 \<Rightarrow> u64 \<Rightarrow> u64 \<Rightarrow> u64 \<Rightarrow> u64 \<Rightarrow> 'h pts option" where
  "idmap_pt_map = gen_pt_map (\<lambda>x. x) (\<lambda>x. x)"

section \<open>Addresses and slots\<close>

lemma pg_values:
  "PAGE_SHIFT = 12" "PAGE_SIZE = 0x1000" "PAGE_MASK = NOT (mask 12)" "PMD_SHIFT = 21" "PMD_SIZE = 0x200000"
  "PMD_MASK = NOT (mask 21)" "PGDIR_SHIFT = 30" "PGDIR_SIZE = 0x40000000" "PGDIR_MASK = NOT (mask 30)"
  "PTRS_PER_PTE - 1 = mask 9" "PTRS_PER_PMD - 1 = mask 9" "PTRS_PER_PGD - 1 = mask 9"
  "NOT SECTION_MASK = mask 21" "PTE_ADDR_MASK = NOT (mask 12)"
  by (simp_all add: PAGE_SHIFT_def PAGE_SIZE_def PAGE_MASK_def PMD_SHIFT_def PMD_SIZE_def PMD_MASK_def PGDIR_SHIFT_def
      PGDIR_SIZE_def PGDIR_MASK_def PTRS_PER_PTE_def PTRS_PER_PMD_def PTRS_PER_PGD_def SECTION_MASK_def
      SECTION_SIZE_def SECTION_SHIFT_def PTE_ADDR_MASK_def ARM64_HW_PGTABLE_LEVEL_SHIFT_def
      CONFIG_PGTABLE_LEVELS_def VA_BITS_def mask_eq_exp_minus_1)

definition slot :: "u64 \<Rightarrow> nat \<Rightarrow> u64" where
  "slot p j = p + 8 * word_of_nat j"

definition page_aligned :: "u64 \<Rightarrow> bool" where
  "page_aligned p \<longleftrightarrow> 4096 dvd unat p"

lemma unat_times_8: "k < 2 ^ 61 \<Longrightarrow> unat (8 * word_of_nat k :: u64) = 8 * k"
proof -
  assume "k < 2 ^ 61"
  then have "unat (word_of_nat (8 * k) :: u64) = 8 * k" by (intro unat_of_nat_small) simp
  then show ?thesis by simp
qed

lemma unat_slot:
  assumes "page_aligned p" "j < 512"
  shows "unat (slot p j) = unat p + 8 * j"
proof -
  have j: "unat (8 * word_of_nat j :: u64) = 8 * j" using assms(2) by (intro unat_times_8) simp
  obtain c where c: "unat p = 4096 * c" using assms(1) by (auto simp: page_aligned_def)
  have "4096 * c < 4096 * 2 ^ 52" using unat_u64_bound [of p] c by simp
  then have "c + 1 \<le> 2 ^ 52" by simp
  then have "unat p + 8 * j < 2 ^ 64" using c assms(2) by simp
  then show ?thesis unfolding slot_def using j by (subst unat_add_small) simp_all
qed

lemma slot_eq_iff:
  assumes "page_aligned p" "page_aligned q" "j < 512" "k < 512"
  shows "slot p j = slot q k \<longleftrightarrow> p = q \<and> j = k"
proof
  assume "slot p j = slot q k"
  then have eq: "unat p + 8 * j = unat q + 8 * k" using unat_slot assms by metis
  from assms(1,2) obtain c d where cd: "unat p = 4096 * c" "unat q = 4096 * d" unfolding page_aligned_def dvd_def by blast
  have "(4096 * c + 8 * j) div 4096 = c" "(4096 * d + 8 * k) div 4096 = d" using assms(3,4) by simp_all
  then have "c = d" using eq cd by metis
  then show "p = q \<and> j = k" using eq cd by (simp add: word_unat_eq_iff)
qed simp

lemma page_aligned_and: "page_aligned p \<longleftrightarrow> p AND mask 12 = 0"
proof -
  have "unat (p AND mask 12) = unat p mod 4096" by (subst unat_and_mask) simp_all
  then show ?thesis by (metis dvd_eq_mod_eq_0 page_aligned_def unsigned_eq_0_iff)
qed

lemma unat_next_addr:
  assumes "s < 64" "unat v + 2 ^ s < 2 ^ 64"
  shows "unat (next_addr (2 ^ s) (NOT (mask s)) v fin) = min ((unat v div 2 ^ s + 1) * 2 ^ s) (unat fin)"
proof -
  have "(2 :: nat) ^ s < 2 ^ 64" using assms(1) by (rule power_strict_increasing) simp
  then have "unat (2 ^ s :: u64) = 2 ^ s" using unat_of_nat_small [of "2 ^ s", where 'a = 64] by simp
  then have "unat (v + 2 ^ s) = unat v + 2 ^ s" using assms(2) by (subst unat_add_small) simp_all
  then have "unat ((v + 2 ^ s) AND NOT (mask s)) = (unat v div 2 ^ s + 1) * 2 ^ s"
    using assms(1) by (simp add: unat_and_not_mask div_add_self2)
  then show ?thesis by (auto simp: next_addr_def Let_def word_less_nat_alt min_def)
qed

section \<open>Runs of descriptors\<close>

fun put_run :: "tmem \<Rightarrow> u64 \<Rightarrow> nat \<Rightarrow> (nat \<Rightarrow> u64) \<Rightarrow> tmem" where
  "put_run w p 0 f = w"
| "put_run w p (Suc n) f = put_run (w(p := f 0)) (p + 8) n (\<lambda>m. f (Suc m))"

lemma put_run_outside: "(\<And>m. m < n \<Longrightarrow> a \<noteq> p + 8 * word_of_nat m) \<Longrightarrow> put_run w p n f a = w a"
proof (induction n arbitrary: w p f)
  case (Suc n)
  have "a \<noteq> p + 8 + 8 * word_of_nat m" if "m < n" for m
    using Suc.prems [of "Suc m"] that by (simp add: algebra_simps)
  then have "put_run (w(p := f 0)) (p + 8) n (\<lambda>m. f (Suc m)) a = (w(p := f 0)) a" by (rule Suc.IH)
  moreover have "a \<noteq> p" using Suc.prems [of 0] by simp
  ultimately show ?case by simp
qed simp

lemma put_run_inside:
  "n \<le> 2 ^ 60 \<Longrightarrow> m < n \<Longrightarrow> put_run w p n f (p + 8 * word_of_nat m) = f m"
proof (induction n arbitrary: w p f m)
  case (Suc n)
  show ?case
  proof (cases m)
    case 0
    have ne: "p \<noteq> p + 8 + 8 * word_of_nat i" if "i < n" for i
    proof
      assume "p = p + 8 + 8 * word_of_nat i"
      then have "8 * word_of_nat (Suc i) = (0 :: u64)" by (simp add: algebra_simps)
      moreover have "unat (8 * word_of_nat (Suc i) :: u64) = 8 * Suc i"
        using that Suc.prems(1) by (intro unat_times_8) simp
      ultimately show False by (simp only: unsigned_0) simp
    qed
    show ?thesis using 0 put_run_outside [of n p "p + 8" "w(p := f 0)" "\<lambda>m. f (Suc m)", OF ne] by simp
  next
    case (Suc m')
    then have eq: "p + 8 * word_of_nat m = p + 8 + 8 * word_of_nat m'" by (simp add: algebra_simps)
    have "put_run (w(p := f 0)) (p + 8) n (\<lambda>m. f (Suc m)) (p + 8 + 8 * word_of_nat m') = f (Suc m')"
      using Suc Suc.prems by (intro Suc.IH) simp_all
    then show ?thesis unfolding eq put_run.simps using Suc by (simp only:)
  qed
qed simp

definition page_desc :: "u64 \<Rightarrow> u64 \<Rightarrow> u64" where
  "page_desc pa attr = push_bit PAGE_SHIFT (drop_bit PAGE_SHIFT pa) OR PTE_TYPE_PAGE OR attr"

lemma pte_loop_run:
  assumes "page_aligned v" "unat v + 4096 * n < 2 ^ 64" "unat fin = unat v + 4096 * n"
  shows "pte_loop w pte v fin pa attr = Some (put_run w pte n (\<lambda>m. page_desc (pa + 4096 * word_of_nat m) attr))"
  using assms
proof (induction n arbitrary: w pte v pa)
  case 0
  then have "v = fin" by (simp add: word_unat_eq_iff)
  then show ?case by (subst pte_loop.simps) simp
next
  case (Suc n)
  have ne: "v \<noteq> fin" using Suc.prems(3) by auto
  let ?next = "next_addr PAGE_SIZE PAGE_MASK v fin"
  obtain c where c: "unat v = 4096 * c" using Suc.prems(1) by (auto simp: page_aligned_def)
  have "unat ?next = min ((unat v div 2 ^ 12 + 1) * 2 ^ 12) (unat fin)"
    using Suc.prems(2) unat_next_addr [of 12 v fin] by (simp add: pg_values)
  then have un: "unat ?next = unat v + 4096" using Suc.prems(3) c by simp
  have "unat (v + 0x1000) = unat v + 4096" using Suc.prems(2) by (subst unat_add_small) simp_all
  with un have nx: "?next = v + 0x1000" by (simp only: word_unat_eq_iff)
  have al: "page_aligned ?next" using un c by (simp add: page_aligned_def)
  have run: "pte_loop (w(pte := page_desc pa attr)) (pte + 8) ?next fin (pa + 0x1000) attr =
      Some (put_run (w(pte := page_desc pa attr)) (pte + 8) n (\<lambda>m. page_desc (pa + 0x1000 + 4096 * word_of_nat m) attr))"
    using Suc.prems(2,3) un by (intro Suc.IH [OF al]) simp_all
  have "(\<lambda>m. page_desc (pa + 0x1000 + 4096 * word_of_nat m) attr) = (\<lambda>m. page_desc (pa + 4096 * word_of_nat (Suc m)) attr)"
    by (simp add: algebra_simps)
  with run show ?case using ne by (subst pte_loop.simps) (simp add: Let_def nx page_desc_def [symmetric])
qed

section \<open>The tables in memory\<close>

datatype node = Root | Mid nat | Leaf nat nat

definition mid_of :: "(u64 \<Rightarrow> u64) \<Rightarrow> tmem \<Rightarrow> u64 \<Rightarrow> nat \<Rightarrow> u64 option" where
  "mid_of of_p w P i = (let e = w (slot P i) in if i < 512 \<and> e \<noteq> 0 then Some (of_p (e AND NOT (mask 12))) else None)"

definition leaf_of :: "(u64 \<Rightarrow> u64) \<Rightarrow> tmem \<Rightarrow> u64 \<Rightarrow> nat \<Rightarrow> nat \<Rightarrow> u64 option" where
  "leaf_of of_p w P i j =
     (case mid_of of_p w P i of None \<Rightarrow> None
      | Some p \<Rightarrow> let e = w (slot p j) in if j < 512 \<and> e AND 3 = 3 then Some (of_p (e AND NOT (mask 12))) else None)"

definition page_of :: "(u64 \<Rightarrow> u64) \<Rightarrow> tmem \<Rightarrow> u64 \<Rightarrow> node \<Rightarrow> u64 option" where
  "page_of of_p w P nd =
     (case nd of Root \<Rightarrow> Some P | Mid i \<Rightarrow> mid_of of_p w P i | Leaf i j \<Rightarrow> leaf_of of_p w P i j)"

lemma page_of_simps [simp]:
  "page_of of_p w P Root = Some P" "page_of of_p w P (Mid i) = mid_of of_p w P i"
  "page_of of_p w P (Leaf i j) = leaf_of of_p w P i j"
  by (simp_all add: page_of_def)

text \<open>
  The translation made by the hardware, for a page number: block descriptors end the walk at
  the first two levels, bits 12 to 47 of a table or page descriptor are the address.
\<close>

definition PA_MASK :: u64 where "PA_MASK = mask 48 AND NOT (mask 12)"
definition ATTRS :: u64 where "ATTRS = NOT PA_MASK AND NOT 3"

definition pte_xl :: "u64 \<Rightarrow> (u64 \<times> u64) option" where
  "pte_xl e = (if e AND 3 = 3 then Some (e AND PA_MASK, e AND ATTRS) else None)"

definition xl :: "(u64 \<Rightarrow> u64) \<Rightarrow> tmem \<Rightarrow> u64 \<Rightarrow> nat \<Rightarrow> (u64 \<times> u64) option" where
  "xl of_p w P n =
     (let e1 = w (slot P (n div 512 div 512)) in
      if e1 AND 1 = 0 then None
      else if e1 AND 2 = 0 then Some ((e1 AND mask 48 AND NOT (mask 30)) + 4096 * word_of_nat (n mod 2 ^ 18), e1 AND ATTRS)
      else let e2 = w (slot (of_p (e1 AND PA_MASK)) (n div 512 mod 512)) in
        if e2 AND 1 = 0 then None
        else if e2 AND 2 = 0 then Some ((e2 AND mask 48 AND NOT (mask 21)) + 4096 * word_of_nat (n mod 512), e2 AND ATTRS)
        else pte_xl (w (slot (of_p (e2 AND PA_MASK)) (n mod 512))))"

definition sect_xl :: "u64 \<Rightarrow> nat \<Rightarrow> (u64 \<times> u64) option" where
  "sect_xl e k = (if e AND 3 = 1 then Some ((e AND mask 48 AND NOT (mask 21)) + 4096 * word_of_nat k, e AND ATTRS) else None)"

lemma and3_cases:
  fixes e :: u64
  shows "(e AND 3 = 1 \<longleftrightarrow> e AND 1 \<noteq> 0 \<and> e AND 2 = 0) \<and> (e AND 3 = 3 \<longleftrightarrow> e AND 1 \<noteq> 0 \<and> e AND 2 \<noteq> 0)"
proof -
  have b1: "e AND 1 = (e AND 3) AND 1" "e AND 2 = (e AND 3) AND 2" by (simp_all add: and.assoc)
  have "e AND 3 = e AND mask 2" by (simp add: mask_eq_exp_minus_1)
  then have "unat (e AND 3) < 4" by (simp add: unat_and_mask)
  then have "unat (e AND 3) = 0 \<or> unat (e AND 3) = 1 \<or> unat (e AND 3) = 2 \<or> unat (e AND 3) = 3" by linarith
  then have "e AND 3 = 0 \<or> e AND 3 = 1 \<or> e AND 3 = 2 \<or> e AND 3 = 3" by (simp add: word_unat_eq_iff)
  then show ?thesis unfolding b1 by (elim disjE) simp_all
qed

definition same_tables :: "(u64 \<Rightarrow> u64) \<Rightarrow> tmem \<Rightarrow> tmem \<Rightarrow> u64 \<Rightarrow> bool" where
  "same_tables of_p w w' P \<longleftrightarrow> (\<forall>a p j. page_of of_p w P a = Some p \<longrightarrow> j < 512 \<longrightarrow> w' (slot p j) = w (slot p j))"

lemma same_tablesD:
  "same_tables of_p w w' P \<Longrightarrow> page_of of_p w P a = Some p \<Longrightarrow> j < 512 \<Longrightarrow> w' (slot p j) = w (slot p j)"
  unfolding same_tables_def by blast

text \<open>What a table address in a descriptor must satisfy, and well-formed tables.\<close>

locale table_pages =
  fixes to_p of_p :: "u64 \<Rightarrow> u64" and page_ok :: "u64 \<Rightarrow> bool"
  assumes ok_page: "page_ok q \<Longrightarrow> page_aligned q \<and> q \<noteq> 0"
    and desc_bits: "page_ok q \<Longrightarrow> to_p (q OR PMD_TYPE_TABLE) AND mask 12 = 3 \<and> unat (to_p (q OR PMD_TYPE_TABLE)) < 2 ^ 48"
    and desc_back: "page_ok q \<Longrightarrow> of_p (to_p (q OR PMD_TYPE_TABLE) AND NOT (mask 12)) = q"

definition pt_wf :: "(u64 \<Rightarrow> u64) \<Rightarrow> (u64 \<Rightarrow> u64) \<Rightarrow> (u64 \<Rightarrow> bool) \<Rightarrow> tmem \<Rightarrow> u64 \<Rightarrow> u64 set \<Rightarrow> bool" where
  "pt_wf to_p of_p page_ok w P F \<longleftrightarrow> page_aligned P \<and> P \<notin> F \<and>
     (\<forall>a b p. page_of of_p w P a = Some p \<longrightarrow> page_of of_p w P b = Some p \<longrightarrow> a = b) \<and>
     (\<forall>a p. page_of of_p w P a = Some p \<longrightarrow> a \<noteq> Root \<longrightarrow> page_ok p \<and> p \<notin> F) \<and>
     (\<forall>i p. mid_of of_p w P i = Some p \<longrightarrow> w (slot P i) = to_p (p OR PMD_TYPE_TABLE)) \<and>
     (\<forall>i j p q. mid_of of_p w P i = Some p \<longrightarrow> leaf_of of_p w P i j = Some q \<longrightarrow> w (slot p j) = to_p (q OR PMD_TYPE_TABLE)) \<and>
     (\<forall>i j p. mid_of of_p w P i = Some p \<longrightarrow> j < 512 \<longrightarrow> w (slot p j) = 0 \<or> w (slot p j) AND 1 \<noteq> 0)"

context table_pages
begin

lemma desc_low:
  assumes "page_ok q"
  shows "to_p (q OR PMD_TYPE_TABLE) AND 3 = 3" "to_p (q OR PMD_TYPE_TABLE) AND 1 \<noteq> 0"
    "to_p (q OR PMD_TYPE_TABLE) AND 2 \<noteq> 0" "to_p (q OR PMD_TYPE_TABLE) \<noteq> 0"
    "to_p (q OR PMD_TYPE_TABLE) AND PA_MASK = to_p (q OR PMD_TYPE_TABLE) AND NOT (mask 12)"
proof -
  let ?e = "to_p (q OR PMD_TYPE_TABLE)"
  have "?e AND 3 = (?e AND mask 12) AND 3" by (simp add: and.assoc mask_eq_exp_minus_1)
  then show e3: "?e AND 3 = 3" using desc_bits [OF assms] by simp
  have "?e AND 1 = (?e AND 3) AND 1" "?e AND 2 = (?e AND 3) AND 2" by (simp_all add: and.assoc)
  then show "?e AND 1 \<noteq> 0" "?e AND 2 \<noteq> 0" unfolding e3 by simp_all
  then show "?e \<noteq> 0" by auto
  have hi: "n < 48" if "bit ?e n" for n
    using not_bit_small [of ?e 48 n] desc_bits [OF assms] that by (cases "n < 48") auto
  show "?e AND PA_MASK = ?e AND NOT (mask 12)"
    by (intro bit_eqI) (auto simp: PA_MASK_def bit_simps dest: hi)
qed

lemma wfD:
  assumes "pt_wf to_p of_p page_ok w P F"
  shows "page_aligned P" "P \<notin> F"
    "page_of of_p w P a = Some p \<Longrightarrow> page_of of_p w P b = Some p \<Longrightarrow> a = b"
    "page_of of_p w P a = Some p \<Longrightarrow> a \<noteq> Root \<Longrightarrow> page_ok p"
    "page_of of_p w P a = Some p \<Longrightarrow> p \<notin> F"
    "page_of of_p w P a = Some p \<Longrightarrow> page_aligned p"
    "mid_of of_p w P i = Some p \<Longrightarrow> w (slot P i) = to_p (p OR PMD_TYPE_TABLE)"
    "mid_of of_p w P i = Some p \<Longrightarrow> leaf_of of_p w P i j = Some q \<Longrightarrow> w (slot p j) = to_p (q OR PMD_TYPE_TABLE)"
    "mid_of of_p w P i = Some p \<Longrightarrow> j < 512 \<Longrightarrow> w (slot p j) = 0 \<or> w (slot p j) AND 1 \<noteq> 0"
proof -
  show P: "page_aligned P" "P \<notin> F" using assms unfolding pt_wf_def by blast+
  show "page_of of_p w P a = Some p \<Longrightarrow> page_of of_p w P b = Some p \<Longrightarrow> a = b"
    using assms unfolding pt_wf_def by blast
  show ok: "page_of of_p w P a = Some p \<Longrightarrow> a \<noteq> Root \<Longrightarrow> page_ok p"
    using assms unfolding pt_wf_def by blast
  show "page_of of_p w P a = Some p \<Longrightarrow> p \<notin> F"
    using assms P unfolding pt_wf_def by (cases "a = Root") (simp, blast)
  show "page_of of_p w P a = Some p \<Longrightarrow> page_aligned p"
    using ok ok_page P by (cases "a = Root") auto
  show "mid_of of_p w P i = Some p \<Longrightarrow> w (slot P i) = to_p (p OR PMD_TYPE_TABLE)"
    using assms unfolding pt_wf_def by blast
  show "mid_of of_p w P i = Some p \<Longrightarrow> leaf_of of_p w P i j = Some q \<Longrightarrow> w (slot p j) = to_p (q OR PMD_TYPE_TABLE)"
    using assms unfolding pt_wf_def by blast
  show "mid_of of_p w P i = Some p \<Longrightarrow> j < 512 \<Longrightarrow> w (slot p j) = 0 \<or> w (slot p j) AND 1 \<noteq> 0"
    using assms unfolding pt_wf_def by blast
qed

lemma wfI:
  assumes "page_aligned P" "P \<notin> F"
    "\<And>a b p. page_of of_p w P a = Some p \<Longrightarrow> page_of of_p w P b = Some p \<Longrightarrow> a = b"
    "\<And>a p. page_of of_p w P a = Some p \<Longrightarrow> a \<noteq> Root \<Longrightarrow> page_ok p \<and> p \<notin> F"
    "\<And>i p. mid_of of_p w P i = Some p \<Longrightarrow> w (slot P i) = to_p (p OR PMD_TYPE_TABLE)"
    "\<And>i p j q. mid_of of_p w P i = Some p \<Longrightarrow> leaf_of of_p w P i j = Some q \<Longrightarrow> w (slot p j) = to_p (q OR PMD_TYPE_TABLE)"
    "\<And>i p j. mid_of of_p w P i = Some p \<Longrightarrow> j < 512 \<Longrightarrow> w (slot p j) = 0 \<or> w (slot p j) AND 1 \<noteq> 0"
  shows "pt_wf to_p of_p page_ok w P F"
  unfolding pt_wf_def using assms by blast

lemma wf_slot_inj:
  assumes "pt_wf to_p of_p page_ok w P F" "page_of of_p w P a = Some p" "page_of of_p w P b = Some q"
    "i < 512" "j < 512" "slot p i = slot q j"
  shows "a = b" "p = q" "i = j"
proof -
  have "p = q \<and> i = j" using assms slot_eq_iff [of p q i j] wfD(6) [OF assms(1)] by blast
  then show "p = q" "i = j" by simp_all
  then show "a = b" using assms(2,3) wfD(3) [OF assms(1)] by blast
qed

text \<open>The translation by the tables alone.\<close>

lemma xl_eq:
  assumes wf: "pt_wf to_p of_p page_ok w P F" and n: "n < 2 ^ 27"
  shows "xl of_p w P n =
    (case mid_of of_p w P (n div 512 div 512) of None \<Rightarrow> None
     | Some p \<Rightarrow> case leaf_of of_p w P (n div 512 div 512) (n div 512 mod 512) of
         None \<Rightarrow> sect_xl (w (slot p (n div 512 mod 512))) (n mod 512)
       | Some q \<Rightarrow> pte_xl (w (slot q (n mod 512))))"
proof (cases "mid_of of_p w P (n div 512 div 512)")
  case None
  have "n div 512 div 512 < 512" using n by simp
  with None have "w (slot P (n div 512 div 512)) = 0" by (simp add: mid_of_def Let_def split: if_splits)
  then show ?thesis using None by (simp add: xl_def)
next
  case (Some p)
  let ?i = "n div 512 div 512" and ?j = "n div 512 mod 512"
  have ok: "page_ok p" using wfD(4) [OF wf, of "Mid ?i"] Some by simp
  note e = wfD(7) [OF wf Some]
  have pa: "of_p (w (slot P ?i) AND PA_MASK) = p"
    unfolding e desc_low(5) [OF ok] by (rule desc_back [OF ok])
  have top: "w (slot P ?i) AND 1 \<noteq> 0" "w (slot P ?i) AND 2 \<noteq> 0" unfolding e by (rule desc_low [OF ok])+
  let ?e = "w (slot p ?j)"
  have walk: "xl of_p w P n = (if ?e AND 1 = 0 then None
        else if ?e AND 2 = 0 then Some ((?e AND mask 48 AND NOT (mask 21)) + 4096 * word_of_nat (n mod 512), ?e AND ATTRS)
        else pte_xl (w (slot (of_p (?e AND PA_MASK)) (n mod 512))))"
    using top by (simp add: xl_def Let_def pa)
  have j: "?j < 512" by simp
  show ?thesis
  proof (cases "leaf_of of_p w P ?i ?j")
    case None
    then have ne: "?e AND 3 \<noteq> 3" using j Some by (auto simp: leaf_of_def Let_def split: if_splits)
    have sect: "?e AND 3 = 1 \<longleftrightarrow> ?e AND 1 \<noteq> 0 \<and> ?e AND 2 = 0" and "\<not> (?e AND 1 \<noteq> 0 \<and> ?e AND 2 \<noteq> 0)"
      using and3_cases [of ?e] ne by blast+
    then show ?thesis using Some None by (auto simp: walk sect_xl_def)
  next
    case (Some q)
    have okq: "page_ok q" using wfD(4) [OF wf, of "Leaf ?i ?j"] Some by simp
    note e2 = wfD(8) [OF wf \<open>mid_of of_p w P ?i = Some p\<close> Some]
    have "of_p (?e AND PA_MASK) = q" unfolding e2 desc_low(5) [OF okq] by (rule desc_back [OF okq])
    moreover have "?e AND 1 \<noteq> 0" "?e AND 2 \<noteq> 0" unfolding e2 by (rule desc_low [OF okq])+
    ultimately show ?thesis using Some \<open>mid_of of_p w P ?i = Some p\<close> by (simp add: walk)
  qed
qed

text \<open>Memory outside the tables does not matter.\<close>

lemma agree_pages:
  assumes "same_tables of_p w w' P"
  shows "mid_of of_p w' P = mid_of of_p w P" "leaf_of of_p w' P = leaf_of of_p w P" "page_of of_p w' P = page_of of_p w P"
proof -
  have root: "w' (slot P i) = w (slot P i)" if "i < 512" for i using same_tablesD [OF assms, of Root] that by simp
  show mid: "mid_of of_p w' P = mid_of of_p w P" using root by (intro ext) (auto simp: mid_of_def Let_def)
  have "leaf_of of_p w' P i j = leaf_of of_p w P i j" for i j
  proof (cases "mid_of of_p w P i")
    case (Some p)
    then show ?thesis using same_tablesD [OF assms, of "Mid i" p j] by (cases "j < 512") (simp_all add: leaf_of_def mid Let_def)
  qed (simp add: leaf_of_def mid)
  then show leaf: "leaf_of of_p w' P = leaf_of of_p w P" by (intro ext)
  show "page_of of_p w' P = page_of of_p w P" by (intro ext) (simp add: page_of_def mid leaf split: node.split)
qed

lemma leaf_of_mid: "leaf_of of_p w P i j = Some q \<Longrightarrow> \<exists>p. mid_of of_p w P i = Some p \<and> j < 512"
  by (auto simp: leaf_of_def Let_def split: option.splits if_splits)

lemma mid_of_less: "mid_of of_p w P i = Some p \<Longrightarrow> i < 512"
  by (auto simp: mid_of_def Let_def split: if_splits)

lemma agree_wf:
  assumes wf: "pt_wf to_p of_p page_ok w P F"
    and eq: "same_tables of_p w w' P"
  shows "pt_wf to_p of_p page_ok w' P F"
proof -
  note pages = agree_pages [OF eq]
  have root: "w' (slot P i) = w (slot P i)" if "i < 512" for i using same_tablesD [OF eq, of Root] that by simp
  have mids: "w' (slot p j) = w (slot p j)" if "mid_of of_p w P i = Some p" "j < 512" for i j p
    using same_tablesD [OF eq, of "Mid i"] that by simp
  show ?thesis
  proof (rule wfI, unfold pages)
    fix i p assume m: "mid_of of_p w P i = Some p"
    show "w' (slot P i) = to_p (p OR PMD_TYPE_TABLE)" using wfD(7) [OF wf m] root [OF mid_of_less [OF m]] by simp
    fix j :: nat assume j: "j < 512"
    show "w' (slot p j) = 0 \<or> w' (slot p j) AND 1 \<noteq> 0" using wfD(9) [OF wf m j] mids [OF m j] by simp
  next
    fix i p j q assume m: "mid_of of_p w P i = Some p" and l: "leaf_of of_p w P i j = Some q"
    show "w' (slot p j) = to_p (q OR PMD_TYPE_TABLE)" using wfD(8) [OF wf m l] mids [OF m, of j] leaf_of_mid [OF l] by simp
  qed (use wfD [OF wf] in blast)+
qed

lemma agree_xl:
  assumes wf: "pt_wf to_p of_p page_ok w P F"
    and eq: "same_tables of_p w w' P"
    and n: "n < 2 ^ 27"
  shows "xl of_p w' P n = xl of_p w P n"
proof -
  note pages = agree_pages [OF eq]
  have mids: "w' (slot p (n div 512 mod 512)) = w (slot p (n div 512 mod 512))" if "mid_of of_p w P (n div 512 div 512) = Some p" for p
    using same_tablesD [OF eq, of "Mid (n div 512 div 512)"] that by simp
  have leaves: "w' (slot q (n mod 512)) = w (slot q (n mod 512))"
    if "leaf_of of_p w P (n div 512 div 512) (n div 512 mod 512) = Some q" for q
    using same_tablesD [OF eq, of "Leaf (n div 512 div 512) (n div 512 mod 512)"] that by simp
  show ?thesis
    unfolding xl_eq [OF agree_wf [OF wf eq] n] xl_eq [OF wf n] pages
    using mids leaves by (simp split: option.splits)
qed

lemma wf_mono: "pt_wf to_p of_p page_ok w P F \<Longrightarrow> F' \<subseteq> F \<Longrightarrow> pt_wf to_p of_p page_ok w P F'"
  unfolding pt_wf_def by blast

text \<open>A fresh page becomes a middle table or a leaf table.\<close>

lemma link_mid:
  assumes wf: "pt_wf to_p of_p page_ok w P F" and i: "i < 512" "w (slot P i) = 0"
    and q: "page_ok q" "q \<in> F" "\<And>j. j < 512 \<Longrightarrow> w (slot q j) = 0"
  defines "w' \<equiv> w(slot P i := to_p (q OR PMD_TYPE_TABLE))"
  shows "mid_of of_p w' P = (mid_of of_p w P)(i := Some q)" "leaf_of of_p w' P = leaf_of of_p w P"
    "pt_wf to_p of_p page_ok w' P (F - {q})" "n < 2 ^ 27 \<Longrightarrow> xl of_p w' P n = xl of_p w P n"
proof -
  have Pal: "page_aligned P" and qal: "page_aligned q" using wfD(1) [OF wf] ok_page [OF q(1)] by simp_all
  have root: "w' (slot P i') = w (slot P i')" if "i' < 512" "i' \<noteq> i" for i'
    using that i slot_eq_iff [OF Pal Pal, of i' i] by (simp add: w'_def)
  have at: "w' (slot P i) = to_p (q OR PMD_TYPE_TABLE)" by (simp add: w'_def)
  have off: "w' (slot p j) = w (slot p j)" if "page_aligned p" "p \<noteq> P" "j < 512" for p j
    using that i slot_eq_iff [OF that(1) Pal, of j i] by (simp add: w'_def)
  have mid: "mid_of of_p w' P i' = ((mid_of of_p w P)(i := Some q)) i'" for i'
    using root [of i'] i at desc_low(4) [OF q(1)] desc_back [OF q(1)] by (cases "i' = i"; cases "i' < 512") (simp_all add: mid_of_def Let_def)
  then show m: "mid_of of_p w' P = (mid_of of_p w P)(i := Some q)" by (intro ext)
  have qP: "q \<noteq> P" using q(2) wfD(2) [OF wf] by auto
  have none: "mid_of of_p w P i = None" using i by (simp add: mid_of_def)
  have "leaf_of of_p w' P i' j = leaf_of of_p w P i' j" for i' j
  proof (cases "i' = i")
    case True
    then show ?thesis using none off [OF qal qP, of j] q(3) [of j] by (simp add: leaf_of_def m Let_def)
  next
    case False
    show ?thesis
    proof (cases "mid_of of_p w P i'")
      case (Some p)
      have "page_aligned p" "p \<noteq> P" using wfD(6) [OF wf, of "Mid i'" p] wfD(3) [OF wf, of "Mid i'" p Root] Some by auto
      then show ?thesis using Some False off [of p j] by (cases "j < 512") (simp_all add: leaf_of_def m Let_def)
    qed (simp add: leaf_of_def m False)
  qed
  then show l: "leaf_of of_p w' P = leaf_of of_p w P" by (intro ext)
  have pages: "page_of of_p w' P a = (if a = Mid i then Some q else page_of of_p w P a)" for a
    by (cases a) (simp_all add: m l)
  have mids: "w' (slot p j) = w (slot p j)" if "mid_of of_p w P i' = Some p" "j < 512" for i' p j
    using off [of p j] that wfD(6) [OF wf, of "Mid i'" p] wfD(3) [OF wf, of "Mid i'" p Root] by auto
  have q0: "w' (slot q j) = 0" if "j < 512" for j using off [OF qal qP that] q(3) [OF that] by simp
  show wf': "pt_wf to_p of_p page_ok w' P (F - {q})"
  proof (rule wfI)
    fix a b p assume "page_of of_p w' P a = Some p" "page_of of_p w' P b = Some p"
    then show "a = b" using wfD(3) [OF wf] wfD(5) [OF wf] q(2) unfolding pages by (auto split: if_splits)
  next
    fix a p assume "page_of of_p w' P a = Some p" "a \<noteq> Root"
    then show "page_ok p \<and> p \<notin> F - {q}" using wfD(4,5) [OF wf] q(1) unfolding pages by (auto split: if_splits)
  next
    fix i' p assume a: "mid_of of_p w' P i' = Some p"
    show "w' (slot P i') = to_p (p OR PMD_TYPE_TABLE)"
    proof (cases "i' = i")
      case False
      then have "mid_of of_p w P i' = Some p" using a m by simp
      then show ?thesis using wfD(7) [OF wf] root [OF mid_of_less False] by simp
    qed (use a m at in simp)
    fix j :: nat assume "j < 512"
    then show "w' (slot p j) = 0 \<or> w' (slot p j) AND 1 \<noteq> 0"
      using a m mids [of i' p j] q0 [of j] wfD(9) [OF wf, of i' p j] by (cases "i' = i") simp_all
  next
    fix i' p j q' assume a: "mid_of of_p w' P i' = Some p" "leaf_of of_p w' P i' j = Some q'"
    then have "i' \<noteq> i" using none leaf_of_mid [of w P i' j q'] l by auto
    then show "w' (slot p j) = to_p (q' OR PMD_TYPE_TABLE)"
      using a m l mids [of i' p j] leaf_of_mid [of w P i' j q'] wfD(8) [OF wf, of i' p j q'] by simp
  qed (use wfD(1,2) [OF wf] in auto)
  have leaves: "w' (slot q' k) = w (slot q' k)" if "leaf_of of_p w P i' j = Some q'" "k < 512" for i' j q' k
    using off [of q' k] that wfD(6) [OF wf, of "Leaf i' j" q'] wfD(3) [OF wf, of "Leaf i' j" q' Root] by auto
  assume n: "n < 2 ^ 27"
  show "xl of_p w' P n = xl of_p w P n"
  proof (cases "n div 512 div 512 = i")
    case True
    have "leaf_of of_p w P i (n div 512 mod 512) = None" using none by (simp add: leaf_of_def)
    then show ?thesis unfolding xl_eq [OF wf' n] xl_eq [OF wf n] m l True
      using none q0 [of "n div 512 mod 512"] by (simp add: sect_xl_def)
  next
    case False
    then show ?thesis unfolding xl_eq [OF wf' n] xl_eq [OF wf n] m l
      using mids leaves by (auto split: option.splits)
  qed
qed

text \<open>A descriptor is written into a middle table.\<close>

lemma put_entry:
  fixes e :: u64
  assumes wf: "pt_wf to_p of_p page_ok w P F" and p: "mid_of of_p w P i = Some p" and j: "j < 512"
  defines "w' \<equiv> w(slot p j := e)"
  shows put_entry_mid: "mid_of of_p w' P = mid_of of_p w P"
    and put_entry_slot: "mid_of of_p w P i' = Some p' \<Longrightarrow> j' < 512 \<Longrightarrow>
      w' (slot p' j') = (if i' = i \<and> j' = j then e else w (slot p' j'))"
    and put_entry_off: "page_aligned q \<Longrightarrow> q \<noteq> p \<Longrightarrow> k < 512 \<Longrightarrow> w' (slot q k) = w (slot q k)"
    and put_entry_leaf: "leaf_of of_p w' P i' j' = (if i' = i \<and> j' = j
      then if e AND 3 = 3 then Some (of_p (e AND NOT (mask 12))) else None else leaf_of of_p w P i' j')"
proof -
  have al: "page_aligned p" using wfD(6) [OF wf, of "Mid i"] p by simp
  show off: "w' (slot q k) = w (slot q k)" if "page_aligned q" "q \<noteq> p" "k < 512" for q k
    using that j slot_eq_iff [OF that(1) al, of k j] by (simp add: w'_def)
  have "P \<noteq> p" using wfD(3) [OF wf, of "Mid i" p Root] p by auto
  then have root: "w' (slot P k) = w (slot P k)" if "k < 512" for k using off wfD(1) [OF wf] that by blast
  show m: "mid_of of_p w' P = mid_of of_p w P" using root by (intro ext) (auto simp: mid_of_def Let_def)
  show sl: "w' (slot p' j') = (if i' = i \<and> j' = j then e else w (slot p' j'))"
    if "mid_of of_p w P i' = Some p'" "j' < 512" for i' p' j'
  proof (cases "i' = i")
    case True
    then show ?thesis using p that slot_eq_iff [OF al al, of j' j] j by (simp add: w'_def)
  next
    case False
    then have "p' \<noteq> p" using wfD(3) [OF wf, of "Mid i'" p' "Mid i"] p that by auto
    then show ?thesis using off [of p' j'] wfD(6) [OF wf, of "Mid i'" p'] that False by simp
  qed
  show "leaf_of of_p w' P i' j' = (if i' = i \<and> j' = j
      then if e AND 3 = 3 then Some (of_p (e AND NOT (mask 12))) else None else leaf_of of_p w P i' j')"
  proof (cases "mid_of of_p w P i'")
    case None
    then show ?thesis using p by (auto simp: leaf_of_def m)
  next
    case (Some p')
    show ?thesis
    proof (cases "j' < 512")
      case True
      then show ?thesis using sl [OF Some True] Some p by (cases "i' = i \<and> j' = j") (auto simp: leaf_of_def m Let_def)
    next
      case False
      then show ?thesis using Some j by (auto simp: leaf_of_def m Let_def)
    qed
  qed
qed

lemma link_leaf:
  assumes wf: "pt_wf to_p of_p page_ok w P F" and p: "mid_of of_p w P i = Some p" and j: "j < 512" "w (slot p j) = 0"
    and q: "page_ok q" "q \<in> F" "\<And>k. k < 512 \<Longrightarrow> w (slot q k) = 0"
  defines "w' \<equiv> w(slot p j := to_p (q OR PMD_TYPE_TABLE))"
  shows "mid_of of_p w' P = mid_of of_p w P"
    "leaf_of of_p w' P i' j' = (if i' = i \<and> j' = j then Some q else leaf_of of_p w P i' j')"
    "pt_wf to_p of_p page_ok w' P (F - {q})" "n < 2 ^ 27 \<Longrightarrow> xl of_p w' P n = xl of_p w P n"
proof -
  note m = put_entry_mid [OF wf p j(1), of "to_p (q OR PMD_TYPE_TABLE)", folded w'_def]
  note sl = put_entry_slot [OF wf p j(1), where e = "to_p (q OR PMD_TYPE_TABLE)", folded w'_def]
  note off = put_entry_off [OF wf p j(1), where e = "to_p (q OR PMD_TYPE_TABLE)", folded w'_def]
  show "mid_of of_p w' P = mid_of of_p w P" by (rule m)
  show l: "leaf_of of_p w' P i' j' = (if i' = i \<and> j' = j then Some q else leaf_of of_p w P i' j')" for i' j'
    using put_entry_leaf [OF wf p j(1), where e = "to_p (q OR PMD_TYPE_TABLE)", folded w'_def, of i' j']
      desc_low(1) [OF q(1)] desc_back [OF q(1)] by simp
  have none: "leaf_of of_p w P i j = None" using p j by (simp add: leaf_of_def)
  have pages: "page_of of_p w' P a = (if a = Leaf i j then Some q else page_of of_p w P a)" for a
    by (cases a) (simp_all add: m l)
  have Pp: "P \<noteq> p" using wfD(3) [OF wf, of "Mid i" p Root] p by auto
  show wf': "pt_wf to_p of_p page_ok w' P (F - {q})"
  proof (rule wfI)
    fix a b p assume "page_of of_p w' P a = Some p" "page_of of_p w' P b = Some p"
    then show "a = b" using wfD(3) [OF wf] wfD(5) [OF wf] q(2) unfolding pages by (auto split: if_splits)
  next
    fix a p assume "page_of of_p w' P a = Some p" "a \<noteq> Root"
    then show "page_ok p \<and> p \<notin> F - {q}" using wfD(4,5) [OF wf] q(1) unfolding pages by (auto split: if_splits)
  next
    fix i' p' assume a: "mid_of of_p w' P i' = Some p'"
    then have a': "mid_of of_p w P i' = Some p'" by (simp add: m)
    show "w' (slot P i') = to_p (p' OR PMD_TYPE_TABLE)"
      using off [OF wfD(1) [OF wf] Pp mid_of_less [OF a']] wfD(7) [OF wf a'] by simp
    fix j' :: nat assume "j' < 512"
    then show "w' (slot p' j') = 0 \<or> w' (slot p' j') AND 1 \<noteq> 0"
      using sl [OF a', of j'] desc_low(2) [OF q(1)] wfD(9) [OF wf a', of j'] by simp
  next
    fix i' p' j' q' assume a: "mid_of of_p w' P i' = Some p'" "leaf_of of_p w' P i' j' = Some q'"
    then have a': "mid_of of_p w P i' = Some p'" and j': "j' < 512" using leaf_of_mid [OF a(2)] by (simp_all add: m)
    show "w' (slot p' j') = to_p (q' OR PMD_TYPE_TABLE)"
      using sl [OF a' j'] wfD(8) [OF wf a', of j' q'] a(2) l [of i' j'] by (cases "i' = i \<and> j' = j") auto
  qed (use wfD(1,2) [OF wf] in auto)
  assume n: "n < 2 ^ 27"
  show "xl of_p w' P n = xl of_p w P n"
  proof (cases "n div 512 div 512 = i \<and> n div 512 mod 512 = j")
    case True
    have "page_aligned q" "q \<noteq> p" using ok_page [OF q(1)] wfD(5) [OF wf, of "Mid i" p] p q(2) by auto
    then have "w' (slot q (n mod 512)) = 0" using off [of q "n mod 512"] q(3) by simp
    then show ?thesis unfolding xl_eq [OF wf' n] xl_eq [OF wf n] m l
      using True none p j(2) by (simp add: sect_xl_def pte_xl_def)
  next
    case False
    have leaves: "w' (slot q' k) = w (slot q' k)" if "leaf_of of_p w P i' j' = Some q'" "k < 512" for i' j' q' k
      using off [of q' k] that p wfD(6) [OF wf, of "Leaf i' j'" q'] wfD(3) [OF wf, of "Leaf i' j'" q' "Mid i"] by auto
    show ?thesis unfolding xl_eq [OF wf' n] xl_eq [OF wf n] m l
      using leaves sl [of "n div 512 div 512" _ "n div 512 mod 512"] False by (auto split: option.splits)
  qed
qed

lemma put_section:
  assumes wf: "pt_wf to_p of_p page_ok w P F" and p: "mid_of of_p w P i = Some p" and j: "j < 512" and e: "e AND 3 = 1"
  defines "w' \<equiv> w(slot p j := e)"
  shows "leaf_of of_p w' P i' j' = (if i' = i \<and> j' = j then None else leaf_of of_p w P i' j')"
    "pt_wf to_p of_p page_ok w' P F"
    "n < 2 ^ 27 \<Longrightarrow> xl of_p w' P n = (if n div 512 div 512 = i \<and> n div 512 mod 512 = j then sect_xl e (n mod 512) else xl of_p w P n)"
proof -
  note m = put_entry_mid [OF wf p j, of e, folded w'_def]
  note sl = put_entry_slot [OF wf p j, where e = e, folded w'_def]
  note off = put_entry_off [OF wf p j, where e = e, folded w'_def]
  show l: "leaf_of of_p w' P i' j' = (if i' = i \<and> j' = j then None else leaf_of of_p w P i' j')" for i' j'
    using put_entry_leaf [OF wf p j, where e = e, folded w'_def, of i' j'] e by simp
  have pages: "page_of of_p w' P a = (if a = Leaf i j then None else page_of of_p w P a)" for a
    by (cases a) (simp_all add: m l)
  have Pp: "P \<noteq> p" using wfD(3) [OF wf, of "Mid i" p Root] p by auto
  show wf': "pt_wf to_p of_p page_ok w' P F"
  proof (rule wfI)
    fix a b p assume "page_of of_p w' P a = Some p" "page_of of_p w' P b = Some p"
    then show "a = b" using wfD(3) [OF wf] unfolding pages by (auto split: if_splits)
  next
    fix a p assume "page_of of_p w' P a = Some p" "a \<noteq> Root"
    then show "page_ok p \<and> p \<notin> F" using wfD(4,5) [OF wf] unfolding pages by (auto split: if_splits)
  next
    fix i' p' assume a: "mid_of of_p w' P i' = Some p'"
    then have a': "mid_of of_p w P i' = Some p'" by (simp add: m)
    show "w' (slot P i') = to_p (p' OR PMD_TYPE_TABLE)"
      using off [OF wfD(1) [OF wf] Pp mid_of_less [OF a']] wfD(7) [OF wf a'] by simp
    fix j' :: nat assume "j' < 512"
    moreover have "e AND 1 \<noteq> 0" using and3_cases [of e] e by simp
    ultimately show "w' (slot p' j') = 0 \<or> w' (slot p' j') AND 1 \<noteq> 0"
      using sl [OF a', of j'] wfD(9) [OF wf a', of j'] by simp
  next
    fix i' p' j' q' assume a: "mid_of of_p w' P i' = Some p'" "leaf_of of_p w' P i' j' = Some q'"
    then have a': "mid_of of_p w P i' = Some p'" and j': "j' < 512" using leaf_of_mid [OF a(2)] by (simp_all add: m)
    show "w' (slot p' j') = to_p (q' OR PMD_TYPE_TABLE)"
      using sl [OF a' j'] wfD(8) [OF wf a', of j' q'] a(2) l [of i' j'] by (cases "i' = i \<and> j' = j") auto
  qed (use wfD(1,2) [OF wf] in auto)
  assume n: "n < 2 ^ 27"
  show "xl of_p w' P n = (if n div 512 div 512 = i \<and> n div 512 mod 512 = j then sect_xl e (n mod 512) else xl of_p w P n)"
  proof (cases "n div 512 div 512 = i \<and> n div 512 mod 512 = j")
    case True
    then show ?thesis unfolding xl_eq [OF wf' n] m l using p sl [OF p, of j] j by simp
  next
    case False
    have leaves: "w' (slot q' k) = w (slot q' k)" if "leaf_of of_p w P i' j' = Some q'" "k < 512" for i' j' q' k
      using off [of q' k] that p wfD(6) [OF wf, of "Leaf i' j'" q'] wfD(3) [OF wf, of "Leaf i' j'" q' "Mid i"] by auto
    show ?thesis unfolding xl_eq [OF wf' n] xl_eq [OF wf n] m l
      using leaves sl [of "n div 512 div 512" _ "n div 512 mod 512"] False by (auto split: option.splits)
  qed
qed

text \<open>Descriptors are written into a leaf table.\<close>

lemma put_leaf:
  assumes wf: "pt_wf to_p of_p page_ok w P F" and q: "leaf_of of_p w P i j = Some q"
    and off: "\<And>p k. page_aligned p \<Longrightarrow> p \<noteq> q \<Longrightarrow> k < 512 \<Longrightarrow> w' (slot p k) = w (slot p k)"
  shows "mid_of of_p w' P = mid_of of_p w P" "leaf_of of_p w' P = leaf_of of_p w P" "pt_wf to_p of_p page_ok w' P F"
    "n < 2 ^ 27 \<Longrightarrow> xl of_p w' P n = (if n div 512 div 512 = i \<and> n div 512 mod 512 = j
        then pte_xl (w' (slot q (n mod 512))) else xl of_p w P n)"
proof -
  have keep: "w' (slot p k) = w (slot p k)" if "page_of of_p w P a = Some p" "a \<noteq> Leaf i j" "k < 512" for a p k
    using off [OF wfD(6) [OF wf that(1)] _ that(3)] wfD(3) [OF wf that(1), of "Leaf i j"] that(2) q by auto
  have root: "w' (slot P k) = w (slot P k)" if "k < 512" for k using keep [of Root] that by simp
  have mids: "w' (slot p k) = w (slot p k)" if "mid_of of_p w P i' = Some p" "k < 512" for i' p k
    using keep [of "Mid i'"] that by simp
  show m: "mid_of of_p w' P = mid_of of_p w P" using root by (intro ext) (auto simp: mid_of_def Let_def)
  have "leaf_of of_p w' P i' j' = leaf_of of_p w P i' j'" for i' j'
  proof (cases "mid_of of_p w P i'")
    case (Some p)
    then show ?thesis using mids [OF Some, of j'] by (cases "j' < 512") (simp_all add: leaf_of_def m Let_def)
  qed (simp add: leaf_of_def m)
  then show l: "leaf_of of_p w' P = leaf_of of_p w P" by (intro ext)
  have pages: "page_of of_p w' P = page_of of_p w P" by (intro ext) (simp add: page_of_def m l split: node.split)
  show wf': "pt_wf to_p of_p page_ok w' P F"
  proof (rule wfI, unfold pages m l)
    fix i p assume m: "mid_of of_p w P i = Some p"
    show "w' (slot P i) = to_p (p OR PMD_TYPE_TABLE)" using wfD(7) [OF wf m] root [OF mid_of_less [OF m]] by simp
    fix j :: nat assume j: "j < 512"
    show "w' (slot p j) = 0 \<or> w' (slot p j) AND 1 \<noteq> 0" using wfD(9) [OF wf m j] mids [OF m j] by simp
  next
    fix i p j q assume m: "mid_of of_p w P i = Some p" and l: "leaf_of of_p w P i j = Some q"
    show "w' (slot p j) = to_p (q OR PMD_TYPE_TABLE)" using wfD(8) [OF wf m l] mids [OF m, of j] leaf_of_mid [OF l] by simp
  qed (use wfD [OF wf] in blast)+
  assume n: "n < 2 ^ 27"
  show "xl of_p w' P n = (if n div 512 div 512 = i \<and> n div 512 mod 512 = j
        then pte_xl (w' (slot q (n mod 512))) else xl of_p w P n)"
  proof (cases "n div 512 div 512 = i \<and> n div 512 mod 512 = j")
    case True
    then show ?thesis unfolding xl_eq [OF wf' n] m l using q leaf_of_mid [OF q] by auto
  next
    case False
    have "w' (slot q' (n mod 512)) = w (slot q' (n mod 512))" if "leaf_of of_p w P (n div 512 div 512) (n div 512 mod 512) = Some q'" for q'
      using keep [of "Leaf (n div 512 div 512) (n div 512 mod 512)" q'] that False by simp
    then show ?thesis unfolding xl_eq [OF wf' n] xl_eq [OF wf n] m l if_not_P [OF False]
      using mids by (auto split: option.splits)
  qed
qed
end

end
