(* ===== verification/K_Ptmap.thy ===== *)
theory K_Ptmap
  imports K_Pagetable
begin

text \<open>
  Correctness of \<^verbatim>\<open>pt_map\<close> and \<^verbatim>\<open>idmap_pt_map\<close>: for a table allocator that satisfies the locale
  \<open>table_alloc\<close>, mapping a range returns, keeps the tables well formed and changes the translation
  of exactly the pages of the range.
\<close>

section \<open>Mapping a range\<close>

lemma page_bits:
  fixes pa :: u64
  assumes "page_aligned pa" "bit pa n"
  shows "12 \<le> n"
proof (rule ccontr)
  assume "\<not> 12 \<le> n"
  then have "bit (pa AND mask 12) n" using assms(2) by (simp add: bit_simps)
  then show False using assms(1) by (simp add: page_aligned_and)
qed

lemma small_bits:
  fixes pa :: u64
  assumes "unat pa < 2 ^ 48" "bit pa n"
  shows "n < 48"
  using not_bit_small [of pa 48 n] assms by (cases "n < 48") auto

lemma bit_2_3: "bit (3 :: int) n \<longleftrightarrow> n < 2" "bit (2 :: int) n \<longleftrightarrow> n = 1"
proof -
  have "(3 :: int) = mask 2" "(2 :: int) = 2 ^ 1" by (simp_all add: mask_eq_exp_minus_1)
  show "bit (3 :: int) n \<longleftrightarrow> n < 2" unfolding \<open>3 = mask 2\<close> by (auto simp: bit_simps)
  show "bit (2 :: int) n \<longleftrightarrow> n = 1" by (subst \<open>2 = 2 ^ 1\<close>, subst bit_exp_iff) auto
qed

lemma attr_bits:
  assumes "attr AND PA_MASK = 0" "bit attr n"
  shows "n < 12 \<or> 48 \<le> n"
proof (rule ccontr)
  assume "\<not> (n < 12 \<or> 48 \<le> n)"
  then have "bit (attr AND PA_MASK) n" using assms(2) by (simp add: PA_MASK_def bit_simps)
  then show False using assms(1) by simp
qed

lemma page_desc_xl:
  assumes "page_aligned pa" "unat pa < 2 ^ 48" "attr AND PA_MASK = 0"
  shows "pte_xl (page_desc pa attr) = Some (pa, attr AND ATTRS)"
proof -
  note b = page_bits [OF assms(1)] small_bits [OF assms(2)] attr_bits [OF assms(3)]
  have e: "page_desc pa attr = pa OR 3 OR attr"
    by (intro bit_eqI) (use b(1) in \<open>auto simp: page_desc_def pg_values PTE_TYPE_PAGE_def bit_simps\<close>)
  have "page_desc pa attr AND 3 = 3"
  proof (rule bit_word_eqI)
    fix n :: nat assume "n < LENGTH(64)"
    then show "bit (page_desc pa attr AND 3) n \<longleftrightarrow> bit (3 :: u64) n"
      unfolding e using b(1) [of n] b(2) [of n] b(3) [of n] by (auto simp: bit_simps bit_2_3)
  qed
  moreover have "page_desc pa attr AND PA_MASK = pa"
  proof (rule bit_word_eqI)
    fix n :: nat assume "n < LENGTH(64)"
    then show "bit (page_desc pa attr AND PA_MASK) n \<longleftrightarrow> bit (pa) n"
      unfolding e using b(1) [of n] b(2) [of n] b(3) [of n] by (auto simp: bit_simps bit_2_3 PA_MASK_def)
  qed
  moreover have "page_desc pa attr AND ATTRS = attr AND ATTRS"
  proof (rule bit_word_eqI)
    fix n :: nat assume "n < LENGTH(64)"
    then show "bit (page_desc pa attr AND ATTRS) n \<longleftrightarrow> bit (attr AND ATTRS) n"
      unfolding e using b(1) [of n] b(2) [of n] b(3) [of n] by (auto simp: bit_simps bit_2_3 PA_MASK_def ATTRS_def)
  qed
  ultimately show ?thesis by (simp add: pte_xl_def)
qed

definition sect_desc :: "u64 \<Rightarrow> u64 \<Rightarrow> u64" where
  "sect_desc pa attr = push_bit PMD_SHIFT (drop_bit PMD_SHIFT pa) OR PMD_TYPE_SECT OR (attr AND NOT PTE_TABLE_BIT)"

lemma sect_desc_xl:
  assumes "pa AND mask 21 = 0" "unat pa < 2 ^ 48" "attr AND PA_MASK = 0"
  shows "sect_desc pa attr AND 3 = 1" "sect_xl (sect_desc pa attr) k = Some (pa + 4096 * word_of_nat k, attr AND ATTRS)"
proof -
  have "21 \<le> n" if "bit pa n" for n
  proof (rule ccontr)
    assume "\<not> 21 \<le> n"
    then have "bit (pa AND mask 21) n" using that by (simp add: bit_simps)
    then show False using assms(1) by simp
  qed
  note b = this small_bits [OF assms(2)] attr_bits [OF assms(3)]
  have e: "sect_desc pa attr = pa OR 1 OR (attr AND NOT 2)"
    by (intro bit_eqI) (use b(1) b(1) [of 1] in \<open>auto simp: sect_desc_def pg_values PMD_TYPE_SECT_def PTE_TABLE_BIT_def bit_simps bit_2_3\<close>)
  show s: "sect_desc pa attr AND 3 = 1"
  proof (rule bit_word_eqI)
    fix n :: nat assume "n < LENGTH(64)"
    then show "bit (sect_desc pa attr AND 3) n \<longleftrightarrow> bit (1 :: u64) n"
      unfolding e using b(1) [of n] b(2) [of n] b(3) [of n] by (auto simp: bit_simps bit_2_3 bit_1_iff)
  qed
  have "sect_desc pa attr AND mask 48 AND NOT (mask 21) = pa"
  proof (rule bit_word_eqI)
    fix n :: nat assume "n < LENGTH(64)"
    then show "bit (sect_desc pa attr AND mask 48 AND NOT (mask 21)) n \<longleftrightarrow> bit (pa) n"
      unfolding e using b(1) [of n] b(2) [of n] b(3) [of n] by (auto simp: bit_simps bit_1_iff)
  qed
  moreover have "sect_desc pa attr AND ATTRS = attr AND ATTRS"
  proof (rule bit_word_eqI)
    fix n :: nat assume "n < LENGTH(64)"
    then show "bit (sect_desc pa attr AND ATTRS) n \<longleftrightarrow> bit (attr AND ATTRS) n"
      unfolding e using b(1) [of n] b(2) [of n] b(3) [of n] by (auto simp: bit_simps bit_2_3 bit_1_iff PA_MASK_def ATTRS_def)
  qed
  ultimately show "sect_xl (sect_desc pa attr) k = Some (pa + 4096 * word_of_nat k, attr AND ATTRS)"
    using s by (simp add: sect_xl_def)
qed


text \<open>
  \<open>nosect\<close>: the 2 MiB slot \<open>m\<close> holds no block descriptor.  \<open>mapped\<close>: from \<open>w\<close> to \<open>w'\<close> the
  translation changed on the pages from \<open>a\<close> to \<open>b\<close> only, which now go to consecutive frames.
\<close>

definition nosect :: "(u64 \<Rightarrow> u64) \<Rightarrow> tmem \<Rightarrow> u64 \<Rightarrow> nat \<Rightarrow> bool" where
  "nosect of_p w P m \<longleftrightarrow> (leaf_of of_p w P (m div 512) (m mod 512) = None \<longrightarrow> xl of_p w P (512 * m) = None)"

definition same_xl :: "(u64 \<Rightarrow> u64) \<Rightarrow> tmem \<Rightarrow> tmem \<Rightarrow> u64 \<Rightarrow> bool" where
  "same_xl of_p w w' P \<longleftrightarrow> (\<forall>n < 2 ^ 27. xl of_p w' P n = xl of_p w P n) \<and>
     (\<forall>m < 2 ^ 18. nosect of_p w P m \<longrightarrow> nosect of_p w' P m)"

definition mapped :: "(u64 \<Rightarrow> u64) \<Rightarrow> tmem \<Rightarrow> tmem \<Rightarrow> u64 \<Rightarrow> nat \<Rightarrow> nat \<Rightarrow> u64 \<Rightarrow> u64 \<Rightarrow> bool" where
  "mapped of_p w w' P a b pa at \<longleftrightarrow>
     (\<forall>n < 2 ^ 27. xl of_p w' P n =
        (if a \<le> n \<and> n < b then Some (pa + 4096 * word_of_nat (n - a), at) else xl of_p w P n)) \<and>
     (\<forall>m < 2 ^ 18. \<not> (a \<le> 512 * m \<and> 512 * m + 512 \<le> b) \<longrightarrow> nosect of_p w P m \<longrightarrow> nosect of_p w' P m)"

lemma same_xlI:
  assumes "\<And>n. n < 2 ^ 27 \<Longrightarrow> xl of_p w' P n = xl of_p w P n"
    and "\<And>i j. leaf_of of_p w P i j \<noteq> None \<Longrightarrow> leaf_of of_p w' P i j \<noteq> None"
  shows "same_xl of_p w w' P"
proof -
  have "nosect of_p w' P m" if "m < 2 ^ 18" "nosect of_p w P m" for m
    using assms(1) [of "512 * m"] assms(2) [of "m div 512" "m mod 512"] that by (auto simp: nosect_def)
  then show ?thesis using assms(1) by (simp add: same_xl_def)
qed

lemma same_mapped: "same_xl of_p w w1 P \<Longrightarrow> mapped of_p w1 w2 P a b pa at \<Longrightarrow> mapped of_p w w2 P a b pa at"
  by (simp add: same_xl_def mapped_def)

lemma same_xl_trans: "same_xl of_p w w1 P \<Longrightarrow> same_xl of_p w1 w2 P \<Longrightarrow> same_xl of_p w w2 P"
  by (simp add: same_xl_def)

lemma mapped_trans:
  assumes "mapped of_p w w1 P a c pa at" "mapped of_p w1 w2 P c b (pa + 4096 * word_of_nat (c - a)) at" "a \<le> c" "c \<le> b"
  shows "mapped of_p w w2 P a b pa at"
proof -
  have "xl of_p w2 P n = (if a \<le> n \<and> n < b then Some (pa + 4096 * word_of_nat (n - a), at) else xl of_p w P n)"
    if n: "n < 2 ^ 27" for n
  proof (cases "c \<le> n \<and> n < b")
    case True
    have "(word_of_nat (n - a) :: u64) = word_of_nat (c - a) + word_of_nat (n - c)"
      using True assms(3) by (simp flip: of_nat_add)
    then have "pa + 4096 * word_of_nat (c - a) + 4096 * word_of_nat (n - c) = pa + 4096 * word_of_nat (n - a)"
      by (simp add: algebra_simps)
    moreover have "xl of_p w2 P n = Some (pa + 4096 * word_of_nat (c - a) + 4096 * word_of_nat (n - c), at)"
      using assms(2) n True by (simp add: mapped_def)
    ultimately show ?thesis using True assms(3) by simp
  next
    case False
    then have "xl of_p w2 P n = xl of_p w1 P n" using assms(2) n by (auto simp: mapped_def)
    also have "\<dots> = (if a \<le> n \<and> n < c then Some (pa + 4096 * word_of_nat (n - a), at) else xl of_p w P n)"
      using assms(1) n by (auto simp: mapped_def)
    finally show ?thesis using False assms(3,4) by auto
  qed
  moreover have "nosect of_p w2 P m" if m: "m < 2 ^ 18" "\<not> (a \<le> 512 * m \<and> 512 * m + 512 \<le> b)" "nosect of_p w P m" for m
  proof -
    have "\<not> (a \<le> 512 * m \<and> 512 * m + 512 \<le> c)" "\<not> (c \<le> 512 * m \<and> 512 * m + 512 \<le> b)"
      using m(2) assms(3,4) by linarith+
    then show ?thesis using assms(1,2) m(1,3) unfolding mapped_def by blast
  qed
  ultimately show ?thesis by (simp add: mapped_def)
qed

lemma mapped_nosect:
  "mapped of_p w w' P a b pa at \<Longrightarrow> \<not> (a \<le> 512 * m \<and> 512 * m + 512 \<le> b) \<Longrightarrow> m < 2 ^ 18 \<Longrightarrow> nosect of_p w P m \<Longrightarrow> nosect of_p w' P m"
  unfolding mapped_def by blast

text \<open>The number of blocks of \<open>k\<close> pages that the pages from \<open>a\<close> to \<open>b\<close> touch.\<close>

definition slots :: "nat \<Rightarrow> nat \<Rightarrow> nat \<Rightarrow> nat" where
  "slots k a b = (if a < b then (b - 1) div k + 1 - a div k else 0)"

lemma slots_next:
  assumes "a < b" "0 < k" "c = min (k * (a div k + 1)) b"
  shows "slots k a b = Suc (slots k c b)"
proof (cases "c < b")
  case True
  then have c: "c = k * (a div k + 1)" using assms(3) by simp
  then have d: "c div k = a div k + 1" using assms(2) by simp
  have "a div k + 1 \<le> (b - 1) div k" unfolding d [symmetric] using True by (intro div_le_mono) simp
  then show ?thesis using True assms(1) d by (simp add: slots_def)
next
  case False
  then have "b \<le> k * (a div k + 1)" using assms(3) by simp
  then have "b - 1 < (a div k + 1) * k" using assms(1) by (simp add: mult.commute)
  then have "(b - 1) div k < a div k + 1" using assms(2) by (simp only: div_less_iff_less_mult)
  moreover have "a div k \<le> (b - 1) div k" using assms(1) by (intro div_le_mono) simp
  ultimately show ?thesis using False assms(1) by (simp add: slots_def)
qed

lemma slots_split:
  assumes "a < c" "c \<le> b" "c < b \<Longrightarrow> k dvd c" "0 < k"
  shows "slots k a b = slots k a c + slots k c b"
proof (cases "c < b")
  case True
  then obtain d where d: "c = k * d" using assms(3) by (auto elim: dvdE)
  have "0 < d" using d assms(1) by (cases d) simp_all
  then obtain e where e: "d = Suc e" by (cases d) simp_all
  have "(c - 1) div k = e" using assms(4) by (intro div_nat_eqI) (simp_all add: d e)
  then have c1: "(c - 1) div k + 1 = d" by (simp add: e)
  have "a div k < d" using assms(1,4) d by (simp add: div_less_iff_less_mult mult.commute)
  moreover have "c div k \<le> (b - 1) div k" using True by (intro div_le_mono) simp
  moreover have "c div k = d" using d assms(4) by simp
  ultimately show ?thesis using True assms(1) c1 by (simp add: slots_def)
qed (use assms in \<open>simp add: slots_def\<close>)

text \<open>Virtual addresses by page number: \<open>vpage v a\<close> when \<open>v\<close> is page \<open>a\<close> of its 512 GiB window.\<close>

definition vpage :: "nat \<Rightarrow> u64 \<Rightarrow> nat \<Rightarrow> bool" where
  "vpage g v a \<longleftrightarrow> unat v = 2 ^ 39 * g + 4096 * a"

lemma slot_of_idx:
  fixes idx :: u64
  shows "unat idx = j \<Longrightarrow> p + 8 * idx = slot p j"
  by (auto simp: slot_def)

lemma vpage_idx:
  assumes "vpage g v a"
  shows "p + 8 * (drop_bit PAGE_SHIFT v AND (PTRS_PER_PTE - 1)) = slot p (a mod 512)"
    "p + 8 * (drop_bit PMD_SHIFT v AND (PTRS_PER_PMD - 1)) = slot p (a div 512 mod 512)"
    "p + 8 * (drop_bit PGDIR_SHIFT v AND (PTRS_PER_PGD - 1)) = slot p (a div 512 div 512 mod 512)"
proof -
  have u: "unat v = 2 ^ 39 * g + 4096 * a" using assms by (simp add: vpage_def)
  have d: "unat v div 2 ^ 12 = 512 * (2 ^ 18 * g) + a" "unat v div 2 ^ 21 = 512 * (2 ^ 9 * g) + a div 512"
    "unat v div 2 ^ 30 = 512 * g + a div 512 div 512"
    unfolding u by (simp_all add: div_mult2_eq [symmetric])
  have e: "unat (drop_bit k v AND mask 9) = unat v div 2 ^ k mod 512" for k
    by (subst unat_and_mask) (simp_all only: unat_drop_bit_eq, simp_all add: drop_bit_eq_div)
  show "p + 8 * (drop_bit PAGE_SHIFT v AND (PTRS_PER_PTE - 1)) = slot p (a mod 512)"
    unfolding pg_values by (rule slot_of_idx, unfold e d, rule mod_mult_self4)
  show "p + 8 * (drop_bit PMD_SHIFT v AND (PTRS_PER_PMD - 1)) = slot p (a div 512 mod 512)"
    unfolding pg_values by (rule slot_of_idx, unfold e d, rule mod_mult_self4)
  show "p + 8 * (drop_bit PGDIR_SHIFT v AND (PTRS_PER_PGD - 1)) = slot p (a div 512 div 512 mod 512)"
    unfolding pg_values by (rule slot_of_idx, unfold e d, rule mod_mult_self4)
qed

lemma vpage_next:
  assumes v: "vpage g v a" "vpage g fin b" and ab: "a < b" and s: "k \<le> 18" and f: "unat fin + 2 ^ 30 \<le> 2 ^ 64"
  defines "c \<equiv> min (2 ^ k * (a div 2 ^ k + 1)) b" and "next \<equiv> next_addr (2 ^ (12 + k)) (NOT (mask (12 + k))) v fin"
  shows "vpage g next c" "a < c" "next - v = 4096 * word_of_nat (c - a)"
proof -
  have u: "unat v = 2 ^ 39 * g + 4096 * a" "unat fin = 2 ^ 39 * g + 4096 * b" using v by (simp_all add: vpage_def)
  have "(2 :: nat) ^ (12 + k) \<le> 2 ^ 30" using s by (intro power_increasing) simp_all
  then have "unat v + 2 ^ (12 + k) < 2 ^ 64" using u ab f by linarith
  then have n: "unat next = min ((unat v div 2 ^ (12 + k) + 1) * 2 ^ (12 + k)) (unat fin)"
    unfolding next_def using s by (intro unat_next_addr) simp_all
  have g: "(2 :: nat) ^ 39 * g = 2 ^ (12 + k) * (2 ^ (27 - k) * g)"
    using s by (simp add: mult.assoc [symmetric] power_add [symmetric])
  have q: "(2 :: nat) ^ (12 + k) = 4096 * 2 ^ k" by (simp add: power_add)
  have "4096 * a div 2 ^ (12 + k) = a div 2 ^ k" unfolding q by simp
  then have "unat v div 2 ^ (12 + k) = 2 ^ (27 - k) * g + a div 2 ^ k"
    unfolding u g by (subst div_mult_self4) simp_all
  then have m: "(unat v div 2 ^ (12 + k) + 1) * 2 ^ (12 + k) = 2 ^ 39 * g + 4096 * (2 ^ k * (a div 2 ^ k + 1))"
    unfolding g by (simp only: q) (simp only: algebra_simps)
  show vn: "vpage g next c"
    unfolding vpage_def n m u(2) c_def by (simp add: min_def)
  have "a < 2 ^ k * (a div 2 ^ k + 1)" using dividend_less_times_div [of "2 ^ k" a] by (simp add: algebra_simps)
  then show ac: "a < c" using ab by (simp add: c_def)
  have un: "unat next = unat v + 4096 * (c - a)" using vn u(1) ac by (simp add: vpage_def)
  then have d: "unat (next - v) = 4096 * (c - a)" by (simp add: unat_sub_if_size word_le_nat_alt)
  have "next - v = word_of_nat (unat (next - v))" by simp
  then show "next - v = 4096 * word_of_nat (c - a)" unfolding d by (simp only: of_nat_mult of_nat_numeral)
qed

lemma slot_add: "slot p (k + m) = slot p k + 8 * word_of_nat m"
  by (simp add: slot_def algebra_simps)

lemma eq_by_512: "x div 512 = m div 512 \<and> x mod 512 = m mod 512 \<longleftrightarrow> x = (m :: nat)"
  by (metis div_mult_mod_eq)

lemma paddr_page:
  assumes "page_aligned pa" "unat pa + 4096 * m \<le> 2 ^ 48"
  shows "unat (pa + 4096 * word_of_nat m) = unat pa + 4096 * m" "page_aligned (pa + 4096 * word_of_nat m)"
proof -
  have "unat (word_of_nat (4096 * m) :: u64) = 4096 * m" using assms(2) by (intro unat_of_nat_small) simp
  then have "unat (4096 * word_of_nat m :: u64) = 4096 * m" by simp
  then show u: "unat (pa + 4096 * word_of_nat m) = unat pa + 4096 * m"
    using assms(2) by (subst unat_add_small) simp_all
  show "page_aligned (pa + 4096 * word_of_nat m)"
    using assms(1) unfolding page_aligned_def u by auto
qed

text \<open>A run of page descriptors in a leaf table.\<close>

lemma put_run_slots:
  assumes "page_aligned q" "k + n \<le> 512"
  shows "page_aligned p \<Longrightarrow> p \<noteq> q \<Longrightarrow> l < 512 \<Longrightarrow> put_run w (slot q k) n f (slot p l) = w (slot p l)"
    "l < 512 \<Longrightarrow> put_run w (slot q k) n f (slot q l) = (if k \<le> l \<and> l < k + n then f (l - k) else w (slot q l))"
proof -
  show "put_run w (slot q k) n f (slot p l) = w (slot p l)" if "page_aligned p" "p \<noteq> q" "l < 512"
  proof (rule put_run_outside)
    fix m assume "m < n"
    then show "slot p l \<noteq> slot q k + 8 * word_of_nat m"
      unfolding slot_add [symmetric] using that assms slot_eq_iff [of p q l "k + m"] by auto
  qed
  assume l: "l < 512"
  show "put_run w (slot q k) n f (slot q l) = (if k \<le> l \<and> l < k + n then f (l - k) else w (slot q l))"
  proof (cases "k \<le> l \<and> l < k + n")
    case True
    then have "slot q l = slot q k + 8 * word_of_nat (l - k)" by (simp add: slot_def)
    then show ?thesis using True assms put_run_inside [of n "l - k" w "slot q k" f] by auto
  next
    case False
    have "put_run w (slot q k) n f (slot q l) = w (slot q l)"
    proof (rule put_run_outside)
      fix m assume "m < n"
      then show "slot q l \<noteq> slot q k + 8 * word_of_nat m"
        unfolding slot_add [symmetric] using False l assms slot_eq_iff [of q q l "k + m"] by auto
    qed
    then show ?thesis using False by auto
  qed
qed

text \<open>
  The pages of a request, and what a request must satisfy: aligned addresses inside one 512 GiB
  window that does not touch the last GiB, frames below \<open>2 ^ 48\<close>, attributes outside the address bits.
\<close>

definition pages_for :: "u64 \<Rightarrow> nat" where
  "pages_for sz = (unat sz + 4095) div 4096"

text \<open>
  The number of tables that mapping \<open>sz\<close> bytes from page \<open>a\<close> on can need.  A range of whole sections is mapped without tables of the last level; \<open>s\<close> is 0 when it is known
  that this is so, and otherwise 1.
\<close>

definition whole_sections :: "nat \<Rightarrow> nat \<Rightarrow> u64 \<Rightarrow> bool" where
  "whole_sections a b pa \<longleftrightarrow> 512 dvd a \<and> 512 dvd b \<and> pa AND mask 21 = 0"

definition tables_need :: "nat \<Rightarrow> nat \<Rightarrow> u64 \<Rightarrow> nat" where
  "tables_need s a sz = s * slots 512 a (a + pages_for sz) + slots (2 ^ 18) a (a + pages_for sz)"

definition tables_for :: "nat \<Rightarrow> u64 \<Rightarrow> nat" where
  "tables_for a sz = slots 512 a (a + pages_for sz) + slots (2 ^ 18) a (a + pages_for sz)"

definition map_request :: "nat \<Rightarrow> u64 \<Rightarrow> u64 \<Rightarrow> u64 \<Rightarrow> u64 \<Rightarrow> nat \<Rightarrow> bool" where
  "map_request g v pa sz attr a \<longleftrightarrow> vpage g v a \<and> a + pages_for sz \<le> 2 ^ 27 \<and> sz \<noteq> 0 \<and>
     unat v + 4096 * pages_for sz + 2 ^ 30 \<le> 2 ^ 64 \<and>
     page_aligned pa \<and> unat pa + 4096 * pages_for sz \<le> 2 ^ 48 \<and> attr AND PA_MASK = 0"

lemma map_request_fin:
  assumes "map_request g v pa sz attr a"
  shows "vpage g (ALIGN (v + sz) PAGE_SIZE) (a + pages_for sz)" "unat (ALIGN (v + sz) PAGE_SIZE) + 2 ^ 30 \<le> 2 ^ 64"
    "page_aligned v" "unat sz \<le> 2 ^ 39"
proof -
  have v: "unat v = 2 ^ 39 * g + 4096 * a" using assms by (simp add: map_request_def vpage_def)
  have "unat v = 4096 * (2 ^ 27 * g + a)" using v by simp
  then obtain r where r: "unat v = 4096 * r" by blast
  show "page_aligned v" using r by (simp add: page_aligned_def)
  have sz: "unat sz \<le> 4096 * pages_for sz" unfolding pages_for_def by linarith
  then show "unat sz \<le> 2 ^ 39" using assms by (simp add: map_request_def)
  have nw: "unat v + 4096 * pages_for sz + 2 ^ 30 \<le> 2 ^ 64" using assms by (simp add: map_request_def)
  have u: "unat (v + sz) = unat v + unat sz" using sz nw by (intro unat_add_small) simp
  have "unat (ALIGN (v + sz) PAGE_SIZE) = (unat (v + sz) + 4096 - 1) div 4096 * 4096"
    using sz nw u by (subst unat_ALIGN) (simp_all add: pg_values)
  also have "unat (v + sz) + 4096 - 1 = 4096 * r + (unat sz + 4095)" unfolding u r by simp
  also have "(4096 * r + (unat sz + 4095)) div 4096 * 4096 = unat v + 4096 * pages_for sz" unfolding pages_for_def r by (subst div_mult_self4) simp_all
  finally have f: "unat (ALIGN (v + sz) PAGE_SIZE) = unat v + 4096 * pages_for sz" .
  then show "unat (ALIGN (v + sz) PAGE_SIZE) + 2 ^ 30 \<le> 2 ^ 64" using nw by simp
  show "vpage g (ALIGN (v + sz) PAGE_SIZE) (a + pages_for sz)" using f v by (simp add: vpage_def)
qed

lemma page_aligned_bitmask: "page_aligned p \<longleftrightarrow> p AND bitmask PAGE_SHIFT = 0"
proof -
  have "bitmask PAGE_SHIFT = (mask 12 :: u64)" by (simp add: bitmask_def k_bit_def PAGE_SHIFT_def mask_eq_exp_minus_1)
  then show ?thesis by (simp add: page_aligned_and)
qed

text \<open>A table of zeros maps nothing.\<close>

context table_pages
begin

lemma empty_table:
  assumes "page_aligned P" "P \<notin> F" "\<And>i. i < 512 \<Longrightarrow> w (slot P i) = 0"
  shows "pt_wf to_p of_p page_ok w P F" "n < 2 ^ 27 \<Longrightarrow> xl of_p w P n = None" "l < 2 ^ 18 \<Longrightarrow> nosect of_p w P l"
proof -
  have m: "mid_of of_p w P i = None" for i using assms(3) by (simp add: mid_of_def Let_def)
  then have l: "leaf_of of_p w P i j = None" for i j by (simp add: leaf_of_def)
  have p: "page_of of_p w P a = Some p \<Longrightarrow> a = Root" for a p by (cases a) (simp_all add: m l)
  show wf: "pt_wf to_p of_p page_ok w P F"
  proof (rule wfI)
    fix a b p assume "page_of of_p w P a = Some p" "page_of of_p w P b = Some p"
    then show "a = b" using p [of a] p [of b] by blast
  next
    fix a p assume "page_of of_p w P a = Some p" "a \<noteq> Root"
    then show "page_ok p \<and> p \<notin> F" using p [of a] by blast
  qed (use assms m in simp_all)
  show x: "xl of_p w P n = None" if "n < 2 ^ 27" for n
    using xl_eq [OF wf that] m by simp
  show "nosect of_p w P l" if "l < 2 ^ 18"
    using x [of "512 * l"] that by (simp add: nosect_def)
qed

end

text \<open>What the mapping code relies on from the allocator of table pages.\<close>

locale table_alloc = table_pages +
  fixes alloc :: "'h pt_alloc_fn" and hinv :: "'h pts \<Rightarrow> bool" and frees :: "'h \<Rightarrow> u64 set" and room :: "'h \<Rightarrow> nat"
  assumes frees_ok: "hinv st \<Longrightarrow> q \<in> frees (heap st) \<Longrightarrow> page_ok q"
    and hinv_frame: "hinv st \<Longrightarrow> (\<And>q j. q \<in> frees (heap st) \<Longrightarrow> j < 512 \<Longrightarrow> w (slot q j) = words st (slot q j)) \<Longrightarrow>
      hinv (st\<lparr>words := w\<rparr>)"
    and alloc_ok: "hinv st \<Longrightarrow> 0 < room (heap st) \<Longrightarrow>
    \<exists>q st'. alloc PAGE_SIZE st = Some (q, st') \<and> q \<in> frees (heap st) \<and>
      frees (heap st') \<subseteq> frees (heap st) - {q} \<and> hinv st' \<and> room (heap st) \<le> Suc (room (heap st')) \<and>
      (\<forall>j < 512. words st' (slot q j) = 0) \<and>
      (\<forall>p j. page_aligned p \<longrightarrow> p \<noteq> q \<longrightarrow> j < 512 \<longrightarrow> words st' (slot p j) = words st (slot p j))"

context table_alloc
begin

definition tinv :: "'h pts \<Rightarrow> u64 \<Rightarrow> bool" where
  "tinv st P \<longleftrightarrow> pt_wf to_p of_p page_ok (words st) P (frees (heap st)) \<and> hinv st"

lemma hinv_table:
  assumes "hinv st" "page_aligned p" "p \<notin> frees (heap st)"
    and "\<And>q j. page_aligned q \<Longrightarrow> q \<noteq> p \<Longrightarrow> j < 512 \<Longrightarrow> w (slot q j) = words st (slot q j)"
  shows "hinv (st\<lparr>words := w\<rparr>)"
proof (rule hinv_frame [OF assms(1)])
  fix q j assume q: "q \<in> frees (heap st)" and j: "j < (512 :: nat)"
  have "page_aligned q" "q \<noteq> p" using ok_page [OF frees_ok [OF assms(1) q]] q assms(3) by auto
  then show "w (slot q j) = words st (slot q j)" using assms(4) j by blast
qed

lemma hinv_entry:
  assumes "hinv st" "page_aligned p" "p \<notin> frees (heap st)" "i < 512"
  shows "hinv (st\<lparr>words := (words st)(slot p i := e)\<rparr>)"
  by (rule hinv_table [OF assms(1-3)]) (use slot_eq_iff [OF _ assms(2) _ assms(4)] in auto)

lemma alloc_page:
  assumes "tinv st P" "0 < room (heap st)"
  shows "\<exists>q st'. alloc PAGE_SIZE st = Some (q, st') \<and> page_ok q \<and> q \<in> frees (heap st) \<and>
      frees (heap st') \<subseteq> frees (heap st) - {q} \<and> hinv st' \<and> room (heap st) \<le> Suc (room (heap st')) \<and>
      (\<forall>j < 512. words st' (slot q j) = 0) \<and> same_tables of_p (words st) (words st') P"
proof -
  have wf: "pt_wf to_p of_p page_ok (words st) P (frees (heap st))" and h: "hinv st" using assms(1) by (simp_all add: tinv_def)
  from alloc_ok [OF h assms(2)] obtain q st' where a: "alloc PAGE_SIZE st = Some (q, st') \<and> q \<in> frees (heap st) \<and>
      frees (heap st') \<subseteq> frees (heap st) - {q} \<and> hinv st' \<and> room (heap st) \<le> Suc (room (heap st')) \<and>
      (\<forall>j < 512. words st' (slot q j) = 0)"
    and off: "\<forall>p j. page_aligned p \<longrightarrow> p \<noteq> q \<longrightarrow> j < 512 \<longrightarrow> words st' (slot p j) = words st (slot p j)" by blast
  have "same_tables of_p (words st) (words st') P"
    unfolding same_tables_def using off wfD(5,6) [OF wf] a by blast
  with a frees_ok [OF h] show ?thesis by blast
qed

lemma next_mid:
  assumes inv: "tinv st P" and r: "0 < room (heap st)" and i: "i < 512"
  shows "\<exists>p st'. next_table to_p of_p alloc st (slot P i) = Some (p, st') \<and> mid_of of_p (words st') P i = Some p \<and>
    tinv st' P \<and> room (heap st) \<le> Suc (room (heap st')) \<and> same_xl of_p (words st) (words st') P"
proof (cases "words st (slot P i) = 0")
  case False
  then have "mid_of of_p (words st) P i = Some (of_p (words st (slot P i) AND NOT (mask 12)))" using i by (simp add: mid_of_def Let_def)
  then show ?thesis using False inv by (simp add: next_table_def pg_values same_xl_def)
next
  case True
  have wf: "pt_wf to_p of_p page_ok (words st) P (frees (heap st))" using inv by (simp add: tinv_def)
  obtain q s1 where a: "alloc PAGE_SIZE st = Some (q, s1)" "page_ok q" "q \<in> frees (heap st)"
      "frees (heap s1) \<subseteq> frees (heap st) - {q}" "hinv s1" "room (heap st) \<le> Suc (room (heap s1))"
    and z: "\<And>j. j < 512 \<Longrightarrow> words s1 (slot q j) = 0" and same: "same_tables of_p (words st) (words s1) P"
    using alloc_page [OF inv r] by blast
  have q0: "q \<noteq> 0" using ok_page [OF a(2)] by simp
  have wf1: "pt_wf to_p of_p page_ok (words s1) P (frees (heap st))" by (rule agree_wf [OF wf same])
  have "words s1 (slot P i) = 0" using same_tablesD [OF same, of Root] i True by simp
  note l = link_mid [OF wf1 i this a(2,3) z]
  let ?w = "(words s1)(slot P i := to_p (q OR PMD_TYPE_TABLE))"
  have run: "next_table to_p of_p alloc st (slot P i) = Some (q, s1\<lparr>words := ?w\<rparr>)"
    using True a(1) q0 by (simp add: next_table_def)
  have "hinv (s1\<lparr>words := ?w\<rparr>)" using a(4) wfD(2) [OF wf] by (intro hinv_entry a(5) wfD(1) [OF wf] i) blast
  then have "tinv (s1\<lparr>words := ?w\<rparr>) P" using wf_mono [OF l(3) a(4)] by (simp add: tinv_def)
  moreover have "same_xl of_p (words st) ?w P"
    by (rule same_xlI) (simp_all add: l(4) agree_xl [OF wf same] l(2) agree_pages(2) [OF same])
  ultimately show ?thesis using run a(6) l(1) by simp
qed

lemma nosect_entry:
  assumes wf: "pt_wf to_p of_p page_ok w P F" and p: "mid_of of_p w P i = Some p" and j: "j < 512"
    and no: "nosect of_p w P (512 * i + j)" and nz: "w (slot p j) \<noteq> 0"
  shows "w (slot p j) AND 3 = 3"
proof (rule ccontr)
  assume "w (slot p j) AND 3 \<noteq> 3"
  then have s: "w (slot p j) AND 3 = 1" using wfD(9) [OF wf p j] nz and3_cases [of "w (slot p j)"] by blast
  have i: "i < 512" by (rule mid_of_less [OF p])
  then have n: "512 * (512 * i + j) < 2 ^ 27" using j by simp
  have ix: "512 * (512 * i + j) div 512 div 512 = i" "512 * (512 * i + j) div 512 mod 512 = j" using j by simp_all
  have none: "leaf_of of_p w P i j = None" using p s by (simp add: leaf_of_def Let_def)
  then have "xl of_p w P (512 * (512 * i + j)) = sect_xl (w (slot p j)) 0"
    unfolding xl_eq [OF wf n] ix using p by simp
  then show False using no none s j by (simp add: nosect_def sect_xl_def)
qed

lemma next_leaf:
  assumes inv: "tinv st P" and r: "0 < room (heap st)" and p: "mid_of of_p (words st) P i = Some p" and j: "j < 512"
    and no: "nosect of_p (words st) P (512 * i + j)"
  shows "\<exists>q st'. next_table to_p of_p alloc st (slot p j) = Some (q, st') \<and> leaf_of of_p (words st') P i j = Some q \<and>
    mid_of of_p (words st') P = mid_of of_p (words st) P \<and>
    tinv st' P \<and> room (heap st) \<le> Suc (room (heap st')) \<and> same_xl of_p (words st) (words st') P"
proof (cases "words st (slot p j) = 0")
  case False
  have wf: "pt_wf to_p of_p page_ok (words st) P (frees (heap st))" using inv by (simp add: tinv_def)
  have "leaf_of of_p (words st) P i j = Some (of_p (words st (slot p j) AND NOT (mask 12)))"
    using nosect_entry [OF wf p j no False] j p by (simp add: leaf_of_def Let_def)
  then show ?thesis using False inv by (simp add: next_table_def pg_values same_xl_def)
next
  case True
  have wf: "pt_wf to_p of_p page_ok (words st) P (frees (heap st))" using inv by (simp add: tinv_def)
  obtain q s1 where a: "alloc PAGE_SIZE st = Some (q, s1)" "page_ok q" "q \<in> frees (heap st)"
      "frees (heap s1) \<subseteq> frees (heap st) - {q}" "hinv s1" "room (heap st) \<le> Suc (room (heap s1))"
    and z: "\<And>j. j < 512 \<Longrightarrow> words s1 (slot q j) = 0" and same: "same_tables of_p (words st) (words s1) P"
    using alloc_page [OF inv r] by blast
  have q0: "q \<noteq> 0" using ok_page [OF a(2)] by simp
  have wf1: "pt_wf to_p of_p page_ok (words s1) P (frees (heap st))" by (rule agree_wf [OF wf same])
  note pages = agree_pages [OF same]
  have p1: "mid_of of_p (words s1) P i = Some p" using p pages by simp
  have "words s1 (slot p j) = 0" using same_tablesD [OF same, of "Mid i"] j p True by simp
  note l = link_leaf [OF wf1 p1 j this a(2,3) z]
  let ?w = "(words s1)(slot p j := to_p (q OR PMD_TYPE_TABLE))"
  have run: "next_table to_p of_p alloc st (slot p j) = Some (q, s1\<lparr>words := ?w\<rparr>)"
    using True a(1) q0 by (simp add: next_table_def)
  have "page_aligned p" "p \<notin> frees (heap s1)" using wfD(5,6) [OF wf, of "Mid i" p] p a(4) by auto
  then have "hinv (s1\<lparr>words := ?w\<rparr>)" by (intro hinv_entry a(5) j)
  then have "tinv (s1\<lparr>words := ?w\<rparr>) P" using wf_mono [OF l(3) a(4)] by (simp add: tinv_def)
  moreover have "same_xl of_p (words st) ?w P"
    by (rule same_xlI) (simp_all add: l(4) agree_xl [OF wf same] l(2) pages)
  ultimately show ?thesis using run a(6) l(1,2) pages by simp
qed


lemma leaf_run_mapped:
  assumes wf: "pt_wf to_p of_p page_ok w P F" and q: "leaf_of of_p w P (m div 512) (m mod 512) = Some q"
    and a: "a div 512 = m" "a < c" "c \<le> 512 * (m + 1)"
    and pa: "page_aligned pa" "unat pa + 4096 * (c - a) \<le> 2 ^ 48" and at: "attr AND PA_MASK = 0"
  defines "w' \<equiv> put_run w (slot q (a mod 512)) (c - a) (\<lambda>l. page_desc (pa + 4096 * word_of_nat l) attr)"
  shows "pt_wf to_p of_p page_ok w' P F" "mapped of_p w w' P a c pa (attr AND ATTRS)" "mid_of of_p w' P = mid_of of_p w P"
    "page_aligned p \<Longrightarrow> p \<noteq> q \<Longrightarrow> l < 512 \<Longrightarrow> w' (slot p l) = w (slot p l)"
proof -
  have al: "page_aligned q" using wfD(6) [OF wf, of "Leaf (m div 512) (m mod 512)"] q by simp
  have am: "a = 512 * m + a mod 512" using a(1) by auto
  obtain k where k': "a mod 512 = k" by simp
  obtain d where d: "c - a = d" "c = a + d" using a(2) by (metis add_diff_inverse_nat not_less_iff_gr_or_eq)
  have k: "a mod 512 + (c - a) \<le> 512" using a(3) am d(2) unfolding k' d(1) by simp
  note sl = put_run_slots [OF al k, where w = w and f = "\<lambda>l. page_desc (pa + 4096 * word_of_nat l) attr", folded w'_def]
  have pl: "mid_of of_p w' P = mid_of of_p w P" "leaf_of of_p w' P = leaf_of of_p w P" "pt_wf to_p of_p page_ok w' P F"
    "n < 2 ^ 27 \<Longrightarrow> xl of_p w' P n = (if n div 512 div 512 = m div 512 \<and> n div 512 mod 512 = m mod 512
        then pte_xl (w' (slot q (n mod 512))) else xl of_p w P n)" for n
    by (rule put_leaf [OF wf q], erule (2) sl(1), assumption?)+
  show "pt_wf to_p of_p page_ok w' P F" "mid_of of_p w' P = mid_of of_p w P" by (rule pl)+
  show "page_aligned p \<Longrightarrow> p \<noteq> q \<Longrightarrow> l < 512 \<Longrightarrow> w' (slot p l) = w (slot p l)" by (rule sl(1))
  have x: "xl of_p w' P n = (if a \<le> n \<and> n < c then Some (pa + 4096 * word_of_nat (n - a), attr AND ATTRS) else xl of_p w P n)"
    if n: "n < 2 ^ 27" for n
  proof (cases "n div 512 = m")
    case False
    then have "\<not> (a \<le> n \<and> n < c)" using a am by auto
    then show ?thesis using pl(4) [OF n] False eq_by_512 [of "n div 512" m] by auto
  next
    case True
    then have nm: "n = 512 * m + n mod 512" by auto
    obtain r where r: "n mod 512 = r" by simp
    have e: "xl of_p w' P n = pte_xl (w' (slot q (n mod 512)))" using pl(4) [OF n] True by simp
    show ?thesis
    proof (cases "a \<le> n \<and> n < c")
      case True
      then have "a mod 512 \<le> n mod 512 \<and> n mod 512 < a mod 512 + (c - a)"
        using am nm d(2) unfolding k' r d(1) by simp
      moreover have "n mod 512 - a mod 512 = n - a" using am nm unfolding k' r by simp
      ultimately have "w' (slot q (n mod 512)) = page_desc (pa + 4096 * word_of_nat (n - a)) attr" using sl(2) [of "n mod 512"] by simp
      moreover have lt: "unat pa + 4096 * (n - a) < 2 ^ 48"
        using diff_less_mono [of n c a] True pa(2) by linarith
      have "pte_xl (page_desc (pa + 4096 * word_of_nat (n - a)) attr) = Some (pa + 4096 * word_of_nat (n - a), attr AND ATTRS)"
        by (rule page_desc_xl) (use paddr_page [OF pa(1) less_imp_le [OF lt]] lt at in simp_all)
      ultimately show ?thesis using e True by simp
    next
      case False
      then have "\<not> (a mod 512 \<le> n mod 512 \<and> n mod 512 < a mod 512 + (c - a))" using am nm d(2) unfolding k' r d(1) by simp
      then have "w' (slot q (n mod 512)) = w (slot q (n mod 512))" using sl(2) [of "n mod 512"] by auto
      moreover have "xl of_p w P n = pte_xl (w (slot q (n mod 512)))"
        unfolding xl_eq [OF wf n] True using q leaf_of_mid [OF q] by auto
      ultimately show ?thesis using e False by auto
    qed
  qed
  have "nosect of_p w' P l" if "l < 2 ^ 18" "nosect of_p w P l" for l
  proof (cases "l = m")
    case False
    then have "\<not> (a \<le> 512 * l \<and> 512 * l < c)" using a am by auto
    then show ?thesis using x [of "512 * l"] that by (auto simp: nosect_def pl(2))
  qed (simp add: nosect_def pl(2) q)
  with x show "mapped of_p w w' P a c pa (attr AND ATTRS)" unfolding mapped_def by blast
qed

lemma gen_pte_map_ok:
  assumes inv: "tinv st P" and r: "0 < room (heap st)" and p: "mid_of of_p (words st) P (m div 512) = Some p"
    and no: "nosect of_p (words st) P m" and a: "a div 512 = m" "a < c" "c \<le> 512 * (m + 1)"
    and v: "vpage g v a" "vpage g fin c" and pa: "page_aligned pa" "unat pa + 4096 * (c - a) \<le> 2 ^ 48" and at: "attr AND PA_MASK = 0"
  shows "\<exists>st'. gen_pte_map to_p of_p alloc st (slot p (m mod 512)) v fin pa attr = Some st' \<and> tinv st' P \<and>
    room (heap st) \<le> Suc (room (heap st')) \<and> mapped of_p (words st) (words st') P a c pa (attr AND ATTRS) \<and>
    mid_of of_p (words st') P = mid_of of_p (words st) P"
proof -
  have "nosect of_p (words st) P (512 * (m div 512) + m mod 512)" using no by simp
  from next_leaf [OF inv r p _ this] obtain q s1 where
    n: "next_table to_p of_p alloc st (slot p (m mod 512)) = Some (q, s1)" "leaf_of of_p (words s1) P (m div 512) (m mod 512) = Some q"
    and s1: "mid_of of_p (words s1) P = mid_of of_p (words st) P" "tinv s1 P" "room (heap st) \<le> Suc (room (heap s1))"
      "same_xl of_p (words st) (words s1) P" by auto
  have wf: "pt_wf to_p of_p page_ok (words s1) P (frees (heap s1))" using s1(2) by (simp add: tinv_def)
  let ?w = "put_run (words s1) (slot q (a mod 512)) (c - a) (\<lambda>l. page_desc (pa + 4096 * word_of_nat l) attr)"
  have "unat fin = unat v + 4096 * (c - a)" "page_aligned v" using v a(2) by (auto simp: vpage_def page_aligned_def)
  moreover from this have "unat v + 4096 * (c - a) < 2 ^ 64" using unat_u64_bound [of fin] by simp
  ultimately have run: "pte_loop (words s1) (slot q (a mod 512)) v fin pa attr = Some ?w" by (intro pte_loop_run)
  note l = leaf_run_mapped [OF wf n(2) a pa at]
  have "gen_pte_map to_p of_p alloc st (slot p (m mod 512)) v fin pa attr = Some (s1\<lparr>words := ?w\<rparr>)"
    using run by (simp add: gen_pte_map_def n(1) vpage_idx(1) [OF v(1)])
  moreover have "page_aligned q" "q \<notin> frees (heap s1)"
    using wfD(5,6) [OF wf, of "Leaf (m div 512) (m mod 512)" q] n(2) by simp_all
  then have "hinv (s1\<lparr>words := ?w\<rparr>)" using s1(2) l(4) by (intro hinv_table [of s1 q]) (simp_all add: tinv_def)
  then have "tinv (s1\<lparr>words := ?w\<rparr>) P" using l(1) by (simp add: tinv_def)
  moreover have "mapped of_p (words st) ?w P a c pa (attr AND ATTRS)" by (rule same_mapped [OF s1(4) l(2)])
  ultimately show ?thesis using l(3) s1(1,3) by simp
qed

lemma section_mapped:
  assumes wf: "pt_wf to_p of_p page_ok w P F" and p: "mid_of of_p w P (m div 512) = Some p"
    and pa: "pa AND mask 21 = 0" "unat pa < 2 ^ 48" and at: "attr AND PA_MASK = 0"
  defines "w' \<equiv> w(slot p (m mod 512) := sect_desc pa attr)"
  shows "pt_wf to_p of_p page_ok w' P F" "mapped of_p w w' P (512 * m) (512 * (m + 1)) pa (attr AND ATTRS)"
    "mid_of of_p w' P = mid_of of_p w P"
proof -
  have j: "m mod 512 < 512" by simp
  note s = put_section [OF wf p j sect_desc_xl(1) [OF pa at], folded w'_def]
  show "pt_wf to_p of_p page_ok w' P F" by (rule s)
  show "mid_of of_p w' P = mid_of of_p w P" unfolding w'_def by (rule put_entry_mid [OF wf p j])
  have x: "xl of_p w' P n = (if 512 * m \<le> n \<and> n < 512 * (m + 1) then Some (pa + 4096 * word_of_nat (n - 512 * m), attr AND ATTRS) else xl of_p w P n)"
    if n: "n < 2 ^ 27" for n
  proof (cases "n div 512 = m")
    case True
    then have "n = 512 * m + n mod 512" by auto
    then have "512 * m \<le> n \<and> n < 512 * (m + 1)" "n mod 512 = n - 512 * m" by auto
    then show ?thesis using s(3) [OF n] True sect_desc_xl(2) [OF pa at, of "n - 512 * m"] by simp
  next
    case False
    then have "\<not> (512 * m \<le> n \<and> n < 512 * (m + 1))" by auto
    then show ?thesis using s(3) [OF n] False eq_by_512 [of "n div 512" m] by auto
  qed
  have "nosect of_p w' P l" if "l < 2 ^ 18" "\<not> (512 * m \<le> 512 * l \<and> 512 * l + 512 \<le> 512 * (m + 1))" "nosect of_p w P l" for l
  proof -
    have lm: "l \<noteq> m" using that(2) by auto
    then have "\<not> (512 * m \<le> 512 * l \<and> 512 * l < 512 * (m + 1))" by auto
    moreover have "leaf_of of_p w' P (l div 512) (l mod 512) = leaf_of of_p w P (l div 512) (l mod 512)"
      using s(1) [of "l div 512" "l mod 512"] lm eq_by_512 [of l m] by auto
    ultimately show ?thesis using x [of "512 * l"] that(1,3) by (auto simp: nosect_def)
  qed
  with x show "mapped of_p w w' P (512 * m) (512 * (m + 1)) pa (attr AND ATTRS)" unfolding mapped_def by blast
qed

lemma section_aligned: "vpage g v a \<Longrightarrow> 512 dvd a \<Longrightarrow> v AND mask 21 = 0"
proof -
  assume v: "vpage g v a" and a: "512 dvd a"
  obtain d where "a = 512 * d" using a by blast
  then have "unat v = 2 ^ 21 * (2 ^ 18 * g + d)" using v by (simp add: vpage_def)
  then have "unat v mod 2 ^ 21 = 0" by (simp only: mod_mult_self1_is_0)
  then show ?thesis using unat_and_mask [of 21 v] by (simp add: unat_eq_zero)
qed

lemma pmd_step_ok:
  assumes inv: "tinv st P" and s: "s = 1 \<or> s = 0 \<and> whole_sections a c pa" and r: "s \<le> room (heap st)" and p: "mid_of of_p (words st) P (m div 512) = Some p"
    and no: "nosect of_p (words st) P m" and a: "a div 512 = m" "a < c" "c \<le> 512 * (m + 1)"
    and v: "vpage g v a" "vpage g fin c" and pa: "page_aligned pa" "unat pa + 4096 * (c - a) \<le> 2 ^ 48" and at: "attr AND PA_MASK = 0"
  shows "\<exists>st'. pmd_step to_p of_p alloc st (slot p (m mod 512)) v fin pa attr = Some st' \<and> tinv st' P \<and>
    room (heap st) \<le> room (heap st') + s \<and> mapped of_p (words st) (words st') P a c pa (attr AND ATTRS) \<and>
    mid_of of_p (words st') P = mid_of of_p (words st) P"
proof (cases "(v OR fin OR pa) AND NOT SECTION_MASK = 0")
  case False
  have "s = 1"
  proof (rule ccontr)
    assume "s \<noteq> 1"
    then have w: "512 dvd a" "512 dvd c" "pa AND mask 21 = 0" using s by (auto simp: whole_sections_def)
    have "v AND mask 21 = 0" "fin AND mask 21 = 0" using v w(1,2) section_aligned by blast+
    then show False using w(3) False unfolding pg_values by (simp add: bit.conj_disj_distrib2)
  qed
  then show ?thesis using gen_pte_map_ok [OF inv _ p no a v pa at] r False by (simp add: pmd_step_def)
next
  case True
  then have z: "v AND mask 21 = 0" "fin AND mask 21 = 0" "pa AND mask 21 = 0"
    unfolding pg_values by (simp_all add: bit.conj_disj_distrib2 or_eq_0_iff)
  have low: "x mod 512 = 0" if "vpage g u x" "u AND mask 21 = 0" for u x
  proof -
    have "unat u mod 2 ^ 21 = 0" using unat_and_mask [of 21 u] that(2) by simp
    moreover have "unat u = 2 ^ 21 * (2 ^ 18 * g) + 4096 * x" using that(1) by (simp add: vpage_def)
    ultimately have "4096 * x mod (4096 * 512) = 0" by (simp only: mod_mult_self4) simp
    then show ?thesis unfolding mult_mod_right [symmetric] by simp
  qed
  have ac: "a = 512 * m" using low [OF v(1) z(1)] a(1) by auto
  have "c mod 512 = 0" by (rule low [OF v(2) z(2)])
  then obtain d where "c = 512 * d" by auto
  then have cc: "c = 512 * (m + 1)" using a(2,3) unfolding ac by simp
  have wf: "pt_wf to_p of_p page_ok (words st) P (frees (heap st))" using inv by (simp add: tinv_def)
  have lt: "unat pa < 2 ^ 48" using pa(2) a(2) by simp
  note s = section_mapped [OF wf p z(3) lt at]
  have "page_aligned p" "p \<notin> frees (heap st)" using wfD(5,6) [OF wf, of "Mid (m div 512)" p] p by auto
  then have "hinv (st\<lparr>words := (words st)(slot p (m mod 512) := sect_desc pa attr)\<rparr>)"
    using inv by (intro hinv_entry) (simp_all add: tinv_def)
  then show ?thesis using True s by (simp add: pmd_step_def tinv_def ac cc sect_desc_def [symmetric])
qed

lemma mapped_empty: "mapped of_p w w P a a pa at"
  by (auto simp: mapped_def)

lemma section_paddr: "512 dvd a \<Longrightarrow> 512 dvd c \<Longrightarrow> a < c \<Longrightarrow> pa AND mask 21 = 0 \<Longrightarrow> (pa + 4096 * word_of_nat (c - a)) AND mask 21 = 0" for pa :: u64
proof -
  assume a: "512 dvd a" "512 dvd c" "a < c" and pa: "pa AND mask 21 = 0"
  have "512 dvd c - a" using a by (meson dvd_diff_nat)
  then obtain d where d: "c - a = 512 * d" by blast
  have "2 ^ 21 dvd unat pa" using pa unat_and_mask [of 21 pa] by (simp add: dvd_eq_mod_eq_0)
  moreover have "4096 * word_of_nat (c - a) = (word_of_nat (2 ^ 21 * d) :: u64)" by (simp add: d)
  then have "unat (4096 * word_of_nat (c - a) :: u64) = 2 ^ 21 * d mod 2 ^ 64" by (simp only: unat_of_nat) simp
  then have "2 ^ 21 dvd unat (4096 * word_of_nat (c - a) :: u64)" by (simp add: dvd_mod)
  ultimately have "2 ^ 21 dvd (unat pa + unat (4096 * word_of_nat (c - a) :: u64)) mod 2 ^ 64"
    by (intro dvd_mod dvd_add) simp_all
  then have "2 ^ 21 dvd unat (pa + 4096 * word_of_nat (c - a))" by (simp add: unat_word_ariths)
  then show ?thesis using unat_and_mask [of 21 "pa + 4096 * word_of_nat (c - a)"] by (simp add: unat_eq_zero dvd_eq_mod_eq_0)
qed

lemma pmd_loop_ok:
  assumes "tinv st P" "s * slots 512 a b \<le> room (heap st)" "a \<le> b" "2 ^ 18 * i \<le> a" "b \<le> 2 ^ 18 * (i + 1)"
    "mid_of of_p (words st) P i = Some p"
    "a < b \<longrightarrow> pmd = slot p (a div 512 mod 512) \<and> (\<forall>l. a div 512 \<le> l \<longrightarrow> 512 * l < b \<longrightarrow> nosect of_p (words st) P l)"
    and v: "vpage g v a" and f: "vpage g fin b" "unat fin + 2 ^ 30 \<le> 2 ^ 64"
    and pa: "page_aligned pa" "unat pa + 4096 * (b - a) \<le> 2 ^ 48" "s = 1 \<or> s = 0 \<and> whole_sections a b pa" and at: "attr AND PA_MASK = 0"
  shows "\<exists>st'. pmd_loop to_p of_p alloc st pmd v fin pa attr = Some st' \<and> tinv st' P \<and>
    room (heap st) \<le> room (heap st') + s * slots 512 a b \<and> mapped of_p (words st) (words st') P a b pa (attr AND ATTRS)"
  using assms(1-7) v pa
proof (induction "b - a" arbitrary: a st pmd v pa rule: less_induct)
  case less
  show ?case
  proof (cases "a = b")
    case True
    then have "v = fin" using less.prems(8) f(1) by (simp add: vpage_def word_unat_eq_iff)
    then show ?thesis using less.prems(1) True by (subst pmd_loop.simps) (simp add: mapped_empty)
  next
    case False
    define m where "m = a div 512"
    define c where "c = min (512 * (m + 1)) b"
    let ?next = "next_addr PMD_SIZE PMD_MASK v fin"
    have ab: "a < b" using False less.prems(3) by simp
    have "vpage g ?next c" "a < c" "?next - v = 4096 * word_of_nat (c - a)"
      using vpage_next [OF less.prems(8) f(1) ab, of 9] f(2) by (simp_all add: pg_values c_def m_def)
    note nx = this
    have cb: "c \<le> b" "c \<le> 512 * (m + 1)" by (simp_all add: c_def)
    have mi: "m div 512 = i" unfolding m_def div_mult2_eq [symmetric]
      using less.prems(4,5) ab by (intro div_nat_eqI) simp_all
    have vne: "v \<noteq> fin" using less.prems(8) f(1) ab by (auto simp: vpage_def)
    have no: "nosect of_p (words st) P m" and pmd: "pmd = slot p (m mod 512)"
      using less.prems(7) ab by (auto simp: m_def)
    have pc: "unat pa + 4096 * (c - a) \<le> 2 ^ 48" using less.prems(10) diff_le_mono [OF cb(1), of a] by simp
    have sn: "slots 512 a b = Suc (slots 512 c b)" using ab by (rule slots_next) (simp_all add: c_def m_def)
    then have sn': "s * slots 512 a b = s * slots 512 c b + s" by simp
    then have r: "s \<le> room (heap st)" using less.prems(2) by linarith
    have sec: "s = 1 \<or> s = 0 \<and> whole_sections a c pa" using less.prems(11) by (auto simp: whole_sections_def c_def min_def)
    have sec': "s = 1 \<or> s = 0 \<and> whole_sections c b (pa + 4096 * word_of_nat (c - a))"
      using less.prems(11) sec section_paddr [of a c pa] nx(2) by (auto simp: whole_sections_def)
    have pm: "mid_of of_p (words st) P (m div 512) = Some p" using less.prems(6) mi by simp
    have am: "a div 512 = m" by (simp add: m_def)
    obtain s1 where s1: "pmd_step to_p of_p alloc st pmd v ?next pa attr = Some s1" "tinv s1 P"
      "room (heap st) \<le> room (heap s1) + s" "mapped of_p (words st) (words s1) P a c pa (attr AND ATTRS)"
      "mid_of of_p (words s1) P = mid_of of_p (words st) P"
      using pmd_step_ok [OF less.prems(1) sec r pm no am nx(2) cb(2) less.prems(8) nx(1) less.prems(9) pc at] unfolding pmd by blast
    have step: "c < b \<longrightarrow> pmd + 8 = slot p (c div 512 mod 512) \<and> (\<forall>l. c div 512 \<le> l \<longrightarrow> 512 * l < b \<longrightarrow> nosect of_p (words s1) P l)"
    proof (intro impI conjI allI)
      assume "c < b"
      then have c: "c = 512 * (m + 1)" by (simp add: c_def)
      then have "m + 1 < 512 * (i + 1)" using \<open>c < b\<close> less.prems(5) by simp
      moreover obtain k where k: "m mod 512 = k" by simp
      moreover have "m = 512 * i + m mod 512" using mi by auto
      ultimately have "k + 1 < 512" by simp
      then have "(m + 1) mod 512 = m mod 512 + 1" using k by (simp add: mod_Suc)
      then show "pmd + 8 = slot p (c div 512 mod 512)" using slot_add [of p "m mod 512" 1] by (simp add: c pmd)
      fix l assume l: "c div 512 \<le> l" "512 * l < b"
      then have "c \<le> 512 * l" "l < 2 ^ 18" "a div 512 \<le> l" using c less.prems(5) mid_of_less [OF less.prems(6)] by (auto simp: m_def)
      then show "nosect of_p (words s1) P l" using less.prems(7) ab l(2) by (intro mapped_nosect [OF s1(4)]) simp_all
    qed
    have pa': "page_aligned (pa + 4096 * word_of_nat (c - a))" "unat (pa + 4096 * word_of_nat (c - a)) + 4096 * (b - c) \<le> 2 ^ 48"
      using paddr_page [OF less.prems(9) pc] less.prems(10) nx(2) cb(1) by simp_all
    have "\<exists>st'. pmd_loop to_p of_p alloc s1 (pmd + 8) ?next fin (pa + 4096 * word_of_nat (c - a)) attr = Some st' \<and> tinv st' P \<and>
       room (heap s1) \<le> room (heap st') + s * slots 512 c b \<and>
       mapped of_p (words s1) (words st') P c b (pa + 4096 * word_of_nat (c - a)) (attr AND ATTRS)"
      using nx(1,2) cb(1) ab less.prems(2,4,5,6) s1(2,3,5) step pa' sn' sec' by (intro less.hyps) simp_all
    then obtain s2 where s2: "pmd_loop to_p of_p alloc s1 (pmd + 8) ?next fin (pa + 4096 * word_of_nat (c - a)) attr = Some s2"
       "tinv s2 P" "room (heap s1) \<le> room (heap s2) + s * slots 512 c b"
       "mapped of_p (words s1) (words s2) P c b (pa + 4096 * word_of_nat (c - a)) (attr AND ATTRS)" by blast
    have "mapped of_p (words st) (words s2) P a b pa (attr AND ATTRS)"
      by (rule mapped_trans [OF s1(4) s2(4) less_imp_le [OF nx(2)] cb(1)])
    moreover have "pmd_loop to_p of_p alloc st pmd v fin pa attr = Some s2"
      using vne s1(1) s2(1) nx(3) by (subst pmd_loop.simps) (simp add: Let_def)
    moreover have "room (heap st) \<le> room (heap s2) + s * slots 512 a b" using s1(3) s2(3) sn' by linarith
    ultimately show ?thesis using s2(2) by blast
  qed
qed

lemma gen_pmd_map_ok:
  assumes inv: "tinv st P" and r: "s * slots 512 a b < room (heap st)" and i: "a div 512 div 512 = i" "i < 512" "a < b" "b \<le> 2 ^ 18 * (i + 1)"
    and no: "\<forall>l. a div 512 \<le> l \<longrightarrow> 512 * l < b \<longrightarrow> nosect of_p (words st) P l"
    and v: "vpage g v a" "vpage g fin b" "unat fin + 2 ^ 30 \<le> 2 ^ 64"
    and pa: "page_aligned pa" "unat pa + 4096 * (b - a) \<le> 2 ^ 48" "s = 1 \<or> s = 0 \<and> whole_sections a b pa" and at: "attr AND PA_MASK = 0"
  shows "\<exists>st'. gen_pmd_map to_p of_p alloc st (slot P i) v fin pa attr = Some st' \<and> tinv st' P \<and>
    room (heap st) \<le> room (heap st') + Suc (s * slots 512 a b) \<and> mapped of_p (words st) (words st') P a b pa (attr AND ATTRS)"
proof -
  have "0 < room (heap st)" using r by simp
  from next_mid [OF inv this i(2)] obtain p s1 where n: "next_table to_p of_p alloc st (slot P i) = Some (p, s1)"
      "mid_of of_p (words s1) P i = Some p" "tinv s1 P" "room (heap st) \<le> Suc (room (heap s1))"
    and same: "same_xl of_p (words st) (words s1) P" by blast
  have ia: "2 ^ 18 * i \<le> a" using i(1) unfolding div_mult2_eq [symmetric] by (simp add: less_eq_div_iff_mult_less_eq mult.commute)
  have "nosect of_p (words s1) P l" if "a div 512 \<le> l" "512 * l < b" for l
  proof -
    have "l < 2 ^ 18" using that(2) i(2,4) by simp
    then show ?thesis using same no that by (simp add: same_xl_def)
  qed
  then have "\<exists>st'. pmd_loop to_p of_p alloc s1 (slot p (a div 512 mod 512)) v fin pa attr = Some st' \<and> tinv st' P \<and>
      room (heap s1) \<le> room (heap st') + s * slots 512 a b \<and> mapped of_p (words s1) (words st') P a b pa (attr AND ATTRS)"
    using r n(4) i(3) by (intro pmd_loop_ok [OF n(3) _ _ ia i(4) n(2) _ v pa at]) simp_all
  then obtain s2 where s2: "pmd_loop to_p of_p alloc s1 (slot p (a div 512 mod 512)) v fin pa attr = Some s2" "tinv s2 P"
      "room (heap s1) \<le> room (heap s2) + s * slots 512 a b" "mapped of_p (words s1) (words s2) P a b pa (attr AND ATTRS)" by blast
  have "gen_pmd_map to_p of_p alloc st (slot P i) v fin pa attr = Some s2"
    using n(1) s2(1) by (simp add: gen_pmd_map_def vpage_idx(2) [OF v(1)])
  then show ?thesis using s2(2,3) n(4) same_mapped [OF same s2(4)] by simp
qed

lemma pgd_loop_ok:
  assumes "tinv st P" "s * slots 512 a b + slots (2 ^ 18) a b \<le> room (heap st)" "a \<le> b" "b \<le> 2 ^ 27"
    "a < b \<longrightarrow> pgd = slot P (a div 512 div 512) \<and> (\<forall>l. a div 512 \<le> l \<longrightarrow> 512 * l < b \<longrightarrow> nosect of_p (words st) P l)"
    and v: "vpage g v a" and f: "vpage g fin b" "unat fin + 2 ^ 30 \<le> 2 ^ 64"
    and pa: "page_aligned pa" "unat pa + 4096 * (b - a) \<le> 2 ^ 48" "s = 1 \<or> s = 0 \<and> whole_sections a b pa" and at: "attr AND PA_MASK = 0"
  shows "\<exists>st'. pgd_loop to_p of_p alloc st pgd v fin pa attr = Some st' \<and> tinv st' P \<and>
    room (heap st) \<le> room (heap st') + (s * slots 512 a b + slots (2 ^ 18) a b) \<and> mapped of_p (words st) (words st') P a b pa (attr AND ATTRS)"
  using assms(1-5) v pa
proof (induction "b - a" arbitrary: a st pgd v pa rule: less_induct)
  case less
  show ?case
  proof (cases "a = b")
    case True
    then have "v = fin" using less.prems(6) f(1) by (simp add: vpage_def word_unat_eq_iff)
    then show ?thesis using less.prems(1) True by (subst pgd_loop.simps) (simp add: mapped_empty)
  next
    case False
    define i where "i = a div 512 div 512"
    define c where "c = min (2 ^ 18 * (i + 1)) b"
    let ?next = "next_addr PGDIR_SIZE PGDIR_MASK v fin"
    have ab: "a < b" using False less.prems(3) by simp
    have "vpage g ?next c" "a < c" "?next - v = 4096 * word_of_nat (c - a)"
      using vpage_next [OF less.prems(6) f(1) ab, of 18] f(2) by (simp_all add: pg_values c_def i_def div_mult2_eq [symmetric])
    note nx = this
    have cb: "c \<le> b" "c \<le> 2 ^ 18 * (i + 1)" by (simp_all add: c_def)
    have i: "a div 512 div 512 = i" "i < 512" using ab less.prems(4) by (simp_all add: i_def)
    have vne: "v \<noteq> fin" using less.prems(6) f(1) ab by (auto simp: vpage_def)
    have no: "\<forall>l. a div 512 \<le> l \<longrightarrow> 512 * l < c \<longrightarrow> nosect of_p (words st) P l" and pgd: "pgd = slot P i"
      using less.prems(5) ab cb(1) by (auto simp: i_def)
    have pc: "unat pa + 4096 * (c - a) \<le> 2 ^ 48" using less.prems(8) diff_le_mono [OF cb(1), of a] by simp
    have sn: "slots (2 ^ 18) a b = Suc (slots (2 ^ 18) c b)"
      using ab by (rule slots_next) (simp_all add: c_def i_def div_mult2_eq [symmetric])
    have ss: "slots 512 a b = slots 512 a c + slots 512 c b" using nx(2) cb(1)
    proof (rule slots_split)
      assume "c < b"
      then have "c = 512 * (512 * (i + 1))" by (simp add: c_def)
      then show "512 dvd c" by (metis dvd_triv_left)
    qed simp
    then have ss': "s * slots 512 a b = s * slots 512 a c + s * slots 512 c b" by (simp add: algebra_simps)
    have r: "s * slots 512 a c < room (heap st)" using less.prems(2) sn ss' by linarith
    have "512 dvd 2 ^ 18 * (i + 1)" by simp
    then have sec: "s = 1 \<or> s = 0 \<and> whole_sections a c pa" using less.prems(9) by (auto simp: whole_sections_def c_def min_def)
    have sec': "s = 1 \<or> s = 0 \<and> whole_sections c b (pa + 4096 * word_of_nat (c - a))"
      using less.prems(9) sec section_paddr [of a c pa] nx(2) by (auto simp: whole_sections_def)
    have fc: "unat ?next + 2 ^ 30 \<le> 2 ^ 64" using nx(1) f cb(1) by (simp add: vpage_def)
    obtain s1 where s1: "gen_pmd_map to_p of_p alloc st pgd v ?next pa attr = Some s1" "tinv s1 P"
      "room (heap st) \<le> room (heap s1) + Suc (s * slots 512 a c)" "mapped of_p (words st) (words s1) P a c pa (attr AND ATTRS)"
      using gen_pmd_map_ok [OF less.prems(1) r i nx(2) cb(2) no less.prems(6) nx(1) fc less.prems(7) pc sec at] unfolding pgd by blast
    have step: "c < b \<longrightarrow> pgd + 8 = slot P (c div 512 div 512) \<and> (\<forall>l. c div 512 \<le> l \<longrightarrow> 512 * l < b \<longrightarrow> nosect of_p (words s1) P l)"
    proof (intro impI conjI allI)
      assume "c < b"
      then have c: "c = 2 ^ 18 * (i + 1)" by (simp add: c_def)
      then have "c div 512 div 512 = i + 1" unfolding div_mult2_eq [symmetric] by simp
      then show "pgd + 8 = slot P (c div 512 div 512)" using slot_add [of P i 1] by (simp add: pgd)
      fix l assume l: "c div 512 \<le> l" "512 * l < b"
      then have "c \<le> 512 * l" "l < 2 ^ 18" using c less.prems(4) by auto
      moreover have "a div 512 \<le> l" using div_le_mono [OF less_imp_le [OF nx(2)], of 512] l(1) by simp
      ultimately show "nosect of_p (words s1) P l" using less.prems(5) ab l(2) by (intro mapped_nosect [OF s1(4)]) simp_all
    qed
    have pa': "page_aligned (pa + 4096 * word_of_nat (c - a))" "unat (pa + 4096 * word_of_nat (c - a)) + 4096 * (b - c) \<le> 2 ^ 48"
      using paddr_page [OF less.prems(7) pc] less.prems(8) nx(2) cb(1) by simp_all
    have r': "s * slots 512 c b + slots (2 ^ 18) c b \<le> room (heap s1)" using less.prems(2) s1(3) sn ss' by linarith
    have "\<exists>st'. pgd_loop to_p of_p alloc s1 (pgd + 8) ?next fin (pa + 4096 * word_of_nat (c - a)) attr = Some st' \<and> tinv st' P \<and>
       room (heap s1) \<le> room (heap st') + (s * slots 512 c b + slots (2 ^ 18) c b) \<and>
       mapped of_p (words s1) (words st') P c b (pa + 4096 * word_of_nat (c - a)) (attr AND ATTRS)"
      using nx(1,2) cb(1) ab less.prems(4) s1(2) step pa' r' sec' by (intro less.hyps) simp_all
    then obtain s2 where s2: "pgd_loop to_p of_p alloc s1 (pgd + 8) ?next fin (pa + 4096 * word_of_nat (c - a)) attr = Some s2"
       "tinv s2 P" "room (heap s1) \<le> room (heap s2) + (s * slots 512 c b + slots (2 ^ 18) c b)"
       "mapped of_p (words s1) (words s2) P c b (pa + 4096 * word_of_nat (c - a)) (attr AND ATTRS)" by blast
    have "mapped of_p (words st) (words s2) P a b pa (attr AND ATTRS)"
      by (rule mapped_trans [OF s1(4) s2(4) less_imp_le [OF nx(2)] cb(1)])
    moreover have "pgd_loop to_p of_p alloc st pgd v fin pa attr = Some s2"
      using vne s1(1) s2(1) nx(3) by (subst pgd_loop.simps) (simp add: Let_def)
    moreover have "room (heap st) \<le> room (heap s2) + (s * slots 512 a b + slots (2 ^ 18) a b)" using s1(3) s2(3) sn ss' by linarith
    ultimately show ?thesis using s2(2) by blast
  qed
qed

text \<open>Mapping a range returns, and changes the translation exactly there.\<close>

lemma gen_pt_map_need:
  assumes inv: "tinv st P" and P: "P \<noteq> 0" and s: "s = 1 \<or> s = 0 \<and> whole_sections a (a + pages_for sz) pa" and r: "tables_need s a sz \<le> room (heap st)"
    and q: "map_request g v pa sz attr a"
    and no: "\<forall>l. a div 512 \<le> l \<longrightarrow> 512 * l < a + pages_for sz \<longrightarrow> nosect of_p (words st) P l"
  shows "\<exists>st'. gen_pt_map to_p of_p alloc st P v pa sz attr = Some st' \<and> tinv st' P \<and>
    room (heap st) \<le> room (heap st') + tables_need s a sz \<and>
    mapped of_p (words st) (words st') P a (a + pages_for sz) pa (attr AND ATTRS)"
proof -
  note f = map_request_fin [OF q]
  have v: "vpage g v a" and b: "a + pages_for sz \<le> 2 ^ 27" and "sz \<noteq> 0" and pa: "page_aligned pa"
    "unat pa + 4096 * (a + pages_for sz - a) \<le> 2 ^ 48" and at: "attr AND PA_MASK = 0" using q by (simp_all add: map_request_def)
  have "sz \<le> k_bit VA_BITS" using f(4) by (simp add: word_le_nat_alt k_bit_def VA_BITS_def)
  have "0 < pages_for sz" using \<open>sz \<noteq> 0\<close> by (simp add: pages_for_def unat_gt_0 div_greater_zero_iff Suc_leI)
  then have "a div 512 div 512 mod 512 = a div 512 div 512" using b by simp
  then have "P + 8 * (drop_bit PGDIR_SHIFT v AND (PTRS_PER_PGD - 1)) = slot P (a div 512 div 512)"
    using vpage_idx(3) [OF v, of P] by simp
  then have "gen_pt_map to_p of_p alloc st P v pa sz attr =
      pgd_loop to_p of_p alloc st (slot P (a div 512 div 512)) v (ALIGN (v + sz) PAGE_SIZE) pa attr"
    using P f(3) pa(1) \<open>sz \<noteq> 0\<close> \<open>sz \<le> k_bit VA_BITS\<close> by (simp add: gen_pt_map_def page_aligned_bitmask Let_def)
  moreover have "\<exists>st'. pgd_loop to_p of_p alloc st (slot P (a div 512 div 512)) v (ALIGN (v + sz) PAGE_SIZE) pa attr = Some st' \<and>
      tinv st' P \<and> room (heap st) \<le> room (heap st') + tables_need s a sz \<and>
      mapped of_p (words st) (words st') P a (a + pages_for sz) pa (attr AND ATTRS)"
    unfolding tables_need_def using r no b by (intro pgd_loop_ok [OF inv _ _ b _ v f(1,2) pa s at]) (simp_all add: tables_need_def)
  ultimately show ?thesis by simp
qed

lemma gen_pt_map_ok:
  assumes inv: "tinv st P" and P: "P \<noteq> 0" and r: "tables_for a sz \<le> room (heap st)"
    and q: "map_request g v pa sz attr a"
    and no: "\<forall>l. a div 512 \<le> l \<longrightarrow> 512 * l < a + pages_for sz \<longrightarrow> nosect of_p (words st) P l"
  shows "\<exists>st'. gen_pt_map to_p of_p alloc st P v pa sz attr = Some st' \<and> tinv st' P \<and>
    room (heap st) \<le> room (heap st') + tables_for a sz \<and>
    mapped of_p (words st) (words st') P a (a + pages_for sz) pa (attr AND ATTRS)"
  using gen_pt_map_need [OF inv P _ _ q no, of 1] r by (simp add: tables_need_def tables_for_def)

end

end
