(* ===== verification/K_Addrspace.thy ===== *)
theory K_Addrspace
  imports K_Ptmap
begin

text \<open>
  Address spaces, \<^verbatim>\<open>os/core/mm/addrspace.c\<close>: table pages come from the granule heap, the kernel's
  image, user image, heap and devices are mapped at boot, and \<^verbatim>\<open>as_map\<close> maps a region for a user
  task with attributes computed from the requested protection.

  The state is the memory of the tables and the granule heap.  The translation register and the
  cached translations that \<^verbatim>\<open>kernel_as_switch\<close> changes are in \<open>kas\<close>.  Progress messages are not
  modelled.
\<close>

section \<open>Data\<close>

record mem_region =
  r_pbase :: u64
  r_vbase :: u64
  r_size :: u64

record image_region =
  i_code :: mem_region
  i_rodata :: mem_region
  i_data :: mem_region
  i_bss :: mem_region

type_synonym kpts = "mm_gran pts"

record kas =
  k_pts :: kpts
  ttbr1 :: u64
  tlb :: "nat \<rightharpoonup> (u64 \<times> u64)"

definition RAM_NORMAL :: u32 where "RAM_NORMAL = 0"
definition RAM_DEVICE :: u32 where "RAM_DEVICE = 1"
definition PROT_READ :: u32 where "PROT_READ = 1"
definition PROT_WRITE :: u32 where "PROT_WRITE = 2"
definition PROT_EXEC :: u32 where "PROT_EXEC = 4"

section \<open>Operations\<close>

text \<open>\<^verbatim>\<open>k_memset\<close> with zero, on the 64-bit words of the tables.\<close>

definition zero_words :: "tmem \<Rightarrow> u64 \<Rightarrow> u64 \<Rightarrow> tmem" where
  "zero_words w p sz = (\<lambda>a. if a - p < sz then 0 else w a)"

definition pt_calloc :: "mm_gran pt_alloc_fn" where
  "pt_calloc sz st = do {
     (v_page, g) \<leftarrow> gran_alloc (heap st) sz;
     Some (v_page, \<lparr>words = zero_words (words st) v_page sz, heap = g\<rparr>)
   }"

definition region_map :: "kpts \<Rightarrow> u64 \<Rightarrow> mem_region \<Rightarrow> u64 \<Rightarrow> kpts option" where
  "region_map st pgtable region prot =
     pt_map pt_calloc st pgtable (r_vbase region) (r_pbase region) (r_size region) prot"

definition kernel_as_image_mapping :: "kpts \<Rightarrow> u64 \<Rightarrow> image_region \<Rightarrow> kpts option" where
  "kernel_as_image_mapping st kernel_addrspace img = do {
     st \<leftarrow> region_map st kernel_addrspace (i_code img) PAGE_KERNEL_ROX;
     st \<leftarrow> region_map st kernel_addrspace (i_rodata img) PAGE_KERNEL_RO;
     st \<leftarrow> region_map st kernel_addrspace (i_data img) PAGE_KERNEL;
     region_map st kernel_addrspace (i_bss img) PAGE_KERNEL
   }"

text \<open>The array of device regions ends with a region of size 0; without one the loop runs past the array.\<close>

fun kernel_as_dev_mapping :: "kpts \<Rightarrow> u64 \<Rightarrow> mem_region list \<Rightarrow> kpts option" where
  "kernel_as_dev_mapping st kernel_addrspace [] = None"
| "kernel_as_dev_mapping st kernel_addrspace (region # regions) =
     (if r_size region \<noteq> 0 then do {
        st \<leftarrow> region_map st kernel_addrspace region PROT_SECT_DEVICE_nGnRE;
        kernel_as_dev_mapping st kernel_addrspace regions
      } else Some st)"

definition kernel_as_ram_mapping :: "kpts \<Rightarrow> u64 \<Rightarrow> mem_region \<Rightarrow> kpts option" where
  "kernel_as_ram_mapping st kernel_addrspace region = region_map st kernel_addrspace region PAGE_KERNEL"

definition kernel_as_switch :: "kas \<Rightarrow> u64 \<Rightarrow> kas" where
  "kernel_as_switch s kernel_addrspace =
     (let ks_pbase = vbase_to_pbase kernel_addrspace in s\<lparr>ttbr1 := ks_pbase, tlb := Map.empty\<rparr>)"

definition as_initialize ::
  "kas \<Rightarrow> u64 \<Rightarrow> image_region \<Rightarrow> mem_region \<Rightarrow> mem_region \<Rightarrow> mem_region list \<Rightarrow> kas option" where
  "as_initialize s kernel_addrspace kernel_image user_elf_region kernel_heap_region kernel_dev_ram = do {
     st \<leftarrow> kernel_as_image_mapping (k_pts s) kernel_addrspace kernel_image;
     st \<leftarrow> kernel_as_ram_mapping st kernel_addrspace user_elf_region;
     st \<leftarrow> kernel_as_ram_mapping st kernel_addrspace kernel_heap_region;
     st \<leftarrow> kernel_as_dev_mapping st kernel_addrspace kernel_dev_ram;
     Some (kernel_as_switch (s\<lparr>k_pts := st\<rparr>) kernel_addrspace)
   }"

text \<open>The attributes that \<^verbatim>\<open>as_map\<close> computes, \<open>None\<close> for its \<^verbatim>\<open>PANIC\<close>.\<close>

definition as_map_attr :: "u32 \<Rightarrow> u32 \<Rightarrow> u64 option" where
  "as_map_attr prot ramtype =
     (let attr = PROT_DEFAULT OR PTE_USER OR PTE_WRITE OR PTE_PXN OR PTE_UXN;
          attr = (if prot AND PROT_READ \<noteq> 0 then attr OR PTE_RDONLY else attr);
          attr = (if prot AND PROT_EXEC \<noteq> 0 then attr AND NOT PTE_UXN else attr);
          attr = (if prot AND PROT_WRITE \<noteq> 0 then attr AND NOT PTE_RDONLY else attr)
      in if ramtype = RAM_NORMAL then Some (attr OR PTE_ATTRINDX MT_NORMAL)
         else if ramtype = RAM_DEVICE then Some (attr OR PTE_ATTRINDX MT_DEVICE_nGnRE)
         else None)"

definition as_map :: "kpts \<Rightarrow> u64 \<Rightarrow> mem_region \<Rightarrow> u32 \<Rightarrow> u32 \<Rightarrow> kpts option" where
  "as_map st as region prot ramtype = do {
     attr \<leftarrow> as_map_attr prot ramtype;
     pt_map pt_calloc st as (r_vbase region) (r_pbase region) (r_size region) attr
   }"

section \<open>The granule heap provides table pages\<close>

definition kpage_ok :: "u64 \<Rightarrow> bool" where
  "kpage_ok q \<longleftrightarrow> page_aligned q \<and> RAM_VBASE \<le> q"

definition page_heap :: "mm_gran \<Rightarrow> bool" where
  "page_heap g \<longleftrightarrow> wf_gran g \<and> log2gran g = 12 \<and> kpage_ok (heapstart g)"

definition free_pages :: "mm_gran \<Rightarrow> u64 set" where
  "free_pages g = gran_addr g ` {i. i < gcount g \<and> \<not> abit (gat g) i}"

definition free_count :: "mm_gran \<Rightarrow> nat" where
  "free_count g = card {i. i < gcount g \<and> \<not> abit (gat g) i}"

lemma page_aligned_add:
  assumes "page_aligned p" "page_aligned q"
  shows "page_aligned (p + q)"
proof -
  have d: "4096 dvd unat p" "4096 dvd unat q" using assms by (auto simp: page_aligned_def)
  have "unat (p + q) = (unat p + unat q) mod 2 ^ 64" by (simp add: unat_word_ariths)
  moreover have "4096 dvd (unat p + unat q) mod 2 ^ 64" using d by (intro dvd_mod) simp_all
  ultimately show ?thesis by (auto simp: page_aligned_def elim: dvdE)
qed

lemma page_or3: "page_aligned p \<Longrightarrow> p OR 3 = p + 3"
  by (subst disjunctive_add) (auto simp: bit_simps bit_2_3 dest: page_bits)

lemma to_p_desc:
  assumes "page_aligned q"
  shows "vbase_to_pbase (q OR PMD_TYPE_TABLE) = (vbase_to_pbase q) OR 3" "page_aligned (vbase_to_pbase q)"
proof -
  have "page_aligned (RAM_PBASE - RAM_VBASE)" by (simp add: page_aligned_def RAM_PBASE_def RAM_VBASE_def)
  then have "page_aligned (q + (RAM_PBASE - RAM_VBASE))" using assms by (intro page_aligned_add)
  then show al: "page_aligned (vbase_to_pbase q)" by (simp add: vbase_to_pbase_def algebra_simps)
  show "vbase_to_pbase (q OR PMD_TYPE_TABLE) = (vbase_to_pbase q) OR 3"
    using page_or3 [OF assms] page_or3 [OF al] by (simp add: PMD_TYPE_TABLE_def vbase_to_pbase_def)
qed


interpretation kt: table_pages vbase_to_pbase pbase_to_vbase kpage_ok
proof
  fix q assume q: "kpage_ok q"
  then have al: "page_aligned q" and ge: "RAM_VBASE \<le> q" by (simp_all add: kpage_ok_def)
  show "page_aligned q \<and> q \<noteq> 0" using al ge by (auto simp: RAM_VBASE_def)
  note d = to_p_desc [OF al]
  let ?p = "vbase_to_pbase q"
  have low: "?p AND mask 12 = 0" using d(2) by (simp add: page_aligned_and)
  have three: "(3 :: u64) AND mask 12 = 3" "(3 :: u64) AND NOT (mask 12) = 0" by (simp_all add: mask_eq_exp_minus_1)
  have "?p AND NOT (mask 12) = ?p" by (intro bit_eqI) (auto simp: bit_simps dest: page_bits [OF d(2)])
  then have hi: "(?p OR 3) AND NOT (mask 12) = ?p" by (simp add: bit.conj_disj_distrib2 three(2))
  have "unat (q - RAM_VBASE) = unat q - unat RAM_VBASE" using ge by (simp add: unat_sub_if_size word_le_nat_alt)
  then have v: "unat (q - RAM_VBASE) < 2 ^ 39" using unat_u64_bound [of q] ge by (simp add: RAM_VBASE_def word_le_nat_alt)
  have "unat ?p = unat (q - RAM_VBASE) + unat RAM_PBASE"
    unfolding vbase_to_pbase_def using v by (intro unat_add_small) (simp add: RAM_PBASE_def)
  then have "unat ?p + 4096 < 2 ^ 48" using v by (simp add: RAM_PBASE_def)
  moreover have "unat (?p OR 3) \<le> unat ?p + 3" unfolding page_or3 [OF d(2)] by (simp add: unat_word_ariths)
  ultimately show "vbase_to_pbase (q OR PMD_TYPE_TABLE) AND mask 12 = 3 \<and> unat (vbase_to_pbase (q OR PMD_TYPE_TABLE)) < 2 ^ 48"
    unfolding d(1) using low three by (simp add: bit.conj_disj_distrib2)
  show "pbase_to_vbase (vbase_to_pbase (q OR PMD_TYPE_TABLE) AND NOT (mask 12)) = q"
    unfolding d(1) hi by (simp add: pbase_to_vbase_def vbase_to_pbase_def)
qed

lemma free_page_addr:
  assumes "page_heap g" "i < gcount g"
  shows "unat (gran_addr g i) = unat (heapstart g) + i * 4096" "kpage_ok (gran_addr g i)"
proof -
  have g: "wf_gran g" "gshift g = 12" "page_aligned (heapstart g)" "RAM_VBASE \<le> heapstart g"
    using assms(1) by (simp_all add: page_heap_def kpage_ok_def)
  show u: "unat (gran_addr g i) = unat (heapstart g) + i * 4096"
    using unat_gran_addr [OF g(1), of i] assms(2) g(2) by simp
  show "kpage_ok (gran_addr g i)"
    using g(3,4) by (simp add: kpage_ok_def page_aligned_def u word_le_nat_alt)
qed

lemma gran_addr_inj:
  assumes "page_heap g" "i < gcount g" "j < gcount g" "gran_addr g i = gran_addr g j"
  shows "i = j"
proof -
  have "unat (gran_addr g i) = unat (gran_addr g j)" using assms(4) by (rule arg_cong)
  then show ?thesis unfolding free_page_addr(1) [OF assms(1,2)] free_page_addr(1) [OF assms(1,3)] by linarith
qed

lemma first_page:
  assumes "0 < free_count g"
  obtains i where "first_fit g 1 = Some i" "i < gcount g" "\<not> abit (gat g) i"
proof -
  have "{i. i < gcount g \<and> \<not> abit (gat g) i} \<noteq> {}" using assms unfolding free_count_def card_gt_0_iff by (rule conjunct1)
  then have "\<exists>i. i < gcount g \<and> free_run g 1 i" by (auto simp: free_run_def)
  then have "first_fit g 1 \<noteq> None" by (auto simp: first_fit_def first_from_None_iff)
  then obtain i where i: "first_fit g 1 = Some i" by auto
  then show ?thesis using that first_fit_Some [OF i] by (auto simp: free_run_def)
qed

lemma zero_words_slot:
  assumes "page_aligned p" "page_aligned q" "j < 512"
  shows "zero_words w q PAGE_SIZE (slot p j) = (if p = q then 0 else w (slot p j))"
proof -
  have u: "unat (slot p j) = unat p + 8 * j" by (rule unat_slot [OF assms(1,3)])
  have "slot p j - q < PAGE_SIZE \<longleftrightarrow> p = q"
  proof
    assume "p = q"
    then have "unat (slot p j - q) = 8 * j" using u by (simp add: unat_sub_if_size word_le_nat_alt)
    then show "slot p j - q < PAGE_SIZE" using assms(3) by (simp add: word_less_nat_alt pg_values)
  next
    assume lt: "slot p j - q < PAGE_SIZE"
    obtain c d where c: "unat p = 4096 * c" "unat q = 4096 * d" using assms unfolding page_aligned_def dvd_def by blast
    have b: "unat p < 2 ^ 64" "unat q < 2 ^ 64" using unat_u64_bound [of p] unat_u64_bound [of q] by simp_all
    have "c = d"
    proof (cases "unat q \<le> unat p + 8 * j")
      case True
      then have "unat (slot p j - q) = unat p + 8 * j - unat q" using u by (simp add: unat_sub_if_size word_le_nat_alt)
      then show ?thesis using lt True c assms(3) by (simp add: word_less_nat_alt pg_values)
    next
      case False
      then have "unat (slot p j - q) = 2 ^ 64 - (unat q - (unat p + 8 * j))" using u b by (simp add: unat_sub_if_size word_le_nat_alt word_size)
      moreover have "d < 2 ^ 52" using b c by simp
      ultimately show ?thesis using lt False c assms(3) by (simp add: word_less_nat_alt pg_values)
    qed
    then show "p = q" using c by (simp add: word_unat_eq_iff)
  qed
  then show ?thesis by (simp add: zero_words_def)
qed


lemma pt_calloc_page:
  assumes h: "page_heap (heap st)" and r: "0 < free_count (heap st)"
  shows "\<exists>q st'. pt_calloc PAGE_SIZE st = Some (q, st') \<and> q \<in> free_pages (heap st) \<and>
      free_pages (heap st') \<subseteq> free_pages (heap st) - {q} \<and> page_heap (heap st') \<and>
      free_count (heap st) \<le> Suc (free_count (heap st')) \<and> (\<forall>j < 512. words st' (slot q j) = 0) \<and>
      (\<forall>p j. page_aligned p \<longrightarrow> p \<noteq> q \<longrightarrow> j < 512 \<longrightarrow> words st' (slot p j) = words st (slot p j))"
proof -
  let ?g = "heap st"
  have g: "wf_gran ?g" "gshift ?g = 12" using h by (simp_all add: page_heap_def)
  have v: "valid_request ?g PAGE_SIZE" "granule_count ?g PAGE_SIZE = 1"
    using g(2) by (simp_all add: valid_request_def granule_count_def pg_values)
  obtain i where i: "first_fit ?g 1 = Some i" "i < gcount ?g" "\<not> abit (gat ?g) i" using first_page [OF r] .
  let ?g' = "?g\<lparr>gat := gat_or (gat ?g) i 1\<rparr>"
  let ?q = "gran_addr ?g i" and ?w = "zero_words (words st) (gran_addr ?g i) PAGE_SIZE"
  have run: "pt_calloc PAGE_SIZE st = Some (?q, \<lparr>words = ?w, heap = ?g'\<rparr>)"
    unfolding pt_calloc_def gran_alloc_eq [OF g(1) v] i(1) by simp
  have ab: "abit (gat_or (gat ?g) i 1) j \<longleftrightarrow> abit (gat ?g) j \<or> j = i" for j unfolding abit_gat_or by auto
  have sets: "{j. j < gcount ?g' \<and> \<not> abit (gat ?g') j} = {j. j < gcount ?g \<and> \<not> abit (gat ?g) j} - {i}"
    by (auto simp: ab simp del: One_nat_def)
  have fr: "free_pages ?g' \<subseteq> free_pages ?g - {?q}"
    using gran_addr_inj [OF h _ i(2)] unfolding free_pages_def sets by auto
  have c: "free_count ?g \<le> Suc (free_count ?g')" unfolding free_count_def sets using i(2,3) by (simp add: card_Diff_singleton)
  have q: "?q \<in> free_pages ?g" using i(2,3) unfolding free_pages_def by blast
  have al: "page_aligned ?q" using free_page_addr(2) [OF h i(2)] by (simp add: kpage_ok_def)
  have "page_heap ?g'" using h by (simp add: page_heap_def)
  then show ?thesis using run q fr c zero_words_slot [OF al al] zero_words_slot [OF _ al] by auto
qed

interpretation kta: table_alloc vbase_to_pbase pbase_to_vbase kpage_ok pt_calloc "\<lambda>st. page_heap (heap st)" free_pages free_count
proof
  fix st :: kpts and q assume "page_heap (heap st)" "q \<in> free_pages (heap st)"
  then show "kpage_ok q" using free_page_addr(2) by (auto simp: free_pages_def)
next
  fix st :: kpts assume "page_heap (heap st)" "0 < free_count (heap st)"
  then show "\<exists>q st'. pt_calloc PAGE_SIZE st = Some (q, st') \<and> q \<in> free_pages (heap st) \<and>
      free_pages (heap st') \<subseteq> free_pages (heap st) - {q} \<and> page_heap (heap st') \<and>
      free_count (heap st) \<le> Suc (free_count (heap st')) \<and> (\<forall>j < 512. words st' (slot q j) = 0) \<and>
      (\<forall>p j. page_aligned p \<longrightarrow> p \<noteq> q \<longrightarrow> j < 512 \<longrightarrow> words st' (slot p j) = words st (slot p j))"
    by (rule pt_calloc_page)
qed simp


section \<open>Mapping regions\<close>

definition as_wf :: "kpts \<Rightarrow> u64 \<Rightarrow> bool" where
  "as_wf st P \<longleftrightarrow> pt_wf vbase_to_pbase pbase_to_vbase kpage_ok (words st) P (free_pages (heap st)) \<and> page_heap (heap st)"

lemma tinv_as_wf: "kta.tinv = as_wf"
  by (intro ext) (simp add: kta.tinv_def as_wf_def)

lemmas pt_map_ok = kta.gen_pt_map_ok [unfolded tinv_as_wf, folded pt_map_def]

lemma fresh_table:
  assumes "page_heap g" "page_aligned P" "P \<notin> free_pages g" "\<And>i. i < 512 \<Longrightarrow> w (slot P i) = 0"
  shows "as_wf \<lparr>words = w, heap = g\<rparr> P" "n < 2 ^ 27 \<Longrightarrow> xl pbase_to_vbase w P n = None" "l < 2 ^ 18 \<Longrightarrow> nosect pbase_to_vbase w P l"
  using kt.empty_table [of P "free_pages g" w] assms by (simp_all add: as_wf_def)

text \<open>The first page of a region and the pages it covers, inside its 512 GiB window.\<close>

definition vpn :: "mem_region \<Rightarrow> nat" where
  "vpn r = unat (r_vbase r) mod 2 ^ 39 div 4096"

definition region_pages :: "mem_region \<Rightarrow> nat set" where
  "region_pages r = {vpn r ..< vpn r + pages_for (r_size r)}"

definition region_ok :: "mem_region \<Rightarrow> u64 \<Rightarrow> bool" where
  "region_ok r attr \<longleftrightarrow> page_aligned (r_vbase r) \<and>
     map_request (unat (r_vbase r) div 2 ^ 39) (r_vbase r) (r_pbase r) (r_size r) attr (vpn r)"

text \<open>A list of regions with their attributes, mapped in order.\<close>

fun map_all :: "kpts \<Rightarrow> u64 \<Rightarrow> (mem_region \<times> u64) list \<Rightarrow> kpts option" where
  "map_all st P [] = Some st"
| "map_all st P ((r, at) # rs) = do { st \<leftarrow> region_map st P r at; map_all st P rs }"

lemma map_all_append: "map_all st P (xs @ ys) = do { st \<leftarrow> map_all st P xs; map_all st P ys }"
  by (induction st P xs rule: map_all.induct) (auto split: bind_split)

definition touches :: "mem_region \<Rightarrow> nat \<Rightarrow> bool" where
  "touches r l \<longleftrightarrow> vpn r div 512 \<le> l \<and> 512 * l < vpn r + pages_for (r_size r)"

lemma region_touched:
  assumes "region_pages r \<inter> region_pages r' = {}" "touches r' l" "0 < pages_for (r_size r')"
  shows "\<not> (vpn r \<le> 512 * l \<and> 512 * l + 512 \<le> vpn r + pages_for (r_size r))"
proof
  assume c: "vpn r \<le> 512 * l \<and> 512 * l + 512 \<le> vpn r + pages_for (r_size r)"
  define n where "n = max (512 * l) (vpn r')"
  have "vpn r' < 512 * l + 512" using assms(2) unfolding touches_def by linarith
  then have "n \<in> region_pages r" "n \<in> region_pages r'"
    using c assms(2,3) by (auto simp: n_def region_pages_def touches_def)
  then show False using assms(1) by auto
qed

definition region_xl :: "kpts \<Rightarrow> u64 \<Rightarrow> mem_region \<Rightarrow> u64 \<Rightarrow> bool" where
  "region_xl st P r at \<longleftrightarrow> (\<forall>n \<in> region_pages r.
     xl pbase_to_vbase (words st) P n = Some (r_pbase r + 4096 * word_of_nat (n - vpn r), at AND ATTRS))"

lemma region_okD:
  assumes "region_ok r at"
  shows "0 < pages_for (r_size r)" "n \<in> region_pages r \<Longrightarrow> n < 2 ^ 27" "touches r l \<Longrightarrow> l < 2 ^ 18"
proof -
  have m: "vpn r + pages_for (r_size r) \<le> 2 ^ 27" "r_size r \<noteq> 0" using assms by (simp_all add: region_ok_def map_request_def)
  show "0 < pages_for (r_size r)" using m(2) by (simp add: pages_for_def unat_gt_0 div_greater_zero_iff Suc_leI)
  show "n \<in> region_pages r \<Longrightarrow> n < 2 ^ 27" "touches r l \<Longrightarrow> l < 2 ^ 18" using m(1) by (auto simp: region_pages_def touches_def)
qed

lemma region_map_ok:
  assumes "as_wf st P" "P \<noteq> 0" "tables_for (vpn r) (r_size r) \<le> free_count (heap st)" "region_ok r at"
    "\<And>l. touches r l \<Longrightarrow> nosect pbase_to_vbase (words st) P l"
  shows "\<exists>st'. region_map st P r at = Some st' \<and> as_wf st' P \<and>
    free_count (heap st) \<le> free_count (heap st') + tables_for (vpn r) (r_size r) \<and>
    mapped pbase_to_vbase (words st) (words st') P (vpn r) (vpn r + pages_for (r_size r)) (r_pbase r) (at AND ATTRS)"
  unfolding region_map_def using assms by (intro pt_map_ok) (auto simp: region_ok_def touches_def)

lemma map_all_ok:
  assumes "as_wf st P" "P \<noteq> 0" "\<forall>(r, at) \<in> set rs. region_ok r at"
    "sorted_wrt (\<lambda>x y. region_pages (fst x) \<inter> region_pages (fst y) = {}) rs"
    "(\<Sum>(r, at) \<leftarrow> rs. tables_for (vpn r) (r_size r)) \<le> free_count (heap st)"
    "\<forall>(r, at) \<in> set rs. \<forall>l. touches r l \<longrightarrow> nosect pbase_to_vbase (words st) P l"
  shows "\<exists>st'. map_all st P rs = Some st' \<and> as_wf st' P \<and> (\<forall>(r, at) \<in> set rs. region_xl st' P r at) \<and>
    (\<forall>n < 2 ^ 27. (\<forall>(r, at) \<in> set rs. n \<notin> region_pages r) \<longrightarrow>
       xl pbase_to_vbase (words st') P n = xl pbase_to_vbase (words st) P n)"
  using assms
proof (induction rs arbitrary: st)
  case (Cons x rs)
  obtain r at where x: "x = (r, at)" by (cases x)
  have ok: "region_ok r at" using Cons.prems(3) x by simp
  obtain s1 where s1: "region_map st P r at = Some s1" "as_wf s1 P"
      "free_count (heap st) \<le> free_count (heap s1) + tables_for (vpn r) (r_size r)"
      "mapped pbase_to_vbase (words st) (words s1) P (vpn r) (vpn r + pages_for (r_size r)) (r_pbase r) (at AND ATTRS)"
    using region_map_ok [OF Cons.prems(1,2) _ ok] Cons.prems(5,6) x by auto
  have xl1: "xl pbase_to_vbase (words s1) P n = (if n \<in> region_pages r
      then Some (r_pbase r + 4096 * word_of_nat (n - vpn r), at AND ATTRS) else xl pbase_to_vbase (words st) P n)"
    if "n < 2 ^ 27" for n using s1(4) that by (simp add: mapped_def region_pages_def)
  have apart: "region_pages r \<inter> region_pages r' = {}" if "(r', at') \<in> set rs" for r' at'
    using Cons.prems(4) bspec [OF _ that, of "\<lambda>y. region_pages r \<inter> region_pages (fst y) = {}"] x by simp
  have "nosect pbase_to_vbase (words s1) P l" if "(r', at') \<in> set rs" "touches r' l" for r' at' l
  proof (rule mapped_nosect [OF s1(4)])
    have ok': "region_ok r' at'" "region_pages r \<inter> region_pages r' = {}" using Cons.prems(3) apart that(1) by auto
    show "\<not> (vpn r \<le> 512 * l \<and> 512 * l + 512 \<le> vpn r + pages_for (r_size r))"
      by (rule region_touched [OF ok'(2) that(2) region_okD(1) [OF ok'(1)]])
    show "l < 2 ^ 18" by (rule region_okD(3) [OF ok'(1) that(2)])
    show "nosect pbase_to_vbase (words st) P l" using Cons.prems(6) that by auto
  qed
  then have "\<exists>st'. map_all s1 P rs = Some st' \<and> as_wf st' P \<and> (\<forall>(r, at) \<in> set rs. region_xl st' P r at) \<and>
    (\<forall>n < 2 ^ 27. (\<forall>(r, at) \<in> set rs. n \<notin> region_pages r) \<longrightarrow>
       xl pbase_to_vbase (words st') P n = xl pbase_to_vbase (words s1) P n)"
    using Cons.prems(2-5) s1(2,3) x by (intro Cons.IH) auto
  then obtain s2 where s2: "map_all s1 P rs = Some s2" "as_wf s2 P" "\<forall>(r, at) \<in> set rs. region_xl s2 P r at"
     "\<And>n. n < 2 ^ 27 \<Longrightarrow> (\<forall>(r, at) \<in> set rs. n \<notin> region_pages r) \<Longrightarrow>
       xl pbase_to_vbase (words s2) P n = xl pbase_to_vbase (words s1) P n" by blast
  have "region_xl s2 P r at"
    unfolding region_xl_def
  proof
    fix n assume n: "n \<in> region_pages r"
    then have "n < 2 ^ 27" by (rule region_okD(2) [OF ok])
    moreover have "\<forall>(r', at') \<in> set rs. n \<notin> region_pages r'" using apart n by blast
    ultimately show "xl pbase_to_vbase (words s2) P n = Some (r_pbase r + 4096 * word_of_nat (n - vpn r), at AND ATTRS)"
      using s2(4) xl1 n by simp
  qed
  then show ?case using s1(1) s2 xl1 x by auto
qed simp


section \<open>The kernel's address space\<close>

definition kernel_regions ::
  "image_region \<Rightarrow> mem_region \<Rightarrow> mem_region \<Rightarrow> mem_region list \<Rightarrow> (mem_region \<times> u64) list" where
  "kernel_regions img elf hp devs =
     [(i_code img, PAGE_KERNEL_ROX), (i_rodata img, PAGE_KERNEL_RO), (i_data img, PAGE_KERNEL), (i_bss img, PAGE_KERNEL),
      (elf, PAGE_KERNEL), (hp, PAGE_KERNEL)] @
     map (\<lambda>r. (r, PROT_SECT_DEVICE_nGnRE)) (takeWhile (\<lambda>r. r_size r \<noteq> 0) devs)"

lemma kernel_as_dev_mapping_eq:
  "\<exists>r \<in> set devs. r_size r = 0 \<Longrightarrow> kernel_as_dev_mapping st P devs =
     map_all st P (map (\<lambda>r. (r, PROT_SECT_DEVICE_nGnRE)) (takeWhile (\<lambda>r. r_size r \<noteq> 0) devs))"
  by (induction st P devs rule: kernel_as_dev_mapping.induct) (auto split: bind_split)

lemma as_initialize_eq:
  assumes "\<exists>r \<in> set devs. r_size r = 0"
  shows "as_initialize s P img elf hp devs =
    do { st \<leftarrow> map_all (k_pts s) P (kernel_regions img elf hp devs); Some (kernel_as_switch (s\<lparr>k_pts := st\<rparr>) P) }"
  unfolding as_initialize_def kernel_regions_def kernel_as_dev_mapping_eq [OF assms]
  by (simp add: map_all_append kernel_as_image_mapping_def kernel_as_ram_mapping_def bind_assoc)

lemmas attr_defs = PAGE_KERNEL_ROX_def PAGE_KERNEL_RO_def PAGE_KERNEL_def PROT_NORMAL_def PROT_DEFAULT_def PROT_SECT_DEVICE_nGnRE_def
  PROT_SECT_DEFAULT_def PTE_WRITE_def PTE_DBM_def PTE_PXN_def PTE_UXN_def PTE_RDONLY_def PTE_USER_def PTE_NG_def PTE_AF_def PTE_SHARED_def
  PTE_TYPE_PAGE_def PTE_ATTRINDX_def MT_NORMAL_def MT_DEVICE_nGnRE_def PMD_TYPE_SECT_def PMD_SECT_AF_def PMD_SECT_S_def PMD_SECT_NG_def
  PMD_SECT_PXN_def PMD_SECT_UXN_def PMD_ATTRINDX_def

lemma attr_values:
  "PAGE_KERNEL_ROX = 0x40000000000F93" "PAGE_KERNEL_RO = 0x60000000000F93" "PAGE_KERNEL = 0x68000000000F13"
  "PROT_SECT_DEVICE_nGnRE = 0x60000000000F05" "PROT_DEFAULT = 0xF03" "PTE_USER = 0x40" "PTE_WRITE = 0x8000000000000" "PTE_PXN = 0x20000000000000"
  "PTE_RDONLY = 0x80" "PTE_UXN = 0x40000000000000" "PTE_ATTRINDX MT_NORMAL = 0x10" "PTE_ATTRINDX MT_DEVICE_nGnRE = 4"
  by (simp_all add: attr_defs)

lemma ATTRS_value: "ATTRS = 0xFFFF000000000FFC" "PA_MASK = 0xFFFFFFFFF000"
  by (simp_all add: ATTRS_def PA_MASK_def mask_eq_exp_minus_1)

lemma kernel_attrs:
  assumes "(r, at) \<in> set (kernel_regions img elf hp devs)"
  shows "bit (at AND ATTRS) 7 \<or> bit (at AND ATTRS) 53" "bit (at AND ATTRS) 54" "\<not> bit (at AND ATTRS) 6" "at AND PA_MASK = 0"
proof -
  have "at \<in> {PAGE_KERNEL_ROX, PAGE_KERNEL_RO, PAGE_KERNEL, PROT_SECT_DEVICE_nGnRE}"
    using assms by (auto simp: kernel_regions_def)
  then show "bit (at AND ATTRS) 7 \<or> bit (at AND ATTRS) 53" "bit (at AND ATTRS) 54" "\<not> bit (at AND ATTRS) 6" "at AND PA_MASK = 0"
    by (auto simp: attr_values ATTRS_value)
qed

lemma as_map_attr_bits:
  assumes "ramtype = RAM_NORMAL \<or> ramtype = RAM_DEVICE"
  shows "\<exists>at. as_map_attr prot ramtype = Some at \<and> at AND PA_MASK = 0 \<and> bit (at AND ATTRS) 6 \<and> bit (at AND ATTRS) 53 \<and>
    (bit (at AND ATTRS) 54 \<longleftrightarrow> prot AND PROT_EXEC = 0) \<and>
    (bit (at AND ATTRS) 7 \<longleftrightarrow> prot AND PROT_READ \<noteq> 0 \<and> prot AND PROT_WRITE = 0)"
  using assms unfolding as_map_attr_def attr_values ATTRS_value Let_def
  by (cases "prot AND PROT_READ = 0"; cases "prot AND PROT_WRITE = 0"; cases "prot AND PROT_EXEC = 0")
    (auto simp: RAM_NORMAL_def RAM_DEVICE_def)


lemma region_ok_attr: "region_ok r at \<longleftrightarrow> region_ok r 0 \<and> at AND PA_MASK = 0"
  by (auto simp: region_ok_def map_request_def)

lemma as_map_ok:
  assumes "as_wf st P" "P \<noteq> 0" "region_ok r 0" "tables_for (vpn r) (r_size r) \<le> free_count (heap st)"
    and "\<forall>l. touches r l \<longrightarrow> nosect pbase_to_vbase (words st) P l" "ramtype = RAM_NORMAL \<or> ramtype = RAM_DEVICE"
  shows "\<exists>st' at. as_map st P r prot ramtype = Some st' \<and> as_wf st' P \<and>
    (\<forall>n < 2 ^ 27. xl pbase_to_vbase (words st') P n =
       (if n \<in> region_pages r then Some (r_pbase r + 4096 * word_of_nat (n - vpn r), at)
        else xl pbase_to_vbase (words st) P n)) \<and>
    bit at 6 \<and> bit at 53 \<and> (bit at 54 \<longleftrightarrow> prot AND PROT_EXEC = 0) \<and>
    (bit at 7 \<longleftrightarrow> prot AND PROT_READ \<noteq> 0 \<and> prot AND PROT_WRITE = 0)"
proof -
  obtain at where at: "as_map_attr prot ramtype = Some at" "at AND PA_MASK = 0"
    and bits: "bit (at AND ATTRS) 6 \<and> bit (at AND ATTRS) 53 \<and> (bit (at AND ATTRS) 54 \<longleftrightarrow> prot AND PROT_EXEC = 0) \<and>
      (bit (at AND ATTRS) 7 \<longleftrightarrow> prot AND PROT_READ \<noteq> 0 \<and> prot AND PROT_WRITE = 0)"
    using as_map_attr_bits [OF assms(6), of prot] by blast
  have ok: "region_ok r at" using assms(3) at(2) region_ok_attr by blast
  obtain st' where st': "region_map st P r at = Some st'" "as_wf st' P"
    "mapped pbase_to_vbase (words st) (words st') P (vpn r) (vpn r + pages_for (r_size r)) (r_pbase r) (at AND ATTRS)"
    using region_map_ok [OF assms(1,2,4) ok] assms(5) by blast
  have "as_map st P r prot ramtype = Some st'" using st'(1) at(1) by (simp add: as_map_def region_map_def)
  moreover have "\<forall>n < 2 ^ 27. xl pbase_to_vbase (words st') P n =
       (if n \<in> region_pages r then Some (r_pbase r + 4096 * word_of_nat (n - vpn r), at AND ATTRS)
        else xl pbase_to_vbase (words st) P n)"
    using st'(3) by (simp add: mapped_def region_pages_def)
  ultimately show ?thesis using st'(2) bits by blast
qed

section \<open>Properties\<close>

text \<open>
  C19.  On well-formed tables \<^verbatim>\<open>pt_map\<close>, with table pages from the granule heap, returns whenever the heap
  has a page for every table the range can need and no 2 MiB slot that the range touches is already mapped by a block descriptor; the tables stay well formed, the pages of the
  range translate to consecutive frames with the given attributes and the translation of
  every other page is unchanged.
\<close>

theorem pt_map_changes_range:
  assumes "as_wf st P" "P \<noteq> 0" "map_request g v pa sz attr a" "tables_for a sz \<le> free_count (heap st)"
    and "\<forall>l. a div 512 \<le> l \<longrightarrow> 512 * l < a + pages_for sz \<longrightarrow> nosect pbase_to_vbase (words st) P l"
  shows "\<exists>st'. pt_map pt_calloc st P v pa sz attr = Some st' \<and> as_wf st' P \<and>
    (\<forall>n < 2 ^ 27. xl pbase_to_vbase (words st') P n =
       (if a \<le> n \<and> n < a + pages_for sz then Some (pa + 4096 * word_of_nat (n - a), attr AND ATTRS)
        else xl pbase_to_vbase (words st) P n))"
  using pt_map_ok [OF assms(1,2,4,3,5)] by (auto simp: mapped_def)

text \<open>A kernel heap of 64 free pages, an empty table below it, and the page-table state made of them.\<close>

abbreviation demo_pages :: mm_gran where
  "demo_pages \<equiv> \<lparr>log2gran = 12, ngranules = 64, heapstart = 0xffffff8001000000, gat = (\<lambda>_. 0)\<rparr>"

abbreviation demo_pts :: kpts where
  "demo_pts \<equiv> \<lparr>words = (\<lambda>_. 0), heap = demo_pages\<rparr>"

lemma demo_page_heap: "page_heap demo_pages" "free_count demo_pages = 64"
  by (simp_all add: page_heap_def wf_gran_def kpage_ok_def page_aligned_def RAM_VBASE_def free_count_def abit_def)

lemma demo_root:
  assumes "page_aligned P" "unat P < 0xffffff8001000000"
  shows "P \<notin> free_pages demo_pages" "as_wf demo_pts P" "l < 2 ^ 18 \<Longrightarrow> nosect pbase_to_vbase (\<lambda>_. 0) P l"
proof -
  have "unat (gran_addr demo_pages i) \<ge> 0xffffff8001000000" if "i < 64" for i
    using free_page_addr(1) [OF demo_page_heap(1), of i] that by simp
  then show n: "P \<notin> free_pages demo_pages" using assms(2) unfolding free_pages_def by force
  show "as_wf demo_pts P" "l < 2 ^ 18 \<Longrightarrow> nosect pbase_to_vbase (\<lambda>_. 0) P l"
    using fresh_table [OF demo_page_heap(1) assms(1) n] by simp_all
qed

theorem pt_map_changes_range_witness:
  "\<exists>st'. pt_map pt_calloc demo_pts 0xffffff8000900000 0x400000 0x40a00000 0x201000 PAGE_KERNEL = Some st' \<and>
     xl pbase_to_vbase (words st') 0xffffff8000900000 0x401 = Some (0x40a01000, 0x68000000000F10) \<and>
     xl pbase_to_vbase (words st') 0xffffff8000900000 0x601 = xl pbase_to_vbase (\<lambda>_. 0) 0xffffff8000900000 0x601"
proof -
  have P: "page_aligned 0xffffff8000900000" "unat (0xffffff8000900000 :: u64) < 0xffffff8001000000" by (simp_all add: page_aligned_def)
  have q: "map_request 0 0x400000 0x40a00000 0x201000 PAGE_KERNEL 0x400"
    by (simp add: map_request_def vpage_def pages_for_def page_aligned_def attr_values ATTRS_value)
  have t: "tables_for 0x400 0x201000 \<le> free_count (heap demo_pts)"
    by (simp add: demo_page_heap tables_for_def slots_def pages_for_def)
  have n: "\<forall>l. 0x400 div 512 \<le> l \<longrightarrow> 512 * l < 0x400 + pages_for 0x201000 \<longrightarrow> nosect pbase_to_vbase (words demo_pts) 0xffffff8000900000 l"
    using demo_root(3) [OF P] by (auto simp: pages_for_def)
  show ?thesis
    using pt_map_changes_range [OF demo_root(2) [OF P] _ q t n] by (fastforce simp: pages_for_def attr_values ATTRS_value)
qed


text \<open>
  C20.  \<^verbatim>\<open>as_initialize\<close> on an empty kernel table and regions whose pages do not overlap returns, makes
  the table the one in use with no stale cached translation, maps every region to its frames
  with its attributes, and maps nothing else.  No page of the kernel is both writable and
  executable by the kernel, and user code can neither access nor execute any of them.
\<close>

theorem as_initialize_maps:
  assumes "page_heap (heap (k_pts s))" "page_aligned P" "P \<noteq> 0" "P \<notin> free_pages (heap (k_pts s))"
    and "\<forall>i < 512. words (k_pts s) (slot P i) = 0"
    and "rs = kernel_regions img elf hp devs" "\<exists>r \<in> set devs. r_size r = 0"
    and "\<forall>(r, at) \<in> set rs. region_ok r 0"
    and "sorted_wrt (\<lambda>x y. region_pages (fst x) \<inter> region_pages (fst y) = {}) rs"
    and "(\<Sum>(r, at) \<leftarrow> rs. tables_for (vpn r) (r_size r)) \<le> free_count (heap (k_pts s))"
  shows "\<exists>s'. as_initialize s P img elf hp devs = Some s' \<and> ttbr1 s' = vbase_to_pbase P \<and> tlb s' = Map.empty \<and>
    as_wf (k_pts s') P \<and> (\<forall>(r, at) \<in> set rs. region_xl (k_pts s') P r at) \<and>
    (\<forall>n < 2 ^ 27. \<forall>pa at. xl pbase_to_vbase (words (k_pts s')) P n = Some (pa, at) \<longrightarrow>
       (\<exists>(r, at') \<in> set rs. n \<in> region_pages r) \<and> (bit at 7 \<or> bit at 53) \<and> bit at 54 \<and> \<not> bit at 6)"
proof -
  let ?x = "\<lambda>st. xl pbase_to_vbase (words st) P"
  note f = fresh_table [OF assms(1,2,4), of "words (k_pts s)"]
  have wf: "as_wf (k_pts s) P" using f(1) assms(5) by (simp add: as_wf_def)
  have ok: "\<forall>(r, at) \<in> set rs. region_ok r at" using assms(8) kernel_attrs(4) assms(6) region_ok_attr by blast
  have no: "\<forall>(r, at) \<in> set rs. \<forall>l. touches r l \<longrightarrow> nosect pbase_to_vbase (words (k_pts s)) P l"
    using f(3) assms(5) region_okD(3) ok by blast
  obtain st where st: "map_all (k_pts s) P rs = Some st" "as_wf st P" "\<forall>(r, at) \<in> set rs. region_xl st P r at"
      and oth: "\<forall>n < 2 ^ 27. (\<forall>(r, at) \<in> set rs. n \<notin> region_pages r) \<longrightarrow> ?x st n = ?x (k_pts s) n"
    using map_all_ok [OF wf assms(3) ok assms(9,10) no] by blast
  have all: "(\<exists>(r, at') \<in> set rs. n \<in> region_pages r) \<and> (bit at 7 \<or> bit at 53) \<and> bit at 54 \<and> \<not> bit at 6"
    if n: "n < 2 ^ 27" "?x st n = Some (pa, at)" for n pa at
  proof -
    have "?x (k_pts s) n = None" using f(2) [OF _ n(1)] assms(5) by simp
    then obtain r at' where r: "(r, at') \<in> set rs" "n \<in> region_pages r" using oth n by fastforce
    then have "at = at' AND ATTRS" using st(3) n(2) by (auto simp: region_xl_def)
    then show ?thesis using r kernel_attrs [of r at'] assms(6) by blast
  qed
  have run: "as_initialize s P img elf hp devs = Some (kernel_as_switch (s\<lparr>k_pts := st\<rparr>) P)"
    using as_initialize_eq [OF assms(7)] st(1) assms(6) by simp
  show ?thesis unfolding run using st(2,3) all by (simp add: kernel_as_switch_def Let_def)
qed

definition demo_region :: "u64 \<Rightarrow> u64 \<Rightarrow> mem_region" where
  "demo_region off sz = \<lparr>r_pbase = RAM_PBASE + off, r_vbase = RAM_VBASE + off, r_size = sz\<rparr>"

theorem as_initialize_maps_witness:
  "\<exists>s'. as_initialize \<lparr>k_pts = demo_pts, ttbr1 = 0, tlb = (\<lambda>_. Some (0, 0))\<rparr> 0xffffff8000900000
     \<lparr>i_code = demo_region 0x200000 0x3000, i_rodata = demo_region 0x203000 0x1000, i_data = demo_region 0x204000 0x2000,
      i_bss = demo_region 0x206000 0x1000\<rparr> (demo_region 0x207000 0x1800) (demo_region 0x400000 0x201000)
     [\<lparr>r_pbase = 0, r_vbase = 0xffffff8f00000000, r_size = 0x200000\<rparr>, \<lparr>r_pbase = 0, r_vbase = 0, r_size = 0\<rparr>] = Some s' \<and>
     xl pbase_to_vbase (words (k_pts s')) 0xffffff8000900000 0x202 = Some (0x40202000, 0x40000000000F90)"
proof -
  let ?img = "\<lparr>i_code = demo_region 0x200000 0x3000, i_rodata = demo_region 0x203000 0x1000, i_data = demo_region 0x204000 0x2000,
      i_bss = demo_region 0x206000 0x1000\<rparr>"
  let ?devs = "[\<lparr>r_pbase = 0, r_vbase = 0xffffff8f00000000, r_size = 0x200000\<rparr>, \<lparr>r_pbase = 0, r_vbase = 0, r_size = 0\<rparr>]"
  let ?s = "\<lparr>k_pts = demo_pts, ttbr1 = 0, tlb = (\<lambda>_. Some (0, 0))\<rparr>"
  have P: "page_aligned 0xffffff8000900000" "unat (0xffffff8000900000 :: u64) < 0xffffff8001000000" by (simp_all add: page_aligned_def)
  define rs where "rs = kernel_regions ?img (demo_region 0x207000 0x1800) (demo_region 0x400000 0x201000) ?devs"
  note defs = rs_def kernel_regions_def demo_region_def RAM_VBASE_def RAM_PBASE_def
  have ok: "\<forall>(r, at) \<in> set rs. region_ok r 0"
    by (simp add: defs region_ok_def vpn_def map_request_def vpage_def pages_for_def page_aligned_def)
  have dis: "sorted_wrt (\<lambda>x y. region_pages (fst x) \<inter> region_pages (fst y) = {}) rs"
    by (simp add: defs region_pages_def vpn_def pages_for_def)
  have sum: "(\<Sum>(r, at) \<leftarrow> rs. tables_for (vpn r) (r_size r)) \<le> free_count (heap (k_pts ?s))"
    by (simp add: defs demo_page_heap tables_for_def slots_def pages_for_def vpn_def)
  have m: "(demo_region 0x200000 0x3000, PAGE_KERNEL_ROX) \<in> set rs" by (simp add: rs_def kernel_regions_def)
  have v: "vpn (demo_region 0x200000 0x3000) = 0x200" "pages_for 0x3000 = 3"
    by (simp_all add: demo_region_def vpn_def RAM_VBASE_def pages_for_def)
  obtain s' where s': "as_initialize ?s 0xffffff8000900000 ?img (demo_region 0x207000 0x1800) (demo_region 0x400000 0x201000) ?devs = Some s'"
      "\<forall>(r, at) \<in> set rs. region_xl (k_pts s') 0xffffff8000900000 r at"
    using as_initialize_maps [of ?s, OF _ P(1) _ _ _ rs_def _ ok dis sum] demo_page_heap demo_root(1) [OF P] by auto
  then have "region_xl (k_pts s') 0xffffff8000900000 (demo_region 0x200000 0x3000) PAGE_KERNEL_ROX" using m by blast
  then show ?thesis using s'(1) v
    by (auto simp: region_xl_def region_pages_def demo_region_def attr_values ATTRS_value RAM_PBASE_def)
qed


text \<open>
  C21.  \<^verbatim>\<open>as_map\<close> maps exactly the pages of the region, provided that the heap has a page for every table
  the region can need and no 2 MiB slot that it touches is already mapped by a block descriptor, and every page it maps is accessible to user
  code, never executable by the kernel, executable by user code exactly when \<^verbatim>\<open>PROT_EXEC\<close> was asked for
  and read-only exactly when \<^verbatim>\<open>PROT_READ\<close> was asked for without \<^verbatim>\<open>PROT_WRITE\<close>.
\<close>

theorem as_map_permissions:
  assumes "as_wf st P" "P \<noteq> 0" "region_ok r 0" "tables_for (vpn r) (r_size r) \<le> free_count (heap st)"
    and "\<forall>l. touches r l \<longrightarrow> nosect pbase_to_vbase (words st) P l" "ramtype = RAM_NORMAL \<or> ramtype = RAM_DEVICE"
  shows "\<exists>st' at. as_map st P r prot ramtype = Some st' \<and> as_wf st' P \<and>
    (\<forall>n < 2 ^ 27. xl pbase_to_vbase (words st') P n =
       (if n \<in> region_pages r then Some (r_pbase r + 4096 * word_of_nat (n - vpn r), at)
        else xl pbase_to_vbase (words st) P n)) \<and>
    bit at 6 \<and> bit at 53 \<and> (bit at 54 \<longleftrightarrow> prot AND PROT_EXEC = 0) \<and>
    (bit at 7 \<longleftrightarrow> prot AND PROT_READ \<noteq> 0 \<and> prot AND PROT_WRITE = 0)"
  using as_map_ok [OF assms] .

theorem as_map_permissions_witness:
  "\<exists>st' at. as_map demo_pts 0xffffff8000900000 \<lparr>r_pbase = 0x41000000, r_vbase = 0x10000, r_size = 0x2000\<rparr> 5 RAM_NORMAL = Some st' \<and>
     xl pbase_to_vbase (words st') 0xffffff8000900000 0x11 = Some (0x41001000, at) \<and> bit at 7 \<and> \<not> bit at 54"
proof -
  let ?r = "\<lparr>r_pbase = 0x41000000, r_vbase = 0x10000, r_size = 0x2000\<rparr>"
  have P: "page_aligned 0xffffff8000900000" "unat (0xffffff8000900000 :: u64) < 0xffffff8001000000" by (simp_all add: page_aligned_def)
  have ok: "region_ok ?r 0"
    by (simp add: region_ok_def vpn_def map_request_def vpage_def pages_for_def page_aligned_def)
  have t: "tables_for (vpn ?r) (r_size ?r) \<le> free_count (heap demo_pts)"
    by (simp add: demo_page_heap tables_for_def slots_def pages_for_def vpn_def)
  have n: "\<forall>l. touches ?r l \<longrightarrow> nosect pbase_to_vbase (words demo_pts) 0xffffff8000900000 l"
    using demo_root(3) [OF P] region_okD(3) [OF ok] by simp
  have m: "17 \<in> region_pages ?r" "vpn ?r = 16" by (simp_all add: region_pages_def vpn_def pages_for_def)
  have p: "(5 :: u32) AND PROT_READ \<noteq> 0" "5 AND PROT_WRITE = 0" "5 AND PROT_EXEC \<noteq> 0"
    by (simp_all add: PROT_READ_def PROT_WRITE_def PROT_EXEC_def)
  show ?thesis
    using as_map_permissions [OF demo_root(2) [OF P] _ ok t n, of RAM_NORMAL 5] m p by fastforce
qed

end
