(* ===== verification/K_Mmap.thy ===== *)
theory K_Mmap
  imports K_Addrspace
begin

text \<open>
  Memory requests of user tasks, \<^verbatim>\<open>os/core/mm/mmap.c\<close>: \<^verbatim>\<open>brk\<close>, anonymous \<^verbatim>\<open>mmap\<close> and the list of
  mapped areas.

  The state is that of the current task: its memory descriptor, the list of its areas from the
  list head on (the newest first, since \<^verbatim>\<open>list_add\<close> inserts at the head), the address of its page
  table, and the tables with the granule heap.  Areas are values without the fields that the code
  never sets (\<^verbatim>\<open>vm_pgoff\<close>, \<^verbatim>\<open>vm_file_fd\<close>) and the back pointer to the descriptor; the block that
  holds one is allocated from the heap and its bytes are not modelled, nor are the messages.

  \<^verbatim>\<open>k_memset\<close> on the null pointer that \<^verbatim>\<open>gran_alloc\<close> returns when the heap is full is a fault of the
  kernel, \<open>None\<close>.
\<close>

section \<open>Data\<close>

record vm_area =
  vm_start :: u64
  vm_end :: u64
  vm_prot :: u64
  vm_flags :: u64
  vm_name :: string

record mmst =
  m_pts :: kpts
  m_as :: u64
  m_mm :: mm_area
  m_vmas :: "vm_area list"

definition MAP_SHARED :: u64 where "MAP_SHARED = 0x01"
definition MAP_PRIVATE :: u64 where "MAP_PRIVATE = 0x02"
definition MAP_FIXED :: u64 where "MAP_FIXED = 0x10"
definition MAP_ANON :: u64 where "MAP_ANON = 0x20"
definition MAP_ANONYMOUS :: u64 where "MAP_ANONYMOUS = MAP_ANON"
definition MAX_ERRNO :: u64 where "MAX_ERRNO = 4096"
definition ENOMEM :: u64 where "ENOMEM = 12"
definition EINVAL :: u64 where "EINVAL = 22"

definition IS_ERR_VALUE :: "u64 \<Rightarrow> bool" where
  "IS_ERR_VALUE x \<longleftrightarrow> - MAX_ERRNO \<le> x"

text \<open>\<^verbatim>\<open>sizeof(struct vm_area)\<close>: 72 bytes of fields and a name of 64.\<close>

definition SIZEOF_VM_AREA :: u64 where "SIZEOF_VM_AREA = 136"

section \<open>Operations\<close>

definition mmap_calloc :: "u64 \<Rightarrow> kpts \<Rightarrow> (u64 \<times> kpts) option" where
  "mmap_calloc sz st = do {
     (p, g) \<leftarrow> gran_alloc (heap st) sz;
     k_assert (p \<noteq> 0);
     Some (p, \<lparr>words = zero_words (words st) p sz, heap = g\<rparr>)
   }"

definition sys_brk :: "mmst \<Rightarrow> u64 \<Rightarrow> (u64 \<times> mmst) option" where
  "sys_brk s b =
     (if b < start_brk (m_mm s) then Some (brk (m_mm s), s)
      else
        let heap_size = (ucast (b - brk (m_mm s)) :: 32 word)
        in do {
          s \<leftarrow> (if 0 <s heap_size then do {
                 (vaddr, st) \<leftarrow> mmap_calloc (scast heap_size) (m_pts s);
                 let region = \<lparr>r_pbase = vbase_to_pbase vaddr, r_vbase = brk (m_mm s), r_size = scast heap_size\<rparr>;
                 st \<leftarrow> as_map st (m_as s) region (PROT_READ OR PROT_WRITE) RAM_NORMAL;
                 Some (s\<lparr>m_pts := st\<rparr>)
               } else Some s);
          let s = s\<lparr>m_mm := (m_mm s)\<lparr>brk := b\<rparr>\<rparr>;
          Some (brk (m_mm s), s)
        })"

definition find_free_vma :: "mm_area \<Rightarrow> vm_area list \<Rightarrow> vm_area \<Rightarrow> u64 \<Rightarrow> u64 \<times> vm_area" where
  "find_free_vma mm vmas vma len =
     (case vmas of
        [] \<Rightarrow> let vma = vma\<lparr>vm_start := mmap_base mm - len, vm_end := mmap_base mm\<rparr> in (vm_start vma, vma)
      | v # _ \<Rightarrow> let vma = vma\<lparr>vm_end := vm_start v, vm_start := vm_start v - len\<rparr> in (vm_start vma, vma))"

definition mmap_region :: "mmst \<Rightarrow> u64 \<Rightarrow> u64 \<Rightarrow> u64 \<Rightarrow> (u64 \<times> mmst) option" where
  "mmap_region s addr len prot = do {
     (vaddr, st) \<leftarrow> mmap_calloc len (m_pts s);
     let region = \<lparr>r_pbase = vbase_to_pbase vaddr, r_vbase = addr, r_size = len\<rparr>;
     st \<leftarrow> as_map st (m_as s) region (ucast prot) RAM_NORMAL;
     Some (addr, s\<lparr>m_pts := st\<rparr>)
   }"

definition area_name :: "u64 \<Rightarrow> string" where
  "area_name flags =
     (if flags = MAP_PRIVATE then ''MAP_PRIVATE''
      else if flags = MAP_PRIVATE OR MAP_ANONYMOUS then ''MAP_PRIVATE | MAP_ANONYMOUS''
      else if flags = MAP_PRIVATE OR MAP_ANONYMOUS OR MAP_FIXED then ''MAP_PRIVATE | MAP_ANONYMOUS | MAP_FIXED''
      else if flags = MAP_SHARED then ''MAP_SHARED''
      else if flags = MAP_SHARED OR MAP_ANONYMOUS then ''MAP_SHARED | MAP_ANONYMOUS''
      else if flags = MAP_SHARED OR MAP_ANONYMOUS OR MAP_FIXED then ''MAP_SHARED | MAP_ANONYMOUS | MAP_FIXED''
      else ''UNKNOWN'')"

definition do_mmap :: "mmst \<Rightarrow> u64 \<Rightarrow> u64 \<Rightarrow> u64 \<Rightarrow> u64 \<Rightarrow> (u64 \<times> mmst) option" where
  "do_mmap s addr len prot flags = do {
     (_, st) \<leftarrow> mmap_calloc SIZEOF_VM_AREA (m_pts s);
     let vma = \<lparr>vm_start = 0, vm_end = 0, vm_prot = prot, vm_flags = flags, vm_name = area_name flags\<rparr>;
     let (addr, vma) = (if addr = 0 then find_free_vma (m_mm s) (m_vmas s) vma len
                        else (addr, vma\<lparr>vm_start := addr, vm_end := addr + len\<rparr>));
     mmap_region (s\<lparr>m_pts := st, m_vmas := vma # m_vmas s\<rparr>) addr len prot
   }"

definition sys_mmap :: "mmst \<Rightarrow> u64 \<Rightarrow> u64 \<Rightarrow> u64 \<Rightarrow> u64 \<Rightarrow> u64 \<Rightarrow> u64 \<Rightarrow> (u64 \<times> mmst) option" where
  "sys_mmap s start len prot flags fd off =
     (if flags AND MAP_PRIVATE = 0 \<and> flags AND MAP_SHARED = 0 then Some (- EINVAL, s)
      else if len = 0 then Some (- EINVAL, s)
      else do {
        let len = PAGE_ALIGN len;
        let start = PAGE_ALIGN start;
        (ret, s) \<leftarrow> do_mmap s start len prot flags;
        Some (if IS_ERR_VALUE ret then - ENOMEM else ret, s)
      })"

definition sys_munmap :: "mmst \<Rightarrow> u64 \<Rightarrow> u64 \<Rightarrow> u64 \<times> mmst" where
  "sys_munmap s addr len = (0, s)"

section \<open>Blocks of the heap and the tables\<close>

lemma alloc_block:
  assumes h: "page_heap g" and r: "gran_alloc g sz = Some (a, g')" "a \<noteq> 0"
  obtains i n where "n = granule_count g sz" "a = gran_addr g i" "i + n \<le> gcount g" "unat sz \<le> n * 4096" "0 < n"
    "\<And>j. j < n \<Longrightarrow> \<not> abit (gat g) (i + j)" "g' = g\<lparr>gat := gat_or (gat g) i n\<rparr>"
proof -
  have g: "wf_gran g" "gshift g = 12" using h by (simp_all add: page_heap_def)
  show ?thesis using g(1) r(1)
  proof (cases rule: gran_alloc_cases)
    case (found i)
    note f = first_fit_Some [OF found(2,3)]
    have "unat sz \<le> granule_count g sz * 4096" using g(2) unfolding granule_count_def by simp
    then show ?thesis using that [OF refl found(4) f(2) _ found(3) _ found(5)] f(3) by (auto simp: free_run_def)
  qed (use r in simp)
qed


lemma zero_words_block:
  assumes h: "page_heap g" and i: "i + n \<le> gcount g" and sz: "unat sz \<le> n * 4096"
    and p: "page_aligned p" "\<And>j. j < n \<Longrightarrow> p \<noteq> gran_addr g (i + j)" and k: "k < 512"
  shows "zero_words w (gran_addr g i) sz (slot p k) = w (slot p k)"
proof -
  let ?a = "gran_addr g i"
  have wf: "wf_gran g" "gshift g = 12" "page_aligned (heapstart g)" using h by (simp_all add: page_heap_def kpage_ok_def)
  have top: "unat (heapstart g) + gcount g * 4096 < 2 ^ 64" using wf(1,2) by (simp add: wf_gran_def)
  have a: "unat ?a = unat (heapstart g) + i * 4096" using unat_gran_addr [OF wf(1), of i] i wf(2) by simp
  have s: "unat (slot p k) = unat p + 8 * k" by (rule unat_slot [OF p(1) k])
  have lim: "unat ?a + unat sz \<le> unat (heapstart g) + gcount g * 4096"
    using a sz mult_right_mono [OF i, of 4096] by (simp add: algebra_simps)
  have "\<not> slot p k - ?a < sz"
  proof
    assume lt: "slot p k - ?a < sz"
    show False
    proof (cases "unat ?a \<le> unat (slot p k)")
      case True
      then have d: "unat (slot p k - ?a) = unat p + 8 * k - unat ?a" using s by (simp add: unat_sub_if_size word_le_nat_alt)
      obtain c e where c: "unat p = 4096 * c" "unat (heapstart g) = 4096 * e" using p(1) wf(3) unfolding page_aligned_def dvd_def by blast
      define j where "j = c - (e + i)"
      have ge: "e + i \<le> c" using True s a c k by simp
      then have pj: "unat p = unat (heapstart g) + (i + j) * 4096" using c by (simp add: j_def)
      have "unat p + 8 * k - unat ?a < n * 4096" using lt d sz by (simp add: word_less_nat_alt)
      then have j: "j < n" using pj a by simp
      then have "unat (gran_addr g (i + j)) = unat p" using unat_gran_addr [OF wf(1), of "i + j"] i wf(2) pj by simp
      then show False using p(2) [OF j] by (simp add: word_unat_eq_iff)
    next
      case False
      then have "unat (slot p k - ?a) = 2 ^ 64 + unat (slot p k) - unat ?a"
        by (simp add: unat_sub_if_size word_le_nat_alt word_size)
      then show False using lt lim top by (simp add: word_less_nat_alt)
    qed
  qed
  then show ?thesis by (simp add: zero_words_def)
qed

lemma page_count: "gshift g = 12 \<Longrightarrow> granule_count g sz = pages_for sz"
  by (simp add: granule_count_def pages_for_def)

text \<open>An allocation that finds a run takes pages that no table uses.\<close>

lemma mmap_calloc_ok:
  assumes wf: "as_wf st P" and v: "valid_request (heap st) sz" and run: "\<exists>i. i + pages_for sz \<le> gcount (heap st) \<and> free_run (heap st) (pages_for sz) i"
  obtains i where "first_fit (heap st) (pages_for sz) = Some i"
    "mmap_calloc sz st = Some (gran_addr (heap st) i,
       \<lparr>words = zero_words (words st) (gran_addr (heap st) i) sz, heap = (heap st)\<lparr>gat := gat_or (gat (heap st)) i (pages_for sz)\<rparr>\<rparr>)"
    "as_wf \<lparr>words = zero_words (words st) (gran_addr (heap st) i) sz, heap = (heap st)\<lparr>gat := gat_or (gat (heap st)) i (pages_for sz)\<rparr>\<rparr> P"
    "same_xl pbase_to_vbase (words st) (zero_words (words st) (gran_addr (heap st) i) sz) P"
    "free_count (heap st) = free_count ((heap st)\<lparr>gat := gat_or (gat (heap st)) i (pages_for sz)\<rparr>) + pages_for sz"
proof -
  let ?g = "heap st" and ?n = "pages_for sz"
  have h: "page_heap ?g" and pw: "pt_wf vbase_to_pbase pbase_to_vbase kpage_ok (words st) P (free_pages ?g)"
    using wf by (simp_all add: as_wf_def)
  have g: "wf_gran ?g" "gshift ?g = 12" using h by (simp_all add: page_heap_def)
  have n: "granule_count ?g sz = ?n" "0 < ?n" using page_count [OF g(2)] granules_for_eq(3) [OF g(1)] v by (auto simp: valid_request_def)
  have "first_fit ?g ?n \<noteq> None"
    using run unfolding first_fit_def first_from_None_iff by (auto simp: less_diff_conv less_Suc_eq_le)
  then obtain i where i: "first_fit ?g ?n = Some i" by blast
  note f = first_fit_Some [OF i n(2)]
  let ?g' = "?g\<lparr>gat := gat_or (gat ?g) i ?n\<rparr>" and ?w = "zero_words (words st) (gran_addr ?g i) sz"
  have nz: "gran_addr ?g i \<noteq> 0" using f(1) by (intro gran_addr_nonzero [OF g(1)]) simp
  have call: "mmap_calloc sz st = Some (gran_addr ?g i, \<lparr>words = ?w, heap = ?g'\<rparr>)"
    unfolding mmap_calloc_def gran_alloc_eq [OF g(1) v n(1)] i using nz by simp
  have sz: "unat sz \<le> ?n * 4096" unfolding pages_for_def by linarith
  have fr: "gran_addr ?g (i + j) \<in> free_pages ?g" if "j < ?n" for j
    using f(2,3) that unfolding free_pages_def free_run_def by auto
  have same: "same_tables pbase_to_vbase (words st) ?w P"
    unfolding same_tables_def
  proof (intro allI impI)
    fix a p k assume p: "page_of pbase_to_vbase (words st) P a = Some p" and k: "k < (512 :: nat)"
    show "?w (slot p k) = words st (slot p k)"
      using kt.wfD(5,6) [OF pw p] fr by (intro zero_words_block [OF h f(2) sz _ _ k]) auto
  qed
  have sub: "free_pages ?g' \<subseteq> free_pages ?g" unfolding free_pages_def by (auto simp: abit_gat_or)
  have wf': "as_wf \<lparr>words = ?w, heap = ?g'\<rparr> P"
    using kt.wf_mono [OF kt.agree_wf [OF pw same] sub] h by (simp add: as_wf_def page_heap_def)
  have sx: "same_xl pbase_to_vbase (words st) ?w P"
    by (rule same_xlI) (simp_all add: kt.agree_xl [OF pw same] kt.agree_pages [OF same])
  have "{j. j < gcount ?g \<and> \<not> abit (gat ?g) j} = {j. j < gcount ?g' \<and> \<not> abit (gat ?g') j} \<union> {i..<i + ?n}"
    using f(2,3) by (auto simp: abit_gat_or free_run_def)
  moreover have "{j. j < gcount ?g' \<and> \<not> abit (gat ?g') j} \<inter> {i..<i + ?n} = {}" by (auto simp: abit_gat_or)
  ultimately have "free_count ?g = free_count ?g' + ?n"
    unfolding free_count_def by (simp add: card_Un_disjoint)
  then show ?thesis using that [OF i call wf' sx] by blast
qed

lemma run_after_page:
  assumes i: "first_fit g 1 = Some i" and r: "r + Suc n \<le> gcount g" "free_run g (Suc n) r"
  shows "\<exists>r'. r' + n \<le> gcount g \<and> free_run (g\<lparr>gat := gat_or (gat g) i 1\<rparr>) n r'"
proof -
  have f: "i < gcount g" "\<And>j. j < i \<Longrightarrow> \<not> free_run g 1 j" using first_fit_Some [OF i] by auto
  have "free_run g 1 r" using r(2) by (auto simp: free_run_def)
  then have "i \<le> r" using f(2) [of r] by (meson not_le)
  then have "free_run (g\<lparr>gat := gat_or (gat g) i 1\<rparr>) n (Suc r)"
    using r(2) unfolding free_run_def by (auto simp: abit_gat_or simp del: One_nat_def)
  then show ?thesis using r(1) by (intro exI [of _ "Suc r"]) simp
qed


lemma unat_vbase_to_pbase:
  assumes "RAM_VBASE \<le> q"
  shows "unat (vbase_to_pbase q) = unat q - unat RAM_VBASE + unat RAM_PBASE"
proof -
  have d: "unat (q - RAM_VBASE) = unat q - unat RAM_VBASE" using assms by (simp add: unat_sub_if_size word_le_nat_alt)
  have "unat q - unat RAM_VBASE + unat RAM_PBASE < 2 ^ 64" using unat_u64_bound [of q] by (simp add: RAM_VBASE_def RAM_PBASE_def)
  then show ?thesis unfolding vbase_to_pbase_def d [symmetric] by (intro unat_add_small) (simp add: d)
qed

lemma block_frames:
  assumes h: "page_heap g" and i: "i + n \<le> gcount g" "free_run g n i" "0 < n"
  shows "page_aligned (vbase_to_pbase (gran_addr g i))" "unat (vbase_to_pbase (gran_addr g i)) + 4096 * n \<le> 2 ^ 48"
    "k < n \<Longrightarrow> pbase_to_vbase (vbase_to_pbase (gran_addr g i) + 4096 * word_of_nat k) \<in> free_pages g"
proof -
  have wf: "wf_gran g" "gshift g = 12" using h by (simp_all add: page_heap_def)
  have ok: "kpage_ok (gran_addr g i)" using free_page_addr(2) [OF h, of i] i by simp
  then show "page_aligned (vbase_to_pbase (gran_addr g i))" using to_p_desc(2) by (simp add: kpage_ok_def)
  have a: "unat (gran_addr g i) = unat (heapstart g) + i * 4096" using free_page_addr(1) [OF h, of i] i by simp
  have top: "unat (heapstart g) + gcount g * 4096 < 2 ^ 64" using wf by (simp add: wf_gran_def)
  have "i * 4096 + n * 4096 \<le> gcount g * 4096" using mult_right_mono [OF i(1), of 4096] by (simp add: algebra_simps)
  then have "unat (gran_addr g i) + 4096 * n < 2 ^ 64" using a top by linarith
  then show "unat (vbase_to_pbase (gran_addr g i)) + 4096 * n \<le> 2 ^ 48"
    using unat_vbase_to_pbase [of "gran_addr g i"] ok by (simp add: kpage_ok_def RAM_VBASE_def RAM_PBASE_def word_le_nat_alt)
  assume k: "k < n"
  have "gran_addr g (i + k) = gran_addr g i + 4096 * word_of_nat k"
    unfolding gran_addr_def wf(2) by (simp add: algebra_simps)
  then have "pbase_to_vbase (vbase_to_pbase (gran_addr g i) + 4096 * word_of_nat k) = gran_addr g (i + k)"
    by (simp add: pbase_to_vbase_def vbase_to_pbase_def)
  moreover have "gran_addr g (i + k) \<in> free_pages g" using k i unfolding free_pages_def free_run_def by auto
  ultimately show "pbase_to_vbase (vbase_to_pbase (gran_addr g i) + 4096 * word_of_nat k) \<in> free_pages g" by simp
qed

text \<open>The permissions that \<^verbatim>\<open>as_map\<close> gives for a protection.\<close>

definition user_perms :: "u32 \<Rightarrow> u64 \<Rightarrow> bool" where
  "user_perms prot at \<longleftrightarrow> bit at 6 \<and> bit at 53 \<and> (bit at 54 \<longleftrightarrow> prot AND PROT_EXEC = 0) \<and>
     (bit at 7 \<longleftrightarrow> prot AND PROT_READ \<noteq> 0 \<and> prot AND PROT_WRITE = 0)"

text \<open>
  \<open>fresh_map st st' P lo n prot\<close>: from \<open>st\<close> to \<open>st'\<close> the \<open>n\<close> pages from \<open>lo\<close> on were mapped to frames that
  were free, and nothing else changed in the translation.
\<close>

definition fresh_map :: "kpts \<Rightarrow> kpts \<Rightarrow> u64 \<Rightarrow> nat \<Rightarrow> nat \<Rightarrow> u32 \<Rightarrow> bool" where
  "fresh_map st st' P lo n prot \<longleftrightarrow> (\<exists>pa at. user_perms prot at \<and>
     (\<forall>k < n. pbase_to_vbase (pa + 4096 * word_of_nat k) \<in> free_pages (heap st)) \<and>
     (\<forall>x < 2 ^ 27. xl pbase_to_vbase (words st') P x =
        (if lo \<le> x \<and> x < lo + n then Some (pa + 4096 * word_of_nat (x - lo), at) else xl pbase_to_vbase (words st) P x)))"

lemma fresh_map_from:
  assumes "fresh_map st1 st2 P lo n prot" "same_xl pbase_to_vbase (words st) (words st1) P" "free_pages (heap st1) \<subseteq> free_pages (heap st)"
  shows "fresh_map st st2 P lo n prot"
proof -
  obtain pa at where p: "user_perms prot at" "\<forall>k < n. pbase_to_vbase (pa + 4096 * word_of_nat k) \<in> free_pages (heap st1)"
    "\<forall>x < 2 ^ 27. xl pbase_to_vbase (words st2) P x =
        (if lo \<le> x \<and> x < lo + n then Some (pa + 4096 * word_of_nat (x - lo), at) else xl pbase_to_vbase (words st1) P x)"
    using assms(1) unfolding fresh_map_def by blast
  have "\<forall>x < 2 ^ 27. xl pbase_to_vbase (words st2) P x =
        (if lo \<le> x \<and> x < lo + n then Some (pa + 4096 * word_of_nat (x - lo), at) else xl pbase_to_vbase (words st) P x)"
    using p(3) assms(2) by (simp add: same_xl_def)
  moreover have "\<forall>k < n. pbase_to_vbase (pa + 4096 * word_of_nat k) \<in> free_pages (heap st)" using p(2) assms(3) by blast
  ultimately show ?thesis unfolding fresh_map_def using p(1) by blast
qed

lemma alloc_and_map:
  assumes wf: "as_wf st P" and P: "P \<noteq> 0" and v: "valid_request (heap st) sz"
    and run: "\<exists>i. i + pages_for sz \<le> gcount (heap st) \<and> free_run (heap st) (pages_for sz) i"
    and a: "page_aligned addr" "vpn \<lparr>r_pbase = 0, r_vbase = addr, r_size = sz\<rparr> = lo" "lo + pages_for sz \<le> 2 ^ 27"
      "unat addr + 4096 * pages_for sz + 2 ^ 30 \<le> 2 ^ 64"
    and fc: "pages_for sz + tables_for lo sz \<le> free_count (heap st)"
    and no: "\<And>l. lo div 512 \<le> l \<Longrightarrow> 512 * l < lo + pages_for sz \<Longrightarrow> nosect pbase_to_vbase (words st) P l"
  shows "\<exists>b st1 st2. mmap_calloc sz st = Some (b, st1) \<and>
    as_map st1 P \<lparr>r_pbase = vbase_to_pbase b, r_vbase = addr, r_size = sz\<rparr> prot RAM_NORMAL = Some st2 \<and>
    as_wf st2 P \<and> fresh_map st st2 P lo (pages_for sz) prot"
proof -
  obtain i where i: "first_fit (heap st) (pages_for sz) = Some i"
    and c: "mmap_calloc sz st = Some (gran_addr (heap st) i,
       \<lparr>words = zero_words (words st) (gran_addr (heap st) i) sz, heap = (heap st)\<lparr>gat := gat_or (gat (heap st)) i (pages_for sz)\<rparr>\<rparr>)"
      "as_wf \<lparr>words = zero_words (words st) (gran_addr (heap st) i) sz, heap = (heap st)\<lparr>gat := gat_or (gat (heap st)) i (pages_for sz)\<rparr>\<rparr> P"
      "same_xl pbase_to_vbase (words st) (zero_words (words st) (gran_addr (heap st) i) sz) P"
      "free_count (heap st) = free_count ((heap st)\<lparr>gat := gat_or (gat (heap st)) i (pages_for sz)\<rparr>) + pages_for sz"
    by (rule mmap_calloc_ok [OF wf v run])
  define st1 where "st1 = \<lparr>words = zero_words (words st) (gran_addr (heap st) i) sz,
    heap = (heap st)\<lparr>gat := gat_or (gat (heap st)) i (pages_for sz)\<rparr>\<rparr>"
  let ?b = "gran_addr (heap st) i"
  have call: "mmap_calloc sz st = Some (?b, st1)" using c(1) by (simp only: st1_def)
  have st1: "as_wf st1 P" "same_xl pbase_to_vbase (words st) (words st1) P" "free_count (heap st) = free_count (heap st1) + pages_for sz"
    using c(2-4) by (simp_all add: st1_def)
  let ?r = "\<lparr>r_pbase = vbase_to_pbase ?b, r_vbase = addr, r_size = sz\<rparr>"
  have h: "page_heap (heap st)" using wf by (simp add: as_wf_def)
  have nz: "sz \<noteq> 0" "0 < pages_for sz" using v by (auto simp: valid_request_def pages_for_def)
  note f = first_fit_Some [OF i nz(2)]
  note bf = block_frames [OF h f(2,3) nz(2)]
  have vpn: "vpn ?r = lo" using a(2) by (simp add: vpn_def)
  have va: "vpage (unat addr div 2 ^ 39) addr lo"
  proof -
    obtain c where c: "unat addr = 4096 * c" using a(1) unfolding page_aligned_def dvd_def by blast
    have "unat addr mod 2 ^ 39 = 4096 * (c mod 2 ^ 27)" unfolding c mult_mod_right by simp
    then have "4096 * lo = unat addr mod 2 ^ 39" using a(2) by (simp add: vpn_def)
    then show ?thesis by (simp add: vpage_def)
  qed
  have ok: "region_ok ?r 0" using a va bf nz(1) vpn by (simp add: region_ok_def map_request_def)
  have "\<forall>l. touches ?r l \<longrightarrow> nosect pbase_to_vbase (words st1) P l"
    using no st1(2) region_okD(3) [OF ok] vpn by (auto simp: touches_def same_xl_def)
  moreover have "tables_for (vpn ?r) (r_size ?r) \<le> free_count (heap st1)" using fc st1(3) vpn by simp
  ultimately obtain st2 at where st2: "as_map st1 P ?r prot RAM_NORMAL = Some st2" "as_wf st2 P" "user_perms prot at"
    and x2: "\<forall>n < 2 ^ 27. xl pbase_to_vbase (words st2) P n = (if n \<in> region_pages ?r
       then Some (r_pbase ?r + 4096 * word_of_nat (n - vpn ?r), at) else xl pbase_to_vbase (words st1) P n)"
    using as_map_ok [OF st1(1) P ok, of RAM_NORMAL prot] unfolding user_perms_def by blast
  have "fresh_map st st2 P lo (pages_for sz) prot"
    unfolding fresh_map_def
    using st2(3) bf(3) x2 st1(2) vpn by (intro exI [of _ "vbase_to_pbase ?b"] exI [of _ at]) (auto simp: region_pages_def same_xl_def)
  then show ?thesis using call st2(1,2) by blast
qed


section \<open>Anonymous mappings\<close>

text \<open>Where the next mapping without an address ends.\<close>

definition mmap_top :: "mmst \<Rightarrow> u64" where
  "mmap_top s = (case m_vmas s of [] \<Rightarrow> mmap_base (m_mm s) | v # _ \<Rightarrow> vm_start v)"

lemma find_free_vma_eq:
  "find_free_vma (m_mm s) (m_vmas s) vma len =
     (mmap_top s - len, vma\<lparr>vm_start := mmap_top s - len, vm_end := mmap_top s\<rparr>)"
  by (simp add: find_free_vma_def mmap_top_def Let_def split: list.split)

lemma PAGE_ALIGN_pages:
  assumes "pages_for len \<le> 32"
  shows "PAGE_ALIGN len = 4096 * word_of_nat (pages_for len)" "unat (PAGE_ALIGN len) = 4096 * pages_for len"
    "pages_for (PAGE_ALIGN len) = pages_for len"
proof -
  have "unat len \<le> 4096 * pages_for len" unfolding pages_for_def by linarith
  then have "unat len \<le> 131072" using assms by simp
  then show u: "unat (PAGE_ALIGN len) = 4096 * pages_for len"
    unfolding PAGE_ALIGN_def by (subst unat_ALIGN) (simp_all add: pages_for_def)
  have "PAGE_ALIGN len = word_of_nat (unat (PAGE_ALIGN len))" by simp
  then show "PAGE_ALIGN len = 4096 * word_of_nat (pages_for len)" unfolding u by (simp only: of_nat_mult of_nat_numeral)
  show "pages_for (PAGE_ALIGN len) = pages_for len" unfolding pages_for_def [of "PAGE_ALIGN len"] u by simp
qed

lemma vma_block:
  assumes wf: "as_wf st P" and r: "r + Suc n \<le> gcount (heap st)" "free_run (heap st) (Suc n) r"
  shows "\<exists>b st1. mmap_calloc SIZEOF_VM_AREA st = Some (b, st1) \<and> as_wf st1 P \<and> same_xl pbase_to_vbase (words st) (words st1) P \<and>
    free_count (heap st) = free_count (heap st1) + 1 \<and> free_pages (heap st1) \<subseteq> free_pages (heap st) \<and>
    (\<exists>r'. r' + n \<le> gcount (heap st1) \<and> free_run (heap st1) n r')"
proof -
  have p: "pages_for SIZEOF_VM_AREA = 1" by (simp add: pages_for_def SIZEOF_VM_AREA_def)
  have v: "valid_request (heap st) SIZEOF_VM_AREA" using wf by (simp add: as_wf_def page_heap_def valid_request_def SIZEOF_VM_AREA_def)
  have "free_run (heap st) 1 r" using r(2) by (auto simp: free_run_def)
  then have run: "\<exists>i. i + pages_for SIZEOF_VM_AREA \<le> gcount (heap st) \<and> free_run (heap st) (pages_for SIZEOF_VM_AREA) i"
    unfolding p using r(1) by (intro exI [of _ r]) simp
  obtain i where i: "first_fit (heap st) 1 = Some i"
    and c: "mmap_calloc SIZEOF_VM_AREA st = Some (gran_addr (heap st) i,
       \<lparr>words = zero_words (words st) (gran_addr (heap st) i) SIZEOF_VM_AREA, heap = (heap st)\<lparr>gat := gat_or (gat (heap st)) i 1\<rparr>\<rparr>)"
      "as_wf \<lparr>words = zero_words (words st) (gran_addr (heap st) i) SIZEOF_VM_AREA, heap = (heap st)\<lparr>gat := gat_or (gat (heap st)) i 1\<rparr>\<rparr> P"
      "same_xl pbase_to_vbase (words st) (zero_words (words st) (gran_addr (heap st) i) SIZEOF_VM_AREA) P"
      "free_count (heap st) = free_count ((heap st)\<lparr>gat := gat_or (gat (heap st)) i 1\<rparr>) + 1"
    by (rule mmap_calloc_ok [OF wf v run, unfolded p])
  have "free_pages ((heap st)\<lparr>gat := gat_or (gat (heap st)) i 1\<rparr>) \<subseteq> free_pages (heap st)"
    unfolding free_pages_def by (auto simp: abit_gat_or)
  then show ?thesis using c run_after_page [OF i r] by (simp del: One_nat_def)
qed

text \<open>The situation in which an address-less mapping of \<open>n\<close> pages, the first of them page \<open>lo\<close>, can be served.\<close>

definition mmap_ready :: "mmst \<Rightarrow> u64 \<Rightarrow> u64 \<Rightarrow> nat \<Rightarrow> nat \<Rightarrow> bool" where
  "mmap_ready s len flags n lo \<longleftrightarrow>
     as_wf (m_pts s) (m_as s) \<and>
     m_as s \<noteq> 0 \<and>
     (flags AND MAP_PRIVATE \<noteq> 0 \<or> flags AND MAP_SHARED \<noteq> 0) \<and>
     n = pages_for len \<and>
     0 < n \<and>
     n \<le> 32 \<and>
     page_aligned (mmap_top s) \<and>
     4096 * n \<le> unat (mmap_top s) \<and>
     unat (mmap_top s) \<le> 2 ^ 39 \<and>
     lo = unat (mmap_top s) div 4096 - n \<and>
     (\<exists>i. i + Suc n \<le> gcount (heap (m_pts s)) \<and> free_run (heap (m_pts s)) (Suc n) i) \<and>
     Suc n + tables_for lo (4096 * word_of_nat n) \<le> free_count (heap (m_pts s)) \<and>
     (\<forall>l. lo div 512 \<le> l \<longrightarrow> 512 * l < lo + n \<longrightarrow> nosect pbase_to_vbase (words (m_pts s)) (m_as s) l)"

lemma sys_mmap_ok:
  assumes ready: "mmap_ready s len flags n lo"
  shows "\<exists>s'. sys_mmap s 0 len prot flags fd off = Some (mmap_top s - 4096 * word_of_nat n, s') \<and>
    m_mm s' = m_mm s \<and> m_as s' = m_as s \<and>
    m_vmas s' = \<lparr>vm_start = mmap_top s - 4096 * word_of_nat n, vm_end = mmap_top s, vm_prot = prot, vm_flags = flags,
      vm_name = area_name flags\<rparr> # m_vmas s \<and>
    as_wf (m_pts s') (m_as s) \<and> fresh_map (m_pts s) (m_pts s') (m_as s) lo n (ucast prot)"
proof -
  have assms: "as_wf (m_pts s) (m_as s)"
    "m_as s \<noteq> 0"
    "flags AND MAP_PRIVATE \<noteq> 0 \<or> flags AND MAP_SHARED \<noteq> 0"
    "n = pages_for len"
    "0 < n"
    "n \<le> 32"
    "page_aligned (mmap_top s)"
    "4096 * n \<le> unat (mmap_top s)"
    "unat (mmap_top s) \<le> 2 ^ 39"
    "lo = unat (mmap_top s) div 4096 - n"
    "\<exists>i. i + Suc n \<le> gcount (heap (m_pts s)) \<and> free_run (heap (m_pts s)) (Suc n) i"
    "Suc n + tables_for lo (4096 * word_of_nat n) \<le> free_count (heap (m_pts s))"
    "\<forall>l. lo div 512 \<le> l \<longrightarrow> 512 * l < lo + n \<longrightarrow> nosect pbase_to_vbase (words (m_pts s)) (m_as s) l"
    using ready unfolding mmap_ready_def by blast+
  let ?top = "mmap_top s" and ?len = "4096 * word_of_nat n :: u64"
  note pa = PAGE_ALIGN_pages [of len, folded assms(4), OF assms(6)]
  have len: "unat ?len = 4096 * n" "pages_for ?len = n" using pa by simp_all
  have addr: "unat (?top - ?len) = unat ?top - 4096 * n" using len(1) assms(8) by (simp add: unat_sub_if_size word_le_nat_alt)
  obtain c where c: "unat ?top = 4096 * c" using assms(7) unfolding page_aligned_def dvd_def by blast
  have cn: "n \<le> c" "c \<le> 2 ^ 27" "lo = c - n" using c assms(8,9,10) by simp_all
  have al: "page_aligned (?top - ?len)" unfolding page_aligned_def addr c by (simp flip: diff_mult_distrib2)
  have lo: "vpn \<lparr>r_pbase = 0, r_vbase = ?top - ?len, r_size = ?len\<rparr> = lo" "lo + n \<le> 2 ^ 27"
    using addr c cn assms(5) by (simp_all add: vpn_def)
  obtain r where r: "r + Suc n \<le> gcount (heap (m_pts s))" "free_run (heap (m_pts s)) (Suc n) r" using assms(11) by blast
  obtain b st1 where st1: "mmap_calloc SIZEOF_VM_AREA (m_pts s) = Some (b, st1)" "as_wf st1 (m_as s)"
      "same_xl pbase_to_vbase (words (m_pts s)) (words st1) (m_as s)" "free_count (heap (m_pts s)) = free_count (heap st1) + 1"
      "free_pages (heap st1) \<subseteq> free_pages (heap (m_pts s))" "\<exists>r'. r' + n \<le> gcount (heap st1) \<and> free_run (heap st1) n r'"
    using vma_block [OF assms(1) r] by blast
  have v: "valid_request (heap st1) ?len"
    using st1(2) len(1) assms(5,6) by (simp add: as_wf_def page_heap_def valid_request_def)
  have no: "nosect pbase_to_vbase (words st1) (m_as s) l" if "lo div 512 \<le> l" "512 * l < lo + n" for l
    using that assms(13) st1(3) lo(2) by (simp add: same_xl_def)
  have "\<exists>b st1' st2. mmap_calloc ?len st1 = Some (b, st1') \<and>
    as_map st1' (m_as s) \<lparr>r_pbase = vbase_to_pbase b, r_vbase = ?top - ?len, r_size = ?len\<rparr> (ucast prot) RAM_NORMAL = Some st2 \<and>
    as_wf st2 (m_as s) \<and> fresh_map st1 st2 (m_as s) lo (pages_for ?len) (ucast prot)"
    using st1(4,6) assms(9,12) lo no al addr len(2)
    by (intro alloc_and_map [OF st1(2) assms(2) v]) simp_all
  then obtain b' st1' st2 where st2: "mmap_calloc ?len st1 = Some (b', st1')"
    "as_map st1' (m_as s) \<lparr>r_pbase = vbase_to_pbase b', r_vbase = ?top - ?len, r_size = ?len\<rparr> (ucast prot) RAM_NORMAL = Some st2"
    "as_wf st2 (m_as s)" "fresh_map st1 st2 (m_as s) lo n (ucast prot)" unfolding len(2) by blast
  have fm: "fresh_map (m_pts s) st2 (m_as s) lo n (ucast prot)"
    by (rule fresh_map_from [OF st2(4) st1(3,5)])
  have "unat (- MAX_ERRNO) > 2 ^ 39" by (simp add: MAX_ERRNO_def)
  then have ne: "\<not> IS_ERR_VALUE (?top - ?len)" using addr assms(9) by (simp add: IS_ERR_VALUE_def word_le_nat_alt)
  have "len \<noteq> 0" using assms(4,5) by (auto simp: pages_for_def)
  moreover have "PAGE_ALIGN 0 = 0" by (simp add: PAGE_ALIGN_def ALIGN_def)
  ultimately have run: "sys_mmap s 0 len prot flags fd off = Some (?top - ?len,
      s\<lparr>m_pts := st2, m_vmas := \<lparr>vm_start = ?top - ?len, vm_end = ?top, vm_prot = prot, vm_flags = flags, vm_name = area_name flags\<rparr> # m_vmas s\<rparr>)"
    using assms(3) st1(1) st2(1,2) ne by (auto simp: sys_mmap_def do_mmap_def mmap_region_def find_free_vma_eq pa(1) Let_def)
  show ?thesis unfolding run using st2(3) fm by simp
qed



abbreviation demo_mmst :: mmst where
  "demo_mmst \<equiv> \<lparr>m_pts = demo_pts, m_as = 0xffffff8000900000,
     m_mm = mm_area_zero\<lparr>mmap_base := 0x7000000000, start_brk := 0x10000, brk := 0x12000\<rparr>, m_vmas = []\<rparr>"

lemma demo_P: "page_aligned 0xffffff8000900000" "unat (0xffffff8000900000 :: u64) < 0xffffff8001000000"
  by (simp_all add: page_aligned_def)

lemma demo_run: "n \<le> 64 \<Longrightarrow> \<exists>i. i + n \<le> gcount demo_pages \<and> free_run demo_pages n i"
  by (intro exI [of _ 0]) (simp add: free_run_def abit_def)

lemma demo_mmap_ready: "mmap_ready demo_mmst 5000 0x22 2 0x6fffffe"
proof -
  have n: "2 = pages_for 5000" "(0::nat) < 2" "(2::nat) \<le> 32" by (simp_all add: pages_for_def)
  have fl: "(0x22 :: u64) AND MAP_PRIVATE \<noteq> 0 \<or> 0x22 AND MAP_SHARED \<noteq> 0" by (simp add: MAP_PRIVATE_def)
  have top: "mmap_top demo_mmst = 0x7000000000" by (simp add: mmap_top_def)
  have t: "page_aligned (mmap_top demo_mmst)" "4096 * 2 \<le> unat (mmap_top demo_mmst)" "unat (mmap_top demo_mmst) \<le> 2 ^ 39"
    "0x6fffffe = unat (mmap_top demo_mmst) div 4096 - 2" by (simp_all add: top page_aligned_def)
  have run: "\<exists>i. i + Suc 2 \<le> gcount (heap (m_pts demo_mmst)) \<and> free_run (heap (m_pts demo_mmst)) (Suc 2) i"
    using demo_run [of "Suc 2"] by simp
  have fc: "Suc 2 + tables_for 0x6fffffe (4096 * word_of_nat 2) \<le> free_count (heap (m_pts demo_mmst))"
    by (simp add: demo_page_heap tables_for_def slots_def pages_for_def)
  have no: "\<forall>l. 0x6fffffe div 512 \<le> l \<longrightarrow> 512 * l < 0x6fffffe + 2 \<longrightarrow>
      nosect pbase_to_vbase (words (m_pts demo_mmst)) (m_as demo_mmst) l"
    using demo_root(3) [OF demo_P] by auto
  have wf: "as_wf (m_pts demo_mmst) (m_as demo_mmst)" "m_as demo_mmst \<noteq> 0" using demo_root(2) [OF demo_P] by simp_all
  show ?thesis unfolding mmap_ready_def using wf fl n t run fc no by blast
qed

text \<open>
  C25.  An anonymous mapping of up to 32 pages without an address, on a heap with a free run for the area
  and the pages and enough pages for tables, succeeds: it returns the address just below the
  newest area, records the area, and maps its pages to frames that were free, with the permissions
  of the requested protection; no other translation changes.
\<close>

theorem sys_mmap_anonymous:
  assumes "mmap_ready s len flags n lo"
  shows "\<exists>s'. sys_mmap s 0 len prot flags fd off = Some (mmap_top s - 4096 * word_of_nat n, s') \<and>
    m_mm s' = m_mm s \<and> m_as s' = m_as s \<and>
    m_vmas s' = \<lparr>vm_start = mmap_top s - 4096 * word_of_nat n, vm_end = mmap_top s, vm_prot = prot, vm_flags = flags,
      vm_name = area_name flags\<rparr> # m_vmas s \<and>
    as_wf (m_pts s') (m_as s) \<and> fresh_map (m_pts s) (m_pts s') (m_as s) lo n (ucast prot)"
  by (rule sys_mmap_ok [OF assms])

theorem sys_mmap_anonymous_witness:
  "\<exists>s'. sys_mmap demo_mmst 0 5000 3 0x22 (- 1) 0 = Some (0x6fffffe000, s') \<and> length (m_vmas s') = 1 \<and>
     fresh_map demo_pts (m_pts s') 0xffffff8000900000 0x6fffffe 2 3"
  using sys_mmap_anonymous [OF demo_mmap_ready, of 3 "- 1" 0] by (auto simp: mmap_top_def)

text \<open>
  C26.  The areas of a task that never asks for an address never overlap: after any sequence of such
  mappings, interleaved with changes of the break, each area ends where the one mapped before
  it starts, and the oldest ends at \<^verbatim>\<open>mmap_base\<close>.
\<close>

inductive mmap_run :: "mmst \<Rightarrow> mmst \<Rightarrow> bool" where
  start: "m_vmas s = [] \<Longrightarrow> mmap_run s s"
| map: "mmap_run s0 s \<Longrightarrow> unat (PAGE_ALIGN len) \<le> unat (mmap_top s) \<Longrightarrow>
    sys_mmap s 0 len prot flags fd off = Some (r, s') \<Longrightarrow> mmap_run s0 s'"
| break: "mmap_run s0 s \<Longrightarrow> sys_brk s b = Some (r, s') \<Longrightarrow> mmap_run s0 s'"

lemma sys_brk_keeps:
  assumes "sys_brk s b = Some (r, s')"
  shows "m_vmas s' = m_vmas s" "mmap_base (m_mm s') = mmap_base (m_mm s)" "m_as s' = m_as s"
  using assms by (auto simp: sys_brk_def Let_def split: if_splits bind_splits)

lemma sys_mmap_areas:
  assumes "sys_mmap s 0 len prot flags fd off = Some (r, s')"
  shows "m_mm s' = m_mm s" "m_vmas s' = m_vmas s \<or>
    (\<exists>v. m_vmas s' = v # m_vmas s \<and> vm_start v = mmap_top s - PAGE_ALIGN len \<and> vm_end v = mmap_top s)"
proof -
  have z: "PAGE_ALIGN 0 = 0" by (simp add: PAGE_ALIGN_def ALIGN_def)
  show "m_mm s' = m_mm s" "m_vmas s' = m_vmas s \<or>
    (\<exists>v. m_vmas s' = v # m_vmas s \<and> vm_start v = mmap_top s - PAGE_ALIGN len \<and> vm_end v = mmap_top s)"
    using assms unfolding sys_mmap_def do_mmap_def mmap_region_def find_free_vma_eq z
    by (auto simp: Let_def split: if_splits bind_splits)
qed

fun stacked :: "u64 \<Rightarrow> vm_area list \<Rightarrow> bool" where
  "stacked base [] = True"
| "stacked base (v # vs) \<longleftrightarrow> vm_start v \<le> vm_end v \<and> vm_end v = (case vs of [] \<Rightarrow> base | u # _ \<Rightarrow> vm_start u) \<and> stacked base vs"

lemma stacked_below: "stacked base vs \<Longrightarrow> w \<in> set vs \<Longrightarrow> vm_start (hd vs) \<le> vm_start w \<and> vm_end w \<le> base"
proof (induction vs arbitrary: w)
  case (Cons v vs)
  note IH = Cons.IH and pr = Cons.prems
  show ?case
  proof (cases vs)
    case (Cons u us)
    have v: "vm_start v \<le> vm_start u" "vm_end v = vm_start u" "vm_start u \<le> vm_end u" and st: "stacked base vs"
      using pr(1) Cons by auto
    have "vm_start u \<le> base" using IH [OF st, of u] v(3) Cons by (auto intro: order_trans)
    moreover have "w = v \<or> vm_start u \<le> vm_start w \<and> vm_end w \<le> base" using IH [OF st, of w] pr(2) Cons by auto
    ultimately show ?thesis using v by (auto intro: order_trans)
  qed (use pr in auto)
qed simp

lemma stacked_sorted: "stacked base vs \<Longrightarrow> sorted_wrt (\<lambda>v w. vm_end v \<le> vm_start w) vs"
proof (induction vs)
  case (Cons v vs)
  have "vm_end v \<le> vm_start w" if w: "w \<in> set vs" for w
  proof -
    obtain u us where vs: "vs = u # us" using w by (cases vs) auto
    then have "vm_end v = vm_start u" "stacked base vs" using Cons.prems by auto
    then show ?thesis using stacked_below [of base vs w, OF _ w] vs by (auto simp del: stacked.simps)
  qed
  then show ?case using Cons by auto
qed simp

lemma mmap_run_stacked: "mmap_run s0 s \<Longrightarrow> stacked (mmap_base (m_mm s)) (m_vmas s) \<and> mmap_base (m_mm s) = mmap_base (m_mm s0)"
proof (induction rule: mmap_run.induct)
  case (map s0 s len prot flags fd off r s')
  have "mmap_top s - PAGE_ALIGN len \<le> mmap_top s"
    using map.hyps(2) by (simp add: word_le_nat_alt unat_sub_if_size)
  then have "stacked (mmap_base (m_mm s)) (m_vmas s) \<longrightarrow> stacked (mmap_base (m_mm s)) (v # m_vmas s)"
    if "vm_start v = mmap_top s - PAGE_ALIGN len" "vm_end v = mmap_top s" for v
    using that by (simp add: mmap_top_def)
  then show ?case using sys_mmap_areas [OF map.hyps(3)] map.IH by metis
next
  case (break s0 s b r s')
  then show ?case using sys_brk_keeps [OF break.hyps(2)] by metis
qed simp

theorem mmap_areas_disjoint:
  assumes "mmap_run s0 s"
  shows "sorted_wrt (\<lambda>v w. vm_end v \<le> vm_start w) (m_vmas s) \<and>
    (\<forall>v \<in> set (m_vmas s). vm_end v \<le> mmap_base (m_mm s0)) \<and>
    (m_vmas s \<noteq> [] \<longrightarrow> vm_end (last (m_vmas s)) = mmap_base (m_mm s0))"
proof -
  have st: "stacked (mmap_base (m_mm s0)) (m_vmas s)" using mmap_run_stacked [OF assms] by metis
  have "stacked base vs \<Longrightarrow> vs \<noteq> [] \<longrightarrow> vm_end (last vs) = base" for base vs
    by (induction base vs rule: stacked.induct) (auto split: list.splits)
  then show ?thesis using stacked_sorted [OF st] stacked_below [OF st] st by blast
qed


theorem mmap_areas_disjoint_witness:
  "\<exists>s. mmap_run demo_mmst s \<and> m_vmas s \<noteq> [] \<and> vm_end (last (m_vmas s)) = 0x7000000000"
proof -
  obtain r s' where s': "sys_mmap demo_mmst 0 5000 3 0x22 (- 1) 0 = Some (r, s')" "m_vmas s' \<noteq> []" using sys_mmap_ok [OF demo_mmap_ready] by fastforce
  have g: "unat (PAGE_ALIGN 5000) \<le> unat (mmap_top demo_mmst)"
    by (simp add: PAGE_ALIGN_def ALIGN_def mmap_top_def)
  have run: "mmap_run demo_mmst s'" by (rule mmap_run.map [OF mmap_run.start g s'(1)]) simp
  show ?thesis using mmap_areas_disjoint [OF run] run s'(2) by auto
qed

text \<open>
  C27.  Growing the break by at most thirty-two pages from a page boundary returns the new break and maps exactly the pages
  of the added range, readable and writable from user mode, on newly allocated frames.
\<close>

theorem sys_brk_grows:
  assumes wf: "as_wf (m_pts s) (m_as s)" "m_as s \<noteq> 0"
    and b: "start_brk (m_mm s) \<le> b" "unat b = unat (brk (m_mm s)) + d" "0 < d" "d \<le> 4096 * 32" "unat b \<le> 2 ^ 39 - 4096"
    and old: "page_aligned (brk (m_mm s))" "lo = unat (brk (m_mm s)) div 4096" "n = (d + 4095) div 4096"
    and run: "\<exists>i. i + n \<le> gcount (heap (m_pts s)) \<and> free_run (heap (m_pts s)) n i"
    and fc: "n + tables_for lo (word_of_nat d) \<le> free_count (heap (m_pts s))"
    and no: "\<forall>l. lo div 512 \<le> l \<longrightarrow> 512 * l < lo + n \<longrightarrow> nosect pbase_to_vbase (words (m_pts s)) (m_as s) l"
  shows "\<exists>s'. sys_brk s b = Some (b, s') \<and> brk (m_mm s') = b \<and> m_vmas s' = m_vmas s \<and>
    as_wf (m_pts s') (m_as s') \<and> fresh_map (m_pts s) (m_pts s') (m_as s) lo n (PROT_READ OR PROT_WRITE)"
proof -
  let ?d = "word_of_nat d :: u64"
  have ud: "unat ?d = d" using b(4) by (simp add: unat_of_nat_small)
  have df: "b - brk (m_mm s) = ?d" 
    using b(2) ud by (simp add: word_unat_eq_iff unat_sub_if_size word_le_nat_alt)
  have hs: "scast (ucast ?d :: 32 word) = ?d" "0 <s (ucast ?d :: 32 word)"
  proof -
    have u: "unat (ucast ?d :: 32 word) = d" using b(4) ud by (simp add: unsigned_ucast_eq take_bit_nat_eq_self)
    then have ui: "uint (ucast ?d :: 32 word) = int d" by (metis uint_nat)
    have si: "sint (ucast ?d :: 32 word) = int d"
      unfolding sint_uint ui using b(4) by (simp add: signed_take_bit_int_eq_self_iff)
    show "0 <s (ucast ?d :: 32 word)" using si b(3) by (simp add: word_sless_alt)
    show "scast (ucast ?d :: 32 word) = ?d" using si by (simp add: scast_eq)
  qed
  have n: "pages_for ?d = n" using old(3) ud by (simp add: pages_for_def)
  have v: "valid_request (heap (m_pts s)) ?d"
    using wf(1) b(3,4) ud by (simp add: as_wf_def page_heap_def valid_request_def)
  obtain c where c: "unat (brk (m_mm s)) = 4096 * c" using old(1) unfolding page_aligned_def dvd_def by blast
  have "4096 * n \<le> d + 4095" using old(3) by simp
  then have nb: "lo + n \<le> 2 ^ 27" "unat (brk (m_mm s)) + 4096 * n + 2 ^ 30 \<le> 2 ^ 64" using b(2,5) c old(2) by simp_all
  have sm: "unat (brk (m_mm s)) mod 549755813888 = unat (brk (m_mm s))" using b(2,5) by simp
  have "\<exists>a st1 st2. mmap_calloc ?d (m_pts s) = Some (a, st1) \<and>
    as_map st1 (m_as s) \<lparr>r_pbase = vbase_to_pbase a, r_vbase = brk (m_mm s), r_size = ?d\<rparr> (PROT_READ OR PROT_WRITE) RAM_NORMAL = Some st2 \<and>
    as_wf st2 (m_as s) \<and> fresh_map (m_pts s) st2 (m_as s) lo (pages_for ?d) (PROT_READ OR PROT_WRITE)"
    using run fc no nb old(1,2) n sm by (intro alloc_and_map [OF wf v]) (simp_all add: vpn_def)
  then show ?thesis using b(1) hs df n by (auto simp: sys_brk_def Let_def)
qed


theorem sys_brk_grows_witness:
  "\<exists>s'. sys_brk demo_mmst 0x13800 = Some (0x13800, s') \<and> fresh_map demo_pts (m_pts s') 0xffffff8000900000 0x12 2 3"
proof -
  have wf: "as_wf (m_pts demo_mmst) (m_as demo_mmst)" "m_as demo_mmst \<noteq> 0" using demo_root(2) [OF demo_P] by simp_all
  have b: "start_brk (m_mm demo_mmst) \<le> 0x13800" "unat (0x13800 :: u64) = unat (brk (m_mm demo_mmst)) + 0x1800" "(0 :: nat) < 0x1800"
    "(0x1800 :: nat) \<le> 4096 * 32" "unat (0x13800 :: u64) \<le> 2 ^ 39 - 4096"
    and old: "page_aligned (brk (m_mm demo_mmst))" "0x12 = unat (brk (m_mm demo_mmst)) div 4096" "(2 :: nat) = (0x1800 + 4095) div 4096"
    by (simp_all add: page_aligned_def)
  have run: "\<exists>i. i + 2 \<le> gcount (heap (m_pts demo_mmst)) \<and> free_run (heap (m_pts demo_mmst)) 2 i"
    using demo_run [of 2] by simp
  have fc: "2 + tables_for 0x12 (word_of_nat 0x1800) \<le> free_count (heap (m_pts demo_mmst))"
    by (simp add: demo_page_heap tables_for_def slots_def pages_for_def)
  have no: "\<forall>l. 0x12 div 512 \<le> l \<longrightarrow> 512 * l < 0x12 + 2 \<longrightarrow> nosect pbase_to_vbase (words (m_pts demo_mmst)) (m_as demo_mmst) l"
    using demo_root(3) [OF demo_P] by auto
  show ?thesis using sys_brk_grows [OF wf b old run fc no] by (auto simp: PROT_READ_def PROT_WRITE_def)
qed

text \<open>
  A break that is not on a page boundary cannot be raised: the call halts the kernel in
  \<^verbatim>\<open>pt_map\<close>.  And a raise by a multiple of 4 GiB, whose difference is zero as an \<^verbatim>\<open>int\<close>, moves the
  break without mapping a page.
\<close>

lemma sys_brk_unaligned_halts:
  assumes "start_brk (m_mm s) \<le> b" "0 <s (ucast (b - brk (m_mm s)) :: 32 word)" "\<not> page_aligned (brk (m_mm s))"
  shows "sys_brk s b = None"
proof -
  have "as_map st P \<lparr>r_pbase = p, r_vbase = brk (m_mm s), r_size = z\<rparr> prot a = None" for st P p z prot a
    using assms(3) by (auto simp: as_map_def pt_map_def gen_pt_map_def page_aligned_bitmask k_assert_def split: bind_splits)
  then show ?thesis using assms(1,2) by (simp add: sys_brk_def Let_def split: bind_splits)
qed

lemma sys_brk_truncates:
  assumes "start_brk (m_mm s) \<le> b" "(ucast (b - brk (m_mm s)) :: 32 word) = 0"
  shows "sys_brk s b = Some (b, s\<lparr>m_mm := (m_mm s)\<lparr>brk := b\<rparr>\<rparr>)"
  using assms(2) by (simp add: sys_brk_def Let_def leD [OF assms(1)])

text \<open>
  An area at a requested address that was mapped first makes the next address-less one overlap an older area: the new area is placed below the newest one, whatever
  lies there.
\<close>

lemma find_free_vma_overlap:
  assumes "m_vmas s = [f, a]" "vm_start f = vm_end a" "0 < unat len" "unat len \<le> unat (vm_start f)"
  shows "vm_start (snd (find_free_vma (m_mm s) (m_vmas s) v len)) < vm_end a \<and> vm_end (snd (find_free_vma (m_mm s) (m_vmas s) v len)) = vm_end a"
  using assms by (simp add: find_free_vma_def Let_def word_less_nat_alt unat_sub_if_size)

end
