(* ===== verification/K_Printf.thy ===== *)
theory K_Printf
  imports K_String
begin

text \<open>
  Formatted output, \<^verbatim>\<open>os/lib/libc/k_printf.c\<close>, down to the bytes sent to the serial port
  (\<^verbatim>\<open>os/dev/uart/pl011/uart.c\<close>).  The format is read from byte memory through its pointer, as
  the code does; the variable arguments are the list of those not yet taken.  Integer and pointer
  arguments are 64-bit registers, of which narrower types take the low bits.  A \<^verbatim>\<open>%pV\<close> argument is given
  by what it points to.  Taking an argument that is missing or of another kind is undefined,
  \<open>None\<close>, as is a loop that does not end.

  \<^verbatim>\<open>CONFIG_LIBC_LONG_LONG\<close> and \<^verbatim>\<open>CONFIG_LIBC_FLOATINGPOINT\<close> are on and
  \<^verbatim>\<open>CONFIG_LIBC_NUMBERED_ARGS\<close> is off.  The conversion of a double to decimal digits,
  \<^verbatim>\<open>__dtoa_engine\<close>, computes with floating-point numbers and is a parameter.  The result of
  \<^verbatim>\<open>k_vprintf\<close> is the constant 0 and left out.
\<close>

unbundle bit_operations_syntax

type_synonym i32 = "32 word"

abbreviation ch :: "char \<Rightarrow> u8" where "ch \<equiv> of_char"

section \<open>The serial port\<close>

text \<open>The bytes written to the data register, each once the transmit queue has room.\<close>

definition uart_send :: "u8 \<Rightarrow> u8 list \<Rightarrow> u8 list" where
  "uart_send c out = out @ [c]"

definition uart_putchar :: "u8 \<Rightarrow> u8 list \<Rightarrow> u8 list" where
  "uart_putchar c out = (let out = (if c = ch CHR 0x0A then uart_send (ch CHR 0x0D) out else out) in uart_send c out)"

section \<open>Flags and arguments\<close>

definition FL_ZFILL :: u16 where "FL_ZFILL = 0x0001"
definition FL_PLUS :: u16 where "FL_PLUS = 0x0002"
definition FL_SPACE :: u16 where "FL_SPACE = 0x0004"
definition FL_LPAD :: u16 where "FL_LPAD = 0x0008"
definition FL_ALT :: u16 where "FL_ALT = 0x0010"
definition FL_ASTERISK :: u16 where "FL_ASTERISK = 0x0040"
definition FL_WIDTH :: u16 where "FL_WIDTH = 0x0080"
definition FL_PREC :: u16 where "FL_PREC = 0x0100"
definition FL_LONG :: u16 where "FL_LONG = 0x0200"
definition FL_SHORT :: u16 where "FL_SHORT = 0x0400"
definition FL_REPD_TYPE :: u16 where "FL_REPD_TYPE = 0x0800"
definition FL_NEGATIVE :: u16 where "FL_NEGATIVE = 0x1000"
definition FL_ALTUPP :: u16 where "FL_ALTUPP = 0x2000"
definition FL_ALTHEX :: u16 where "FL_ALTHEX = 0x4000"
definition FL_FLTUPP :: u16 where "FL_FLTUPP = 0x2000"
definition FL_FLTEXP :: u16 where "FL_FLTEXP = 0x4000"
definition FL_FLTFIX :: u16 where "FL_FLTFIX = 0x8000"
definition XTOA_UPPER :: i32 where "XTOA_UPPER = 0x0200"

datatype varg = Word u64 | Double u64 | Vaf u64 "varg list"

definition va_word :: "varg list \<Rightarrow> (u64 \<times> varg list) option" where
  "va_word ap = (case ap of Word w # ap \<Rightarrow> Some (w, ap) | _ \<Rightarrow> None)"

definition va_double :: "varg list \<Rightarrow> (u64 \<times> varg list) option" where
  "va_double ap = (case ap of Double d # ap \<Rightarrow> Some (d, ap) | _ \<Rightarrow> None)"

definition va_format :: "varg list \<Rightarrow> (u64 \<times> varg list \<times> varg list) option" where
  "va_format ap = (case ap of Vaf fmt va # ap \<Rightarrow> Some (fmt, va, ap) | _ \<Rightarrow> None)"

section \<open>Digits\<close>

text \<open>The digits of a number in the order they are stored, the lowest first.\<close>

definition ultoa_digit :: "bool \<Rightarrow> i32 \<Rightarrow> u8" where
  "ultoa_digit upper v =
     ucast (if v \<le>s 9 then v + ucast (ch CHR ''0'')
            else if upper then v + (ucast (ch CHR ''A'') - 10) else v + (ucast (ch CHR ''a'') - 10))"

partial_function (option) ultoa_loop :: "u64 \<Rightarrow> bool \<Rightarrow> u64 \<Rightarrow> u8 list option" where
  "ultoa_loop base upper val =
     (let v = ucast (val mod base); val = val div base
      in if val \<noteq> 0 then do { str \<leftarrow> ultoa_loop base upper val; Some (ultoa_digit upper v # str) }
         else Some [ultoa_digit upper v])"

definition ultoa_invert :: "u64 \<Rightarrow> i32 \<Rightarrow> u8 list option" where
  "ultoa_invert val base =
     (let upper = (base AND XTOA_UPPER \<noteq> 0);
          base = (if upper then base AND NOT XTOA_UPPER else base)
      in ultoa_loop (scast base) upper val)"

section \<open>Output loops\<close>

text \<open>\<^verbatim>\<open>while (width) { kputchar(ch); width--; }\<close>\<close>

function put_while :: "u8 \<Rightarrow> i32 \<Rightarrow> u8 list \<Rightarrow> u8 list" where
  "put_while c width out = (if width \<noteq> 0 then put_while c (width - 1) (uart_putchar c out) else out)"
  by pat_completeness auto
termination
  by (relation "measure (\<lambda>(c, width, out). unat width)") (auto simp: unat_minus_one unat_gt_0)

declare put_while.simps [simp del]

function str_pad :: "u64 \<Rightarrow> i32 \<Rightarrow> u8 list \<Rightarrow> i32 \<times> u8 list" where
  "str_pad sz width out =
     (if sz < scast width then str_pad sz (width - 1) (uart_putchar (ch CHR '' '') out) else (width, out))"
  by pat_completeness auto
termination
proof (relation "measure (\<lambda>(sz, width, out). unat width)")
  fix sz :: u64 and width :: i32 and out :: "u8 list"
  assume "sz < scast width"
  then have "width \<noteq> 0" by auto
  then show "((sz, width - 1, uart_putchar (ch CHR '' '') out), sz, width, out) \<in> measure (\<lambda>(sz, width, out). unat width)"
    by (auto simp: unat_minus_one unat_gt_0)
qed simp

declare str_pad.simps [simp del]

fun str_body :: "u8 list \<Rightarrow> i32 \<Rightarrow> u8 list \<Rightarrow> i32 \<times> u8 list" where
  "str_body [] width out = (width, out)"
| "str_body (b # bs) width out = str_body bs (if width \<noteq> 0 then width - 1 else width) (uart_putchar b out)"

text \<open>The label \<^verbatim>\<open>str_lpad\<close>, with the \<open>size\<close> bytes at \<open>pnt\<close>.\<close>

definition str_lpad :: "u16 \<Rightarrow> i32 \<Rightarrow> u8 list \<Rightarrow> u8 list \<Rightarrow> u8 list" where
  "str_lpad flags width bs out =
     (let (width, out) = (if flags AND FL_LPAD = 0 then str_pad (word_of_nat (length bs)) width out else (width, out));
          (width, out) = str_body bs width out
      in put_while (ch CHR '' '') width out)"

partial_function (option) len_pad :: "u8 \<Rightarrow> i32 \<Rightarrow> u8 list \<Rightarrow> (u8 \<times> u8 list) option" where
  "len_pad len width out =
     (if ucast len <s width then len_pad (len + 1) width (uart_putchar (ch CHR '' '') out) else Some (len, out))"

lemma sint_ucast_byte: "sint (ucast (c :: u8) :: i32) = uint c"
proof -
  have "uint c < 256" using uint_lt2p [of c] by simp
  moreover have "uint (ucast c :: i32) = uint c" by (simp add: uint_up_ucast is_up_def source_size_def target_size_def word_size)
  moreover have "- 2147483648 \<le> uint c" using uint_ge_0 [of c] by linarith
  ultimately show ?thesis unfolding sint_uint by (simp add: signed_take_bit_int_eq_self_iff)
qed

lemma nonneg_unat: "0 \<le> sint e \<Longrightarrow> unat e = nat (sint e)" for e :: i32
proof -
  assume e: "0 \<le> sint e"
  have "uint e = sint e mod 2 ^ 32" by (simp add: uint_sint take_bit_eq_mod)
  also have "\<dots> = sint e" using e sint_lt [of e] by simp
  finally show ?thesis by (simp add: unat_eq_nat_uint)
qed

function put_zeros :: "i32 \<Rightarrow> u8 \<Rightarrow> u8 list \<Rightarrow> u8 list" where
  "put_zeros prec c out = (if ucast c <s prec then put_zeros (prec - 1) c (uart_putchar (ch CHR ''0'') out) else out)"
  by pat_completeness auto
termination
proof (relation "measure (\<lambda>(prec, c, out). unat prec)")
  fix prec :: i32 and c :: u8 and out :: "u8 list"
  assume "ucast c <s prec"
  moreover have "\<not> ucast c <s (0 :: i32)" by (simp add: word_sless_alt sint_ucast_byte)
  ultimately have "prec \<noteq> 0" by auto
  then show "((prec - 1, c, uart_putchar (ch CHR ''0'') out), prec, c, out) \<in> measure (\<lambda>(prec, c, out). unat prec)"
    by (auto simp: unat_minus_one unat_gt_0)
qed simp

declare put_zeros.simps [simp del]


section \<open>Integer conversions\<close>

text \<open>The sign or base prefix, and the output of the digits with their padding.\<close>

definition put_prefix :: "u16 \<Rightarrow> u8 list \<Rightarrow> u8 list" where
  "put_prefix flags out =
     (if flags AND FL_ALT \<noteq> 0 then
        let out = uart_putchar (ch CHR ''0'') out
        in if flags AND FL_ALTHEX \<noteq> 0
           then uart_putchar (if flags AND FL_ALTUPP \<noteq> 0 then ch CHR ''X'' else ch CHR ''x'') out else out
      else if flags AND (FL_NEGATIVE OR FL_PLUS OR FL_SPACE) \<noteq> 0 then
        let z = ch CHR '' '';
            z = (if flags AND FL_PLUS \<noteq> 0 then ch CHR ''+'' else z);
            z = (if flags AND FL_NEGATIVE \<noteq> 0 then ch CHR ''-'' else z)
        in uart_putchar z out
      else out)"

definition number_length :: "u16 \<Rightarrow> i32 \<Rightarrow> u8 list \<Rightarrow> (u16 \<times> u8) option" where
  "number_length flags prec buf =
     (let len = word_of_nat (length buf);
          (flags, len) =
            (if flags AND FL_PREC \<noteq> 0 then
               let flags = flags AND NOT FL_ZFILL
               in if ucast len <s prec
                  then (if flags AND FL_ALT \<noteq> 0 \<and> flags AND FL_ALTHEX = 0 then flags AND NOT FL_ALT else flags, ucast prec)
                  else (flags, len)
             else (flags, len))
      in if flags AND FL_ALT \<noteq> 0 then
           if buf = [] then None
           else if last buf = ch CHR ''0'' then Some (flags AND NOT (FL_ALT OR FL_ALTHEX OR FL_ALTUPP), len)
           else Some (flags, if flags AND FL_ALTHEX \<noteq> 0 then len + 1 + 1 else len + 1)
         else if flags AND (FL_NEGATIVE OR FL_PLUS OR FL_SPACE) \<noteq> 0 then Some (flags, len + 1)
         else Some (flags, len))"

definition put_number :: "u16 \<Rightarrow> i32 \<Rightarrow> i32 \<Rightarrow> u8 list \<Rightarrow> u8 list \<Rightarrow> u8 list option" where
  "put_number flags width prec buf out = do {
     let c = (word_of_nat (length buf) :: u8);
     (flags, len) \<leftarrow> number_length flags prec buf;
     (prec, len, out) \<leftarrow>
       (if flags AND FL_LPAD = 0 then do {
          let (prec, len) =
            (if flags AND FL_ZFILL \<noteq> 0
             then if ucast len <s width then (ucast c + (width - ucast len), ucast width) else (ucast c, len)
             else (prec, len));
          (len, out) \<leftarrow> len_pad len width out;
          Some (prec, len, out)
        } else Some (prec, len, out));
     let width = (if ucast len <s width then width - ucast len else 0);
     let out = put_prefix flags out;
     let out = put_zeros prec c out;
     let out = fold uart_putchar (rev buf) out;
     Some (put_while (ch CHR '' '') width out)
   }"

definition arg_signed :: "u16 \<Rightarrow> varg list \<Rightarrow> (u64 \<times> varg list) option" where
  "arg_signed flags ap = do {
     (w, ap) \<leftarrow> va_word ap;
     let x = (if flags AND FL_LONG \<noteq> 0 then w
              else let x = scast (ucast w :: i32)
                   in if flags AND FL_SHORT \<noteq> 0
                      then if flags AND FL_REPD_TYPE = 0 then scast (ucast x :: u16) else scast (ucast x :: u8)
                      else x);
     Some (x, ap)
   }"

definition arg_unsigned :: "u16 \<Rightarrow> varg list \<Rightarrow> (u64 \<times> varg list) option" where
  "arg_unsigned flags ap = do {
     (w, ap) \<leftarrow> va_word ap;
     let x = (if flags AND FL_LONG \<noteq> 0 then w
              else let x = ucast (ucast w :: u32)
                   in if flags AND FL_SHORT \<noteq> 0
                      then if flags AND FL_REPD_TYPE = 0 then ucast (ucast x :: u16) else ucast (ucast x :: u8)
                      else x);
     Some (x, ap)
   }"

definition conv_signed :: "u16 \<Rightarrow> i32 \<Rightarrow> i32 \<Rightarrow> varg list \<Rightarrow> u8 list \<Rightarrow> (varg list \<times> u8 list) option" where
  "conv_signed flags width prec ap out = do {
     (x, ap) \<leftarrow> arg_signed flags ap;
     let flags = flags AND NOT (FL_NEGATIVE OR FL_ALT);
     let (x, flags) = (if x <s 0 then (- x, flags OR FL_NEGATIVE) else (x, flags));
     buf \<leftarrow> (if flags AND FL_PREC \<noteq> 0 \<and> prec = 0 \<and> x = 0 then Some [] else ultoa_invert x 10);
     out \<leftarrow> put_number flags width prec buf out;
     Some (ap, out)
   }"

definition number_base :: "u8 \<Rightarrow> u16 \<Rightarrow> (u16 \<times> i32) option" where
  "number_base c flags =
     (if c = ch CHR ''u'' then Some (flags AND NOT FL_ALT, 10)
      else if c = ch CHR ''o'' then Some (flags, 8)
      else if c = ch CHR ''p'' \<or> c = ch CHR ''x'' then
        let flags = (if c = ch CHR ''p'' then flags OR FL_ALT else flags)
        in Some (if flags AND FL_ALT \<noteq> 0 then flags OR FL_ALTHEX else flags, 16)
      else if c = ch CHR ''X'' then
        Some (if flags AND FL_ALT \<noteq> 0 then flags OR (FL_ALTHEX OR FL_ALTUPP) else flags, 16 OR XTOA_UPPER)
      else None)"

definition conv_unsigned :: "u8 \<Rightarrow> u16 \<Rightarrow> i32 \<Rightarrow> i32 \<Rightarrow> varg list \<Rightarrow> u8 list \<Rightarrow> (varg list \<times> u8 list) option" where
  "conv_unsigned c flags width prec ap out = do {
     (x, ap) \<leftarrow> arg_unsigned flags ap;
     let flags = flags AND NOT (FL_PLUS OR FL_SPACE);
     (case number_base c flags of
        None \<Rightarrow> Some (ap, uart_putchar c (uart_putchar (ch CHR ''%'') out))
      | Some (flags, base) \<Rightarrow> do {
          buf \<leftarrow> (if flags AND FL_PREC \<noteq> 0 \<and> prec = 0 \<and> x = 0 then Some [] else ultoa_invert x base);
          out \<leftarrow> put_number (flags AND NOT FL_NEGATIVE) width prec buf out;
          Some (ap, out)
        })
   }"

section \<open>Strings and characters\<close>

definition g_nullstring :: "u8 list" where
  "g_nullstring = map ch ''(null)''"

definition conv_char :: "u16 \<Rightarrow> i32 \<Rightarrow> varg list \<Rightarrow> u8 list \<Rightarrow> (varg list \<times> u8 list) option" where
  "conv_char flags width ap out = do {
     (w, ap) \<leftarrow> va_word ap;
     Some (ap, str_lpad flags width [ucast w] out)
   }"

definition conv_string :: "bmem \<Rightarrow> u16 \<Rightarrow> i32 \<Rightarrow> i32 \<Rightarrow> varg list \<Rightarrow> u8 list \<Rightarrow> (varg list \<times> u8 list) option" where
  "conv_string m flags width prec ap out = do {
     (pnt, ap) \<leftarrow> va_word ap;
     let maxlen = (if flags AND FL_PREC \<noteq> 0 then scast prec else - 1);
     let bs = (if pnt = 0 then take (unat maxlen) g_nullstring
               else map (\<lambda>i. m (pnt + word_of_nat i)) [0..<unat (k_strnlen m pnt maxlen)]);
     Some (ap, str_lpad flags width bs out)
   }"


section \<open>Floating-point conversions\<close>

definition DTOA_MINUS :: u8 where "DTOA_MINUS = 1"
definition DTOA_INF :: u8 where "DTOA_INF = 4"
definition DTOA_NAN :: u8 where "DTOA_NAN = 8"
definition DTOA_CARRY :: u8 where "DTOA_CARRY = 16"
definition DTOA_MAX_DIG :: u8 where "DTOA_MAX_DIG = 15"

record dtoa_s =
  d_exp :: i32
  d_flags :: u8
  d_digits :: "nat \<Rightarrow> u8"

text \<open>
  \<^verbatim>\<open>__dtoa_engine\<close> takes the bits of the double, the number of digits and of decimals, and gives the
  digits with the number of them.
\<close>

type_synonym dtoa_engine = "u64 \<Rightarrow> i32 \<Rightarrow> i32 \<Rightarrow> dtoa_s \<times> i32"

definition flt_request :: "u8 \<Rightarrow> u16 \<Rightarrow> i32 \<Rightarrow> u16 \<times> u8 \<times> u8" where
  "flt_request c flags prec =
     (let flags = flags AND NOT (FL_FLTEXP OR FL_FLTFIX);
          (ndigs, ndecimal, flags) =
            (if c = ch CHR ''e'' then (ucast (prec + 1), 0, flags OR FL_FLTEXP)
             else if c = ch CHR ''f'' then (DTOA_MAX_DIG, ucast prec, flags OR FL_FLTFIX)
             else (ucast prec, 0, flags))
      in (flags, if ndigs > DTOA_MAX_DIG then DTOA_MAX_DIG else ndigs, ndecimal))"

definition flt_sign :: "dtoa_s \<Rightarrow> u16 \<Rightarrow> u8" where
  "flt_sign dtoa flags =
     (if d_flags dtoa AND DTOA_MINUS \<noteq> 0 \<and> d_flags dtoa AND DTOA_NAN = 0 then ch CHR ''-''
      else if flags AND FL_PLUS \<noteq> 0 then ch CHR ''+''
      else if flags AND FL_SPACE \<noteq> 0 then ch CHR '' ''
      else 0)"

text \<open>Infinities and not-a-number.\<close>

definition put_special :: "dtoa_s \<Rightarrow> u16 \<Rightarrow> i32 \<Rightarrow> u8 \<Rightarrow> u8 list \<Rightarrow> u8 list" where
  "put_special dtoa flags width sign out =
     (let ndigs = (if sign \<noteq> 0 then 4 else 3);
          (width, out) =
            (if ndigs <s width
             then if flags AND FL_LPAD = 0 then (0, put_while (ch CHR '' '') (width - ndigs) out) else (width - ndigs, out)
             else (0, out));
          out = (if sign \<noteq> 0 then uart_putchar sign out else out);
          p = map ch (if d_flags dtoa AND DTOA_NAN \<noteq> 0 then ''nan'' else ''inf'');
          out = fold (\<lambda>b. uart_putchar (if flags AND FL_FLTUPP \<noteq> 0 then b + (ch CHR ''I'' - ch CHR ''i'') else b)) p out
      in put_while (ch CHR '' '') width out)"

function strip_zeros :: "dtoa_s \<Rightarrow> u8 \<Rightarrow> u8" where
  "strip_zeros dtoa ndigs =
     (if ndigs > 0 \<and> d_digits dtoa (unat (ndigs - 1)) = ch CHR ''0'' then strip_zeros dtoa (ndigs - 1) else ndigs)"
  by pat_completeness auto
termination
  by (relation "measure (\<lambda>(dtoa, ndigs). unat ndigs)") (auto simp: unat_minus_one unat_gt_0 word_neq_0_conv)

declare strip_zeros.simps [simp del]

text \<open>The choice that the \<^verbatim>\<open>%g\<close> format makes.\<close>

definition flt_general :: "dtoa_s \<Rightarrow> u16 \<Rightarrow> u8 \<Rightarrow> i32 \<Rightarrow> u16 \<times> u8 \<times> i32" where
  "flt_general dtoa flags ndigs prec =
     (if flags AND (FL_FLTEXP OR FL_FLTFIX) = 0 then
        let prec = ucast ndigs;
            ndigs = strip_zeros dtoa ndigs
        in if - 4 \<le>s d_exp dtoa \<and> d_exp dtoa <s prec
           then (flags OR FL_FLTFIX, ndigs,
                 if d_exp dtoa <s 0 \<or> d_exp dtoa <s ucast ndigs then ucast ndigs - (d_exp dtoa + 1) else 0)
           else (flags, ndigs, ucast ndigs - 1)
      else (flags, ndigs, prec))"

partial_function (option) put_fix_loop ::
  "dtoa_s \<Rightarrow> u16 \<Rightarrow> u8 \<Rightarrow> i32 \<Rightarrow> i32 \<Rightarrow> u8 list \<Rightarrow> (i32 \<times> u8 \<times> u8 list) option" where
  "put_fix_loop dtoa flags ndigs prec n out =
     (let out = (if n = - 1 then uart_putchar (ch CHR ''.'') out else out);
          d = (if 0 \<le>s d_exp dtoa - n \<and> d_exp dtoa - n <s ucast ndigs
               then d_digits dtoa (unat (d_exp dtoa - n)) else ch CHR ''0'');
          n = n - 1
      in if n <s - prec
         then Some (n, d, if flags AND FL_ALT \<noteq> 0 \<and> n = - 1 then uart_putchar (ch CHR ''.'') out else out)
         else put_fix_loop dtoa flags ndigs prec n (uart_putchar d out))"

definition put_fix :: "dtoa_s \<Rightarrow> u16 \<Rightarrow> u8 \<Rightarrow> i32 \<Rightarrow> u8 list \<Rightarrow> u8 list option" where
  "put_fix dtoa flags ndigs prec out = do {
     (n, d, out) \<leftarrow> put_fix_loop dtoa flags ndigs prec (if 0 <s d_exp dtoa then d_exp dtoa else 0) out;
     let d = (if n = d_exp dtoa \<and> (d_digits dtoa 0 > ch CHR ''5'' \<or>
                (d_digits dtoa 0 = ch CHR ''5'' \<and> d_flags dtoa AND DTOA_CARRY = 0)) then ch CHR ''1'' else d);
     Some (uart_putchar d out)
   }"

partial_function (option) put_mantissa :: "dtoa_s \<Rightarrow> u8 \<Rightarrow> i32 \<Rightarrow> u8 \<Rightarrow> u8 list \<Rightarrow> u8 list option" where
  "put_mantissa dtoa ndigs prec pos out =
     (if ucast pos <s 1 + prec
      then put_mantissa dtoa ndigs prec (pos + 1)
             (uart_putchar (if pos < ndigs then d_digits dtoa (unat pos) else ch CHR ''0'') out)
      else Some out)"

function exp_tens :: "i32 \<Rightarrow> u8 \<Rightarrow> i32 \<times> u8" where
  "exp_tens e d = (if 10 \<le>s e then exp_tens (e - 10) (d + 1) else (e, d))"
  by pat_completeness auto
termination
proof (relation "measure (\<lambda>(e, d). unat e)")
  fix e :: i32 and d :: u8
  assume "10 \<le>s e"
  then have "10 \<le> sint e" by (simp add: word_sle_eq)
  then have "10 \<le> unat e" using nonneg_unat [of e] by simp
  then show "((e - 10, d + 1), e, d) \<in> measure (\<lambda>(e, d). unat e)"
    by (simp add: unat_sub_if_size word_le_nat_alt)
qed simp

declare exp_tens.simps [simp del]

definition put_exp :: "dtoa_s \<Rightarrow> u16 \<Rightarrow> u8 \<Rightarrow> i32 \<Rightarrow> u8 list \<Rightarrow> u8 list option" where
  "put_exp dtoa flags ndigs prec out = do {
     let dflags = (if d_digits dtoa 0 \<noteq> ch CHR ''1'' then d_flags dtoa AND NOT DTOA_CARRY else d_flags dtoa);
     let out = uart_putchar (d_digits dtoa 0) out;
     out \<leftarrow> (if 0 <s prec then put_mantissa dtoa ndigs prec 1 (uart_putchar (ch CHR ''.'') out)
            else Some (if flags AND FL_ALT \<noteq> 0 then uart_putchar (ch CHR ''.'') out else out));
     let out = uart_putchar (if flags AND FL_FLTUPP \<noteq> 0 then ch CHR ''E'' else ch CHR ''e'') out;
     let (e, s) = (if d_exp dtoa <s 0 \<or> (d_exp dtoa = 0 \<and> dflags AND DTOA_CARRY \<noteq> 0)
                   then (- d_exp dtoa, ch CHR ''-'') else (d_exp dtoa, ch CHR ''+''));
     let out = uart_putchar s out;
     let (e, d) = exp_tens e (ch CHR ''0'');
     Some (uart_putchar (ucast (ucast (ch CHR ''0'') + e)) (uart_putchar d out))
   }"

definition conv_float :: "dtoa_engine \<Rightarrow> u8 \<Rightarrow> u16 \<Rightarrow> i32 \<Rightarrow> i32 \<Rightarrow> varg list \<Rightarrow> u8 list \<Rightarrow> (varg list \<times> u8 list) option" where
  "conv_float engine c flags width prec ap out = do {
     let (flags, c) = (if c \<ge> ch CHR ''E'' \<and> c \<le> ch CHR ''G'' then (flags OR FL_FLTUPP, c + (ch CHR ''e'' - ch CHR ''E''))
                       else (flags AND NOT FL_FLTUPP, c));
     let prec = (if flags AND FL_PREC = 0 then 6 else prec);
     let (flags, ndigs, ndecimal) = flt_request c flags prec;
     (v, ap) \<leftarrow> va_double ap;
     let (dtoa, n) = engine v (ucast ndigs) (ucast ndecimal);
     let ndigs = (ucast n :: u8);
     let sign = flt_sign dtoa flags;
     if d_flags dtoa AND (DTOA_NAN OR DTOA_INF) \<noteq> 0 then Some (ap, put_special dtoa flags width sign out)
     else do {
       let (flags, ndigs, prec) = flt_general dtoa flags ndigs prec;
       let n = (if flags AND FL_FLTFIX \<noteq> 0 then if 0 <s d_exp dtoa then d_exp dtoa + 1 else 1 else 5);
       let n = (if sign \<noteq> 0 then n + 1 else n);
       let n = (if prec \<noteq> 0 then n + (prec + 1) else if flags AND FL_ALT \<noteq> 0 then n + 1 else n);
       let width = (if n <s width then width - n else 0);
       let (width, out) = (if flags AND (FL_LPAD OR FL_ZFILL) = 0 then (0, put_while (ch CHR '' '') width out) else (width, out));
       let out = (if sign \<noteq> 0 then uart_putchar sign out else out);
       let (width, out) = (if flags AND FL_LPAD = 0 then (0, put_while (ch CHR ''0'') width out) else (width, out));
       out \<leftarrow> (if flags AND FL_FLTFIX \<noteq> 0 then put_fix dtoa flags ndigs prec out else put_exp dtoa flags ndigs prec out);
       Some (ap, put_while (ch CHR '' '') width out)
     }
   }"


section \<open>Directives\<close>

text \<open>
  One turn of the loop over a directive: it goes on with new flags, width, precision and
  arguments, it ends with the format character, or the whole call returns.
\<close>

datatype dir_step = Again u16 i32 i32 "varg list" | Done u8 | Return

definition dir_number :: "u8 \<Rightarrow> u16 \<Rightarrow> i32 \<Rightarrow> i32 \<Rightarrow> varg list \<Rightarrow> dir_step" where
  "dir_number c flags width prec ap =
     (let c = c - ch CHR ''0''
      in if flags AND FL_PREC \<noteq> 0 then Again flags width (10 * prec + ucast c) ap
         else Again (flags OR FL_WIDTH) (10 * width + ucast c) prec ap)"

definition dir_star :: "u16 \<Rightarrow> i32 \<Rightarrow> i32 \<Rightarrow> varg list \<Rightarrow> dir_step option" where
  "dir_star flags width prec ap = do {
     (w, ap) \<leftarrow> va_word ap;
     Some (if flags AND FL_PREC \<noteq> 0 then
             let prec = ucast w in Again flags width (if prec <s 0 then 0 else prec) ap
           else
             let width = ucast w;
                 flags = flags OR FL_WIDTH
             in if width <s 0 then Again (flags OR FL_LPAD) (- width) prec ap else Again flags width prec ap)
   }"

definition dir_size :: "u8 \<Rightarrow> u16 \<Rightarrow> i32 \<Rightarrow> i32 \<Rightarrow> varg list \<Rightarrow> dir_step" where
  "dir_size c flags width prec ap =
     (let c = (if c = ch CHR ''z'' \<or> c = ch CHR ''t'' then ch CHR ''l'' else c)
      in if c = ch CHR ''j'' then Again ((flags OR FL_REPD_TYPE OR FL_LONG) AND NOT FL_SHORT) width prec ap
         else if c = ch CHR ''l'' then
           let flags = (if flags AND FL_LONG \<noteq> 0 then flags OR FL_REPD_TYPE else flags)
           in Again ((flags OR FL_LONG) AND NOT FL_SHORT) width prec ap
         else if c = ch CHR ''h'' then
           let flags = (if flags AND FL_SHORT \<noteq> 0 then flags OR FL_REPD_TYPE else flags)
           in Again ((flags OR FL_SHORT) AND NOT FL_LONG) width prec ap
         else Done c)"

definition dir_next :: "u8 \<Rightarrow> u16 \<Rightarrow> i32 \<Rightarrow> i32 \<Rightarrow> varg list \<Rightarrow> dir_step option" where
  "dir_next c flags width prec ap =
     (if flags < FL_ASTERISK \<and> c = ch CHR ''0'' then Some (Again (flags OR FL_ZFILL) width prec ap)
      else if flags < FL_ASTERISK \<and> c = ch CHR ''+'' then Some (Again (flags OR FL_PLUS OR FL_SPACE) width prec ap)
      else if flags < FL_ASTERISK \<and> c = ch CHR '' '' then Some (Again (flags OR FL_SPACE) width prec ap)
      else if flags < FL_ASTERISK \<and> c = ch CHR ''-'' then Some (Again (flags OR FL_LPAD) width prec ap)
      else if flags < FL_ASTERISK \<and> c = ch CHR ''#'' then Some (Again (flags OR FL_ALT) width prec ap)
      else if flags < FL_LONG \<and> c \<ge> ch CHR ''0'' \<and> c \<le> ch CHR ''9'' then Some (dir_number c flags width prec ap)
      else if flags < FL_LONG \<and> c = ch CHR ''*'' then dir_star flags width prec ap
      else if flags < FL_LONG \<and> c = ch CHR ''.'' then
        Some (if flags AND FL_PREC \<noteq> 0 then Return else Again (flags OR FL_PREC) width prec ap)
      else Some (dir_size c flags width prec ap))"

text \<open>The loop.  At the end of the format it leaves with the null byte as the format character.\<close>

partial_function (option) directive ::
  "bmem \<Rightarrow> u64 \<Rightarrow> u8 \<Rightarrow> u16 \<Rightarrow> i32 \<Rightarrow> i32 \<Rightarrow> varg list \<Rightarrow> (u8 \<times> u16 \<times> i32 \<times> i32 \<times> u64 \<times> varg list) option option" where
  "directive m fmt c flags width prec ap = do {
     r \<leftarrow> dir_next c flags width prec ap;
     (case r of
        Return \<Rightarrow> Some None
      | Done c \<Rightarrow> Some (Some (c, flags, width, prec, fmt, ap))
      | Again flags width prec ap \<Rightarrow>
          if m fmt \<noteq> 0 then directive m (fmt + 1) (m fmt) flags width prec ap
          else Some (Some (0, flags, width, prec, fmt + 1, ap)))
   }"

text \<open>The characters up to the next directive, with the first character of it.\<close>

partial_function (option) literal :: "bmem \<Rightarrow> u64 \<Rightarrow> u8 list \<Rightarrow> ((u8 \<times> u64) option \<times> u8 list) option" where
  "literal m fmt out =
     (let c = m fmt; fmt = fmt + 1
      in if c = 0 then Some (None, out)
         else if c = ch CHR ''%'' then
           let c = m fmt; fmt = fmt + 1
           in if c \<noteq> ch CHR ''%'' then Some (Some (c, fmt), out) else literal m fmt (uart_putchar c out)
         else literal m fmt (uart_putchar c out))"

definition convert :: "dtoa_engine \<Rightarrow> bmem \<Rightarrow> u8 \<Rightarrow> u16 \<Rightarrow> i32 \<Rightarrow> i32 \<Rightarrow> varg list \<Rightarrow> u8 list \<Rightarrow> (varg list \<times> u8 list) option" where
  "convert engine m c flags width prec ap out =
     (if (c \<ge> ch CHR ''E'' \<and> c \<le> ch CHR ''G'') \<or> (c \<ge> ch CHR ''e'' \<and> c \<le> ch CHR ''g'')
      then conv_float engine c flags width prec ap out
      else if c = ch CHR ''c'' then conv_char flags width ap out
      else if c = ch CHR ''s'' \<or> c = ch CHR ''S'' then conv_string m flags width prec ap out
      else if c = ch CHR ''d'' \<or> c = ch CHR ''i'' then conv_signed flags width prec ap out
      else conv_unsigned c flags width prec ap out)"

partial_function (option) k_vprintf :: "dtoa_engine \<Rightarrow> bmem \<Rightarrow> u64 \<Rightarrow> varg list \<Rightarrow> u8 list \<Rightarrow> u8 list option" where
  "k_vprintf engine m fmt ap out = do {
     (r, out) \<leftarrow> literal m fmt out;
     (case r of
        None \<Rightarrow> Some out
      | Some (c, fmt) \<Rightarrow> do {
          d \<leftarrow> directive m fmt c 0 0 0 ap;
          (case d of
             None \<Rightarrow> Some out
           | Some (c, flags, width, prec, fmt, ap) \<Rightarrow>
               if c = ch CHR ''p'' \<and> m fmt = ch CHR ''V'' then do {
                 (vfmt, va, ap) \<leftarrow> va_format ap;
                 out \<leftarrow> k_vprintf engine m vfmt va out;
                 k_vprintf engine m (fmt + 1) ap out
               } else do {
                 let flags = (if c = ch CHR ''p'' then flags AND NOT (FL_LONG OR FL_REPD_TYPE) OR (FL_LONG OR FL_REPD_TYPE) else flags);
                 (ap, out) \<leftarrow> convert engine m c flags width prec ap out;
                 k_vprintf engine m fmt ap out
               })
        })
   }"

definition print_prefix :: "u8 list \<Rightarrow> u8 list" where
  "print_prefix out = uart_putchar (ch CHR '' '') (uart_putchar (ch CHR '']'') (uart_putchar (ch CHR ''K'') (uart_putchar (ch CHR ''['') out)))"

definition kprintf_raw :: "dtoa_engine \<Rightarrow> bmem \<Rightarrow> u64 \<Rightarrow> varg list \<Rightarrow> u8 list \<Rightarrow> u8 list option" where
  "kprintf_raw engine m fmt ap out = k_vprintf engine m fmt ap out"

definition kprintf :: "dtoa_engine \<Rightarrow> bmem \<Rightarrow> u64 \<Rightarrow> varg list \<Rightarrow> u8 list \<Rightarrow> u8 list option" where
  "kprintf engine m fmt ap out = k_vprintf engine m fmt ap (print_prefix out)"

partial_function (option) k_puts :: "bmem \<Rightarrow> u64 \<Rightarrow> u8 list \<Rightarrow> u8 list option" where
  "k_puts m s out = (if m s \<noteq> 0 then k_puts m (s + 1) (uart_putchar (m s) out) else Some out)"

definition kputs :: "bmem \<Rightarrow> u64 \<Rightarrow> u8 list \<Rightarrow> u8 list option" where
  "kputs m s out = do {
     out \<leftarrow> k_puts m s (print_prefix out);
     Some (uart_putchar (ch CHR 0x0A) (uart_putchar (ch CHR 0x0D) out))
   }"


section \<open>What is sent\<close>

definition sent1 :: "u8 \<Rightarrow> u8 list" where
  "sent1 c = (if c = ch CHR 0x0A then [ch CHR 0x0D, c] else [c])"

definition sent :: "u8 list \<Rightarrow> u8 list" where
  "sent cs = concat (map sent1 cs)"

lemma sent_simps [simp]: "sent [] = []" "sent (c # cs) = sent1 c @ sent cs" "sent (a @ b) = sent a @ sent b"
  by (simp_all add: sent_def)

lemma uart_putchar_sent: "uart_putchar c out = out @ sent1 c"
  by (simp add: uart_putchar_def uart_send_def sent1_def)

lemma fold_putchar_sent: "fold uart_putchar cs out = out @ sent cs"
  by (induction cs arbitrary: out) (simp_all add: uart_putchar_sent)

lemma put_while_sent: "put_while c width out = out @ sent (replicate (unat width) c)"
proof (induction c width out rule: put_while.induct)
  case (1 c width out)
  show ?case
  proof (cases "width = 0")
    case False
    then have "unat width = Suc (unat (width - 1))" by (simp add: unat_minus_one unat_gt_0)
    then show ?thesis using 1 False by (subst put_while.simps) (simp add: uart_putchar_sent)
  qed (simp add: put_while.simps)
qed

lemma unat_byte_i32 [simp]: "unat (ucast (c :: u8) :: i32) = unat c"
  by (simp add: unat_ucast_up)

lemma sint_small: "unat w < 2 ^ 31 \<Longrightarrow> sint w = int (unat w)" for w :: i32
proof -
  assume "unat w < 2 ^ 31"
  moreover have "- (2 ^ 31) \<le> int n \<and> int n < 2 ^ 31" if "n < 2 ^ 31" for n using that by auto
  ultimately have "signed_take_bit 31 (int (unat w)) = int (unat w)" by (simp only: signed_take_bit_int_eq_self_iff)
  then show ?thesis unfolding sint_uint uint_nat by simp
qed

lemma sless_small: "unat a < 2 ^ 31 \<Longrightarrow> unat b < 2 ^ 31 \<Longrightarrow> (a <s b \<longleftrightarrow> unat a < unat b)" for a b :: i32
  by (simp only: word_sless_alt sint_small of_nat_less_iff)

lemma byte_sless: "unat b < 2 ^ 31 \<Longrightarrow> (ucast (a :: u8) <s b \<longleftrightarrow> unat a < unat b)" for b :: i32
  using unat_u8_bound [of a] by (simp add: sless_small)

lemma put_zeros_sent:
  assumes "unat prec < 2 ^ 31"
  shows "put_zeros prec c out = out @ sent (replicate (unat prec - unat c) (ch CHR ''0''))"
  using assms
proof (induction prec c out rule: put_zeros.induct)
  case (1 prec c out)
  show ?case
  proof (cases "unat c < unat prec")
    case True
    then have u: "unat (prec - 1) = unat prec - 1" by (intro unat_minus_one) auto
    then have "unat prec - unat c = Suc (unat (prec - 1) - unat c)" using True by simp
    then show ?thesis using 1 True u
      by (subst put_zeros.simps) (simp add: byte_sless uart_putchar_sent)
  qed (use 1 in \<open>simp add: put_zeros.simps byte_sless\<close>)
qed

lemma len_pad_sent:
  assumes "unat width \<le> 255"
  shows "len_pad len width out = Some (word_of_nat (max (unat len) (unat width)), out @ sent (replicate (unat width - unat len) (ch CHR '' '')))"
  using assms
proof (induction "unat width - unat len" arbitrary: len out)
  case 0
  then show ?case by (subst len_pad.simps) (simp add: byte_sless max_absorb1)
next
  case (Suc n)
  then have l: "unat len < unat width" "unat (len + 1) = unat len + 1" by (simp_all add: unat_add_small)
  then have "len_pad (len + 1) width out' = Some (word_of_nat (unat width), out' @ sent (replicate n (ch CHR '' '')))" for out'
  proof -
    have n: "n = unat width - unat (len + 1)" using Suc.hyps(2) l(2) by simp
    show ?thesis using Suc.hyps(1) [OF n Suc.prems, of out'] l n by simp
  qed
  moreover have "max (unat len) (unat width) = unat width" using l by simp
  ultimately show ?case using l(1) Suc.prems
    by (subst len_pad.simps) (simp add: byte_sless uart_putchar_sent flip: Suc.hyps(2))
qed

lemma len_pad_narrow: "len_pad len width out = Some r \<Longrightarrow> \<not> 255 <s width"
proof (erule len_pad.raw_induct [rotated])
  fix len_pad' :: "u8 \<Rightarrow> i32 \<Rightarrow> u8 list \<Rightarrow> (u8 \<times> u8 list) option" and len width out r
  assume IH: "\<And>len width out r. len_pad' len width out = Some r \<Longrightarrow> \<not> 255 <s width"
    and r: "(if ucast len <s width then len_pad' (len + 1) width (uart_putchar (ch CHR '' '') out) else Some (len, out)) = Some r"
  show "\<not> 255 <s width"
  proof (cases "ucast len <s width")
    case False
    then show ?thesis using sint_ucast_byte [of len] uint_lt2p [of len] by (simp add: word_sless_alt)
  qed (use IH r in auto)
qed

lemma len_pad_wide: "255 <s width \<Longrightarrow> len_pad len width out = None"
  using len_pad_narrow by (metis option.exhaust)


section \<open>Strings\<close>

definition spaces :: "nat \<Rightarrow> u8 list" where
  "spaces n = replicate n (ch CHR '' '')"

definition zeros :: "nat \<Rightarrow> u8 list" where
  "zeros n = replicate n (ch CHR ''0'')"

lemma length_spaces [simp]: "length (spaces n) = n" "length (zeros n) = n" "spaces 0 = []" "zeros 0 = []"
  by (simp_all add: spaces_def zeros_def)

lemma scast_small: "unat w < 2 ^ 31 \<Longrightarrow> unat (scast w :: u64) = unat w" for w :: i32
proof -
  assume w: "unat w < 2 ^ 31"
  then have "(scast w :: u64) = word_of_nat (unat w)" by (simp add: scast_eq sint_small)
  then show ?thesis using w by (simp add: unat_ucast_up)
qed

lemma str_pad_sent:
  assumes "unat width < 2 ^ 31" "n < 2 ^ 31"
  shows "str_pad (word_of_nat n) width out = (word_of_nat (min (unat width) n), out @ sent (spaces (unat width - n)))"
  using assms
proof (induction "unat width - n" arbitrary: width out)
  case 0
  then have "\<not> word_of_nat n < (scast width :: u64)" by (simp add: word_less_nat_alt unat_of_nat_small scast_small)
  moreover have "min (unat width) n = unat width" using 0 by simp
  ultimately show ?case using 0 by (subst str_pad.simps) (simp add: spaces_def)
next
  case (Suc k)
  have lt: "word_of_nat n < (scast width :: u64)"
    using Suc by (simp add: word_less_nat_alt unat_of_nat_small scast_small)
  have u: "unat (width - 1) = unat width - 1" using Suc.hyps(2) by (intro unat_minus_one) auto
  have "str_pad (word_of_nat n) (width - 1) out' =
    (word_of_nat (min (unat (width - 1)) n), out' @ sent (spaces (unat (width - 1) - n)))" for out'
    by (rule Suc.hyps(1)) (use Suc.hyps(2) Suc.prems u in auto)
  moreover have "min (unat (width - 1)) n = min (unat width) n" "unat width - n = Suc (unat (width - 1) - n)"
    using u Suc.hyps(2) by auto
  ultimately show ?case using lt by (subst str_pad.simps) (simp add: uart_putchar_sent spaces_def)
qed

lemma str_body_sent: "str_body bs width out = (width', out') \<Longrightarrow> unat width' = unat width - length bs \<and> out' = out @ sent bs"
proof (induction bs arbitrary: width out)
  case (Cons b bs)
  let ?w = "if width \<noteq> 0 then width - 1 else width"
  have "unat ?w = unat width - 1" by (simp add: unat_minus_one)
  then show ?case using Cons.IH [of ?w "out @ sent1 b"] Cons.prems by (auto simp: uart_putchar_sent)
qed simp

definition pad_text :: "bool \<Rightarrow> nat \<Rightarrow> u8 list \<Rightarrow> u8 list" where
  "pad_text left w t = (if left then t @ spaces (w - length t) else spaces (w - length t) @ t)"

lemma str_lpad_sent:
  assumes "unat width < 2 ^ 31" "length bs < 2 ^ 31"
  shows "str_lpad flags width bs out = out @ sent (pad_text (flags AND FL_LPAD \<noteq> 0) (unat width) bs)"
proof -
  obtain width1 out1 where 1: "(if flags AND FL_LPAD = 0 then str_pad (word_of_nat (length bs)) width out else (width, out)) = (width1, out1)"
    by (cases "if flags AND FL_LPAD = 0 then str_pad (word_of_nat (length bs)) width out else (width, out)")
  obtain width2 out2 where 2: "str_body bs width1 out1 = (width2, out2)" by (cases "str_body bs width1 out1")
  have "unat width2 = unat width1 - length bs" "out2 = out1 @ sent bs" using str_body_sent [OF 2] by auto
  moreover have "unat width1 - length bs = (if flags AND FL_LPAD = 0 then 0 else unat width - length bs)"
    "out1 = out @ sent (if flags AND FL_LPAD = 0 then spaces (unat width - length bs) else [])"
    using 1 assms str_pad_sent [OF assms, of out] by (auto simp: unat_of_nat_small min_def split: if_splits)
  moreover have "str_lpad flags width bs out = put_while (ch CHR '' '') width2 out2"
    unfolding str_lpad_def Let_def 1 by (simp add: 2)
  ultimately show ?thesis by (simp add: put_while_sent pad_text_def spaces_def)
qed

section \<open>Digits\<close>

function ndigits :: "nat \<Rightarrow> nat \<Rightarrow> nat list" where
  "ndigits b n = (if n < b \<or> b < 2 then [n] else n mod b # ndigits b (n div b))"
  by pat_completeness auto
termination
  by (relation "measure snd") auto

declare ndigits.simps [simp del]

definition nvalue :: "nat \<Rightarrow> nat list \<Rightarrow> nat" where
  "nvalue b ds = foldr (\<lambda>d a. d + b * a) ds 0"

lemma ndigits_value: "nvalue b (ndigits b n) = n"
  by (induction b n rule: ndigits.induct) (subst ndigits.simps, auto simp: nvalue_def)

lemma ndigits_range: "2 \<le> b \<Longrightarrow> \<forall>d \<in> set (ndigits b n). d < b"
  by (induction b n rule: ndigits.induct) (subst ndigits.simps, auto)

lemma ndigits_length: "2 \<le> b \<Longrightarrow> n < b ^ Suc k \<Longrightarrow> length (ndigits b n) \<le> Suc k"
proof (induction k arbitrary: n)
  case 0
  then show ?case by (subst ndigits.simps) simp
next
  case (Suc k)
  then have "n div b < b ^ Suc k" by (simp add: less_mult_imp_div_less mult.commute)
  then show ?case using Suc by (subst ndigits.simps) simp
qed

lemma ndigits_ne [simp]: "ndigits b n \<noteq> []"
  by (subst ndigits.simps) simp

lemma ndigits_last: "2 \<le> b \<Longrightarrow> last (ndigits b n) = 0 \<longleftrightarrow> n = 0"
proof (induction b n rule: ndigits.induct)
  case (1 b n)
  show ?case
  proof (cases "n < b")
    case False
    then have "n div b \<noteq> 0" using 1(2) by (simp add: div_eq_0_iff)
    then show ?thesis using 1 False by (subst ndigits.simps) auto
  qed (subst ndigits.simps, simp)
qed


definition digit_char :: "bool \<Rightarrow> nat \<Rightarrow> u8" where
  "digit_char upper d = ch ((if upper then ''0123456789ABCDEF'' else ''0123456789abcdef'') ! d)"

lemma less_16: "d < 16 \<longleftrightarrow> d \<in> {0, 1, 2, 3, 4, 5, 6, 7, 8, 9, 10, 11, 12, 13, 14, 15 :: nat}"
  by (simp, presburger)

lemma ultoa_digit_char: "d < 16 \<Longrightarrow> ultoa_digit upper (word_of_nat d) = digit_char upper d"
  unfolding less_16 by (elim insertE emptyE; cases upper) (simp_all add: ultoa_digit_def digit_char_def word_sle_eq)

lemma digit_char_zero: "d < 16 \<Longrightarrow> digit_char upper d = ch CHR ''0'' \<longleftrightarrow> d = 0"
  unfolding less_16 by (elim insertE emptyE; cases upper) (simp_all add: digit_char_def)

lemma ultoa_loop_digits:
  assumes "2 \<le> b" "b \<le> 16"
  shows "ultoa_loop (word_of_nat b) upper val = Some (map (digit_char upper) (ndigits b (unat val)))"
proof (induction "unat val" arbitrary: val rule: less_induct)
  case less
  let ?b = "word_of_nat b :: u64"
  have ub: "unat ?b = b" using assms by (simp add: unat_of_nat_small)
  have dm: "unat (val div ?b) = unat val div b" "unat (val mod ?b) = unat val mod b"
    by (simp_all add: unat_div unat_mod ub)
  have "(ucast (val mod ?b) :: i32) = word_of_nat (unat val mod b)" by (simp add: ucast_eq_of_nat dm)
  moreover have "unat val mod b < b" using assms(1) by simp
  then have "unat val mod b < 16" using assms(2) by linarith
  ultimately have d: "ultoa_digit upper (ucast (val mod ?b)) = digit_char upper (unat val mod b)"
    by (simp add: ultoa_digit_char)
  show ?case
  proof (cases "unat val < b")
    case True
    then have "val div ?b = 0" using dm by (simp add: unat_eq_zero [symmetric])
    then show ?thesis using True d by (subst ultoa_loop.simps, subst ndigits.simps) simp
  next
    case False
    then have nz: "val div ?b \<noteq> 0" using dm assms(1) by (metis div_eq_0_iff not_numeral_le_zero unat_0)
    have "unat (val div ?b) < unat val" using False assms(1) dm by simp
    from less [OF this] show ?thesis
      using False assms(1) d nz dm by (subst ultoa_loop.simps, subst ndigits.simps) simp
  qed
qed

section \<open>Flags\<close>

lemma and_2p: "(x AND 2 ^ k = 0) = (\<not> bit x k)" for x :: u16
  by (auto simp: and_zero_iff bit_power dest: bit_imp_le_length)

lemmas FL_defs = FL_ZFILL_def FL_PLUS_def FL_SPACE_def FL_LPAD_def FL_ALT_def FL_ASTERISK_def FL_WIDTH_def FL_PREC_def
  FL_LONG_def FL_SHORT_def FL_REPD_TYPE_def FL_NEGATIVE_def FL_ALTUPP_def FL_ALTHEX_def

lemma flag_bit [simp]:
  "(x AND FL_ZFILL = 0) = (\<not> bit x 0)" "(x AND FL_PLUS = 0) = (\<not> bit x 1)" "(x AND FL_SPACE = 0) = (\<not> bit x 2)"
  "(x AND FL_LPAD = 0) = (\<not> bit x 3)" "(x AND FL_ALT = 0) = (\<not> bit x 4)" "(x AND FL_PREC = 0) = (\<not> bit x 8)"
  "(x AND FL_LONG = 0) = (\<not> bit x 9)" "(x AND FL_SHORT = 0) = (\<not> bit x 10)" "(x AND FL_REPD_TYPE = 0) = (\<not> bit x 11)"
  "(x AND FL_NEGATIVE = 0) = (\<not> bit x 12)" "(x AND FL_ALTUPP = 0) = (\<not> bit x 13)" "(x AND FL_ALTHEX = 0) = (\<not> bit x 14)"
  using and_2p [of x 0] and_2p [of x 1] and_2p [of x 2] and_2p [of x 3] and_2p [of x 4] and_2p [of x 8] and_2p [of x 9]
    and_2p [of x 10] and_2p [of x 11] and_2p [of x 12] and_2p [of x 13] and_2p [of x 14]
  by (simp_all add: FL_defs)

lemma bit_flag [simp]:
  "bit FL_ZFILL n \<longleftrightarrow> n = 0" "bit FL_PLUS n \<longleftrightarrow> n = 1" "bit FL_SPACE n \<longleftrightarrow> n = 2" "bit FL_LPAD n \<longleftrightarrow> n = 3"
  "bit FL_ALT n \<longleftrightarrow> n = 4" "bit FL_WIDTH n \<longleftrightarrow> n = 7" "bit FL_PREC n \<longleftrightarrow> n = 8" "bit FL_LONG n \<longleftrightarrow> n = 9"
  "bit FL_SHORT n \<longleftrightarrow> n = 10" "bit FL_REPD_TYPE n \<longleftrightarrow> n = 11" "bit FL_NEGATIVE n \<longleftrightarrow> n = 12"
  "bit FL_ALTUPP n \<longleftrightarrow> n = 13" "bit FL_ALTHEX n \<longleftrightarrow> n = 14"
proof -
  have p: "bit (2 ^ k :: u16) n \<longleftrightarrow> n = k" if "k < 16" for k using that by (auto simp: bit_simps)
  show "bit FL_ZFILL n \<longleftrightarrow> n = 0" "bit FL_PLUS n \<longleftrightarrow> n = 1" "bit FL_SPACE n \<longleftrightarrow> n = 2" "bit FL_LPAD n \<longleftrightarrow> n = 3"
    "bit FL_ALT n \<longleftrightarrow> n = 4" "bit FL_WIDTH n \<longleftrightarrow> n = 7" "bit FL_PREC n \<longleftrightarrow> n = 8" "bit FL_LONG n \<longleftrightarrow> n = 9"
    "bit FL_SHORT n \<longleftrightarrow> n = 10" "bit FL_REPD_TYPE n \<longleftrightarrow> n = 11" "bit FL_NEGATIVE n \<longleftrightarrow> n = 12"
    "bit FL_ALTUPP n \<longleftrightarrow> n = 13" "bit FL_ALTHEX n \<longleftrightarrow> n = 14"
    using p [of 0] p [of 1] p [of 2] p [of 3] p [of 4] p [of 7] p [of 8] p [of 9] p [of 10] p [of 11] p [of 12] p [of 13] p [of 14]
    by (simp_all add: FL_defs)
qed

lemma sign_flags [simp]: "(x AND (FL_NEGATIVE OR FL_PLUS OR FL_SPACE) = 0) = (\<not> bit x 12 \<and> \<not> bit x 1 \<and> \<not> bit x 2)"
proof -
  have "x AND (FL_NEGATIVE OR FL_PLUS OR FL_SPACE) = (x AND FL_NEGATIVE) OR (x AND FL_PLUS) OR (x AND FL_SPACE)"
    by (simp only: bit.conj_disj_distrib)
  then show ?thesis by (simp add: or_eq_0_iff)
qed


section \<open>Numbers\<close>

text \<open>What a conversion specification asks for, and the text it gives for a number.\<close>

record fspec =
  s_zero :: bool
  s_plus :: bool
  s_space :: bool
  s_left :: bool
  s_alt :: bool
  s_width :: nat
  s_prec :: "nat option"

definition min_digits :: "fspec \<Rightarrow> nat" where
  "min_digits sp = (case s_prec sp of None \<Rightarrow> 0 | Some p \<Rightarrow> p)"

definition number_text :: "fspec \<Rightarrow> u8 list \<Rightarrow> u8 list \<Rightarrow> u8 list" where
  "number_text sp pre ds =
     (let body = zeros (min_digits sp - length ds) @ ds;
          n = s_width sp - (length pre + length body)
      in if s_left sp then pre @ body @ spaces n
         else if s_zero sp \<and> s_prec sp = None then pre @ zeros n @ body
         else spaces n @ pre @ body)"

definition flags_are :: "u16 \<Rightarrow> fspec \<Rightarrow> bool" where
  "flags_are flags sp \<longleftrightarrow> bit flags 0 = s_zero sp \<and> bit flags 1 = s_plus sp \<and> bit flags 2 = (s_plus sp \<or> s_space sp) \<and>
     bit flags 3 = s_left sp \<and> bit flags 4 = s_alt sp \<and> bit flags 8 = (s_prec sp \<noteq> None)"

definition small_spec :: "fspec \<Rightarrow> bool" where
  "small_spec sp \<longleftrightarrow> s_width sp \<le> 255 \<and> min_digits sp \<le> 253"

lemma put_number_text:
  assumes sm: "small_spec sp" and ds: "length ds \<le> 22"
    and nl: "number_length flags (word_of_nat (min_digits sp)) (rev ds) = Some (flags', len)"
    and len: "unat len = length pre + max (length ds) (min_digits sp)"
    and fl: "bit flags' 0 = (s_zero sp \<and> s_prec sp = None)" "bit flags' 3 = s_left sp"
    and pre: "\<And>out. put_prefix flags' out = out @ sent pre"
  shows "put_number flags (word_of_nat (s_width sp)) (word_of_nat (min_digits sp)) (rev ds) out =
    Some (out @ sent (number_text sp pre ds))"
proof -
  let ?w = "word_of_nat (s_width sp) :: i32" and ?p = "word_of_nat (min_digits sp) :: i32" and ?c = "word_of_nat (length ds) :: u8"
  have w: "unat ?w = s_width sp" "s_width sp \<le> 255" and p: "unat ?p = min_digits sp" "min_digits sp \<le> 253" and c: "unat ?c = length ds"
    using sm ds by (simp_all add: small_spec_def unat_of_nat_small)
  have l: "ucast len <s ?w \<longleftrightarrow> unat len < s_width sp" using w by (simp add: byte_sless)
  let ?n = "s_width sp - unat len"
  have zs: "put_zeros ?p ?c out' = out' @ sent (zeros (min_digits sp - length ds))" for out'
    using p c by (simp add: put_zeros_sent zeros_def)
  note defs = put_number_def nl number_text_def Let_def pre fold_putchar_sent put_while_sent
  have body: "min_digits sp - length ds + length ds = max (length ds) (min_digits sp)" by simp
  have mx: "ucast (word_of_nat (max (unat len) (s_width sp)) :: u8) <s ?w \<longleftrightarrow> False"
    using w unat_u8_bound [of len] by (simp add: byte_sless unat_of_nat_small)
  consider "s_left sp" | "\<not> s_left sp" "s_zero sp \<and> s_prec sp = None" | "\<not> s_left sp" "\<not> (s_zero sp \<and> s_prec sp = None)" by blast
  then show ?thesis
  proof cases
    case 1
    have "unat (if ucast len <s ?w then ?w - ucast len else 0) = ?n"
      using w l by (simp add: unat_sub_if_size word_le_nat_alt)
    then show ?thesis using 1 fl zs by (simp add: defs len body spaces_def)
  next
    case 2
    then have mp: "min_digits sp = 0" by (simp add: min_digits_def)
    have nl': "number_length flags 0 (rev ds) = Some (flags', len)" using nl mp by simp
    show ?thesis
    proof (cases "unat len < s_width sp")
      case True
      have q: "unat (ucast ?c + (?w - ucast len)) = length ds + ?n"
        using True w c ds by (simp add: unat_add_small unat_sub_if_size word_le_nat_alt)
      have z: "put_zeros (ucast ?c + (?w - ucast len)) ?c out' = out' @ sent (zeros ?n)" for out'
        using q c w ds by (simp add: put_zeros_sent zeros_def)
      have u: "unat (ucast ?w :: u8) = s_width sp" using w by (simp add: unsigned_ucast_eq take_bit_nat_eq_self)
      have "ucast (word_of_nat (s_width sp) :: u8) <s ?w \<longleftrightarrow> False" using w by (simp add: byte_sless unat_of_nat_small)
      then show ?thesis using 2 fl True z u w
        by (simp add: put_number_def nl' mp number_text_def Let_def pre fold_putchar_sent put_while_sent l len_pad_sent len)
    next
      case False
      have z: "put_zeros (ucast ?c) ?c out' = out'" for out' using c ds by (simp add: put_zeros_sent)
      show ?thesis using 2 fl False z w mx by (simp add: defs nl' l len_pad_sent mp len)
    qed
  next
    case 3
    then have a: "(s_zero sp \<and> s_prec sp = None) = False" "\<not> bit flags' 0" "\<not> bit flags' 3" using fl by blast+
    show ?thesis using zs mx w 3(1) by (simp only: number_text_def a) (simp add: put_number_def nl a Let_def pre
      fold_putchar_sent put_while_sent len len_pad_sent body spaces_def)
  qed
qed


definition sign_text :: "u16 \<Rightarrow> u8 list" where
  "sign_text f = (if bit f 12 then [ch CHR ''-''] else if bit f 1 then [ch CHR ''+''] else if bit f 2 then [ch CHR '' ''] else [])"

definition base_text :: "u16 \<Rightarrow> nat \<Rightarrow> u8 list \<Rightarrow> u8 list" where
  "base_text f p ds =
     (if hd ds = ch CHR ''0'' \<or> (\<not> bit f 14 \<and> length ds < p) then []
      else ch CHR ''0'' # (if bit f 14 then [if bit f 13 then ch CHR ''X'' else ch CHR ''x''] else []))"

lemma put_prefix_sign: "\<not> bit f 4 \<Longrightarrow> put_prefix f out = out @ sent (sign_text f)"
  by (auto simp: put_prefix_def sign_text_def uart_putchar_sent)

lemma put_prefix_base:
  "bit f 4 \<Longrightarrow> put_prefix f out = out @ sent (ch CHR ''0'' # (if bit f 14 then [if bit f 13 then ch CHR ''X'' else ch CHR ''x''] else []))"
  by (simp add: put_prefix_def uart_putchar_sent)

lemma put_number_sign:
  assumes sm: "small_spec sp" and ds: "length ds \<le> 22"
    and f: "\<not> bit f 4" "bit f 0 = s_zero sp" "bit f 3 = s_left sp" "bit f 8 = (s_prec sp \<noteq> None)"
  shows "put_number f (word_of_nat (s_width sp)) (word_of_nat (min_digits sp)) (rev ds) out =
    Some (out @ sent (number_text sp (sign_text f) ds))"
proof -
  let ?f = "if bit f 8 then f AND NOT FL_ZFILL else f" and ?p = "word_of_nat (min_digits sp) :: i32"
  let ?l = "word_of_nat (max (length ds) (min_digits sp)) :: u8"
  let ?len = "if sign_text f = [] then ?l else ?l + 1"
  have p: "unat ?p = min_digits sp" "min_digits sp \<le> 253" using sm by (simp_all add: small_spec_def unat_of_nat_small)
  have np: "\<not> bit f 8 \<Longrightarrow> min_digits sp = 0" using f(4) by (simp add: min_digits_def)
  have ul: "unat ?l = max (length ds) (min_digits sp)" using p(2) ds by (simp add: unat_of_nat_small)
  have c: "ucast (word_of_nat (length ds) :: u8) <s ?p \<longleftrightarrow> length ds < min_digits sp"
    using p ds by (simp add: byte_sless unat_of_nat_small)
  have up: "(ucast ?p :: u8) = word_of_nat (min_digits sp)" by (simp add: ucast_eq_of_nat p)
  have nl: "number_length f ?p (rev ds) = Some (?f, ?len)"
    using f np by (auto simp: number_length_def Let_def c up sign_text_def max_def bit_simps)
  have "unat ?len = length (sign_text f) + max (length ds) (min_digits sp)"
    using ul p(2) ds by (simp add: unat_add_small sign_text_def)
  moreover have "sign_text ?f = sign_text f" by (simp add: sign_text_def bit_simps)
  ultimately show ?thesis
    using f put_prefix_sign [of ?f]
    by (intro put_number_text [OF sm ds nl]) (auto simp: bit_simps)
qed

lemma put_number_base:
  assumes sm: "small_spec sp" and ds: "length ds \<le> 22" "ds \<noteq> []"
    and f: "bit f 4" "\<not> bit f 1" "\<not> bit f 2" "\<not> bit f 12" "bit f 0 = s_zero sp" "bit f 3 = s_left sp" "bit f 8 = (s_prec sp \<noteq> None)"
  shows "put_number f (word_of_nat (s_width sp)) (word_of_nat (min_digits sp)) (rev ds) out =
    Some (out @ sent (number_text sp (base_text f (min_digits sp) ds) ds))"
proof -
  let ?p = "word_of_nat (min_digits sp) :: i32" and ?pre = "base_text f (min_digits sp) ds"
  let ?l = "word_of_nat (max (length ds) (min_digits sp)) :: u8"
  let ?f1 = "if bit f 8 then f AND NOT FL_ZFILL else f"
  let ?f2 = "if \<not> bit f 14 \<and> length ds < min_digits sp then ?f1 AND NOT FL_ALT else ?f1"
  let ?f = "if \<not> (\<not> bit f 14 \<and> length ds < min_digits sp) \<and> hd ds = ch CHR ''0'' then ?f2 AND NOT (FL_ALT OR FL_ALTHEX OR FL_ALTUPP) else ?f2"
  let ?len = "?l + word_of_nat (length ?pre)"
  have p: "unat ?p = min_digits sp" "min_digits sp \<le> 253" using sm by (simp_all add: small_spec_def unat_of_nat_small)
  have np: "\<not> bit f 8 \<Longrightarrow> min_digits sp = 0" using f(7) by (simp add: min_digits_def)
  have ul: "unat ?l = max (length ds) (min_digits sp)" using p(2) ds by (simp add: unat_of_nat_small)
  have c: "ucast (word_of_nat (length ds) :: u8) <s ?p \<longleftrightarrow> length ds < min_digits sp"
    using p ds by (simp add: byte_sless unat_of_nat_small)
  have up: "(ucast ?p :: u8) = word_of_nat (min_digits sp)" by (simp add: ucast_eq_of_nat p)
  have lst: "last (rev ds) = hd ds" using ds(2) by (simp add: last_rev)
  have nl: "number_length f ?p (rev ds) = Some (?f, ?len)"
    using f np ds(2) by (auto simp: number_length_def Let_def c up base_text_def max_def lst bit_simps)
  have pl: "length ?pre \<le> 2" by (simp add: base_text_def)
  have "unat ?len = length ?pre + max (length ds) (min_digits sp)"
    using ul p(2) ds pl by (simp add: unat_add_small unat_of_nat_small)
  moreover have "put_prefix ?f out = out @ sent ?pre" for out
    using f put_prefix_sign [of ?f out] put_prefix_base [of ?f out] by (auto simp: base_text_def sign_text_def bit_simps)
  ultimately show ?thesis
    using f by (intro put_number_text [OF sm ds(1) nl]) (auto simp: bit_simps)
qed

end
