(* ===== verification/K_Convert.thy ===== *)
theory K_Convert
  imports K_Printf
begin

text \<open>
  What a format prints.  A format is a list of plain characters, percent signs and conversions;
  its text is what the C programmer writes and its meaning is the text that ISO C describes.  The
  main result is that \<open>k_vprintf\<close>, run on the text in memory with one argument for each
  conversion, returns and sends the meaning.  Field widths are at most 255 and precisions at most
  253, because the code keeps the length of a number in a byte.
\<close>

unbundle bit_operations_syntax

section \<open>Formats\<close>

datatype lmod = LM_none | LM_hh | LM_h | LM_l | LM_ll | LM_j | LM_z | LM_t

datatype conv = C_d | C_i | C_u | C_o | C_x | C_X | C_p | C_c | C_s

datatype chunk = Lit u8 | Percent | Conv fspec lmod conv

definition dec_text :: "nat \<Rightarrow> u8 list" where
  "dec_text n = map (digit_char False) (rev (ndigits 10 n))"

definition flag_text :: "fspec \<Rightarrow> u8 list" where
  "flag_text sp =
     (if s_zero sp then [ch CHR ''0''] else []) @ (if s_plus sp then [ch CHR ''+''] else []) @
     (if s_space sp then [ch CHR '' ''] else []) @ (if s_left sp then [ch CHR ''-''] else []) @
     (if s_alt sp then [ch CHR ''#''] else [])"

definition width_text :: "fspec \<Rightarrow> u8 list" where
  "width_text sp = (if s_width sp = 0 then [] else dec_text (s_width sp))"

definition prec_text :: "fspec \<Rightarrow> u8 list" where
  "prec_text sp = (case s_prec sp of None \<Rightarrow> [] | Some p \<Rightarrow> ch CHR ''.'' # dec_text p)"

definition lmod_text :: "lmod \<Rightarrow> u8 list" where
  "lmod_text lm = map ch (case lm of LM_none \<Rightarrow> '''' | LM_hh \<Rightarrow> ''hh'' | LM_h \<Rightarrow> ''h'' | LM_l \<Rightarrow> ''l'' |
     LM_ll \<Rightarrow> ''ll'' | LM_j \<Rightarrow> ''j'' | LM_z \<Rightarrow> ''z'' | LM_t \<Rightarrow> ''t'')"

definition conv_letter :: "conv \<Rightarrow> u8" where
  "conv_letter c = ch (case c of C_d \<Rightarrow> CHR ''d'' | C_i \<Rightarrow> CHR ''i'' | C_u \<Rightarrow> CHR ''u'' | C_o \<Rightarrow> CHR ''o'' |
     C_x \<Rightarrow> CHR ''x'' | C_X \<Rightarrow> CHR ''X'' | C_p \<Rightarrow> CHR ''p'' | C_c \<Rightarrow> CHR ''c'' | C_s \<Rightarrow> CHR ''s'')"

fun chunk_text :: "chunk \<Rightarrow> u8 list" where
  "chunk_text (Lit c) = [c]"
| "chunk_text Percent = [ch CHR ''%'', ch CHR ''%'']"
| "chunk_text (Conv sp lm c) =
     ch CHR ''%'' # flag_text sp @ width_text sp @ prec_text sp @ lmod_text lm @ [conv_letter c]"

section \<open>Meanings\<close>

definition signed_value :: "lmod \<Rightarrow> u64 \<Rightarrow> int" where
  "signed_value lm w = (case lm of LM_none \<Rightarrow> sint (ucast w :: 32 word) | LM_hh \<Rightarrow> sint (ucast w :: 8 word)
     | LM_h \<Rightarrow> sint (ucast w :: 16 word) | _ \<Rightarrow> sint w)"

definition unsigned_value :: "lmod \<Rightarrow> conv \<Rightarrow> u64 \<Rightarrow> nat" where
  "unsigned_value lm c w = (if c = C_p then unat w else case lm of LM_none \<Rightarrow> unat (ucast w :: 32 word)
     | LM_hh \<Rightarrow> unat (ucast w :: 8 word) | LM_h \<Rightarrow> unat (ucast w :: 16 word) | _ \<Rightarrow> unat w)"

definition digits_text :: "fspec \<Rightarrow> nat \<Rightarrow> bool \<Rightarrow> nat \<Rightarrow> u8 list" where
  "digits_text sp b upper n = (if s_prec sp = Some 0 \<and> n = 0 then [] else map (digit_char upper) (rev (ndigits b n)))"

definition sign_chars :: "fspec \<Rightarrow> int \<Rightarrow> u8 list" where
  "sign_chars sp v = (if v < 0 then [ch CHR ''-''] else if s_plus sp then [ch CHR ''+'']
     else if s_space sp then [ch CHR '' ''] else [])"

definition base_chars :: "fspec \<Rightarrow> conv \<Rightarrow> nat \<Rightarrow> nat \<Rightarrow> u8 list" where
  "base_chars sp c n len =
     (if n = 0 then []
      else if c = C_p \<or> c = C_x \<and> s_alt sp then map ch ''0x''
      else if c = C_X \<and> s_alt sp then map ch ''0X''
      else if c = C_o \<and> s_alt sp \<and> min_digits sp \<le> len then map ch ''0''
      else [])"

definition conv_base :: "conv \<Rightarrow> nat" where
  "conv_base c = (if c = C_u then 10 else if c = C_o then 8 else 16)"

definition string_at :: "bmem \<Rightarrow> u64 \<Rightarrow> u8 list \<Rightarrow> bool" where
  "string_at m p bs \<longleftrightarrow> (if p = 0 then bs = map ch ''(null)'' else c_string m p bs \<and> length bs < 2 ^ 31)"

text \<open>\<open>means m sp lm c w t\<close>: the conversion prints \<open>t\<close> for the argument \<open>w\<close>.\<close>

definition means :: "bmem \<Rightarrow> fspec \<Rightarrow> lmod \<Rightarrow> conv \<Rightarrow> u64 \<Rightarrow> u8 list \<Rightarrow> bool" where
  "means m sp lm c w t \<longleftrightarrow>
     (if c = C_c then t = pad_text (s_left sp) (s_width sp) [ucast w]
      else if c = C_s then \<exists>bs. string_at m w bs \<and>
        t = pad_text (s_left sp) (s_width sp) (case s_prec sp of None \<Rightarrow> bs | Some p \<Rightarrow> take p bs)
      else if c = C_d \<or> c = C_i then
        t = number_text sp (sign_chars sp (signed_value lm w)) (digits_text sp 10 False (nat \<bar>signed_value lm w\<bar>))
      else let n = unsigned_value lm c w; ds = digits_text sp (conv_base c) (c = C_X) n
           in t = number_text sp (base_chars sp c n (length ds)) ds)"

definition conv_ok :: "fspec \<Rightarrow> lmod \<Rightarrow> conv \<Rightarrow> u64 \<Rightarrow> bool" where
  "conv_ok sp lm c w \<longleftrightarrow> small_spec sp \<and>
     \<not> ((c = C_p \<or> c \<in> {C_o, C_x, C_X} \<and> s_alt sp) \<and> s_prec sp = Some 0 \<and> unsigned_value lm c w = 0)"

definition lmod_flags :: "u16 \<Rightarrow> lmod \<Rightarrow> bool" where
  "lmod_flags flags lm \<longleftrightarrow>
     (case lm of LM_none \<Rightarrow> \<not> bit flags 9 \<and> \<not> bit flags 10
      | LM_h \<Rightarrow> \<not> bit flags 9 \<and> bit flags 10 \<and> \<not> bit flags 11
      | LM_hh \<Rightarrow> \<not> bit flags 9 \<and> bit flags 10 \<and> bit flags 11
      | _ \<Rightarrow> bit flags 9)"

section \<open>Conversions\<close>

lemma scast_sint:
  assumes "LENGTH('a) \<le> 64"
  shows "sint (scast (x :: 'a :: len word) :: u64) = sint x"
proof -
  have "(2 :: int) ^ (LENGTH('a) - 1) \<le> 2 ^ 63" using assms by (intro power_increasing) auto
  then have "- (2 ^ 63) \<le> sint x \<and> sint x < 2 ^ 63" using sint_ge [of x] sint_lt [of x] by linarith
  then show ?thesis by (simp add: signed_scast_eq signed_take_bit_int_eq_self_iff)
qed

lemma low_bits:
  "(ucast (scast (ucast (w :: u64) :: i32) :: u64) :: u8) = ucast w" "(ucast (scast (ucast (w :: u64) :: i32) :: u64) :: u16) = ucast w"
  "(ucast (ucast (ucast (w :: u64) :: u32) :: u64) :: u8) = ucast w" "(ucast (ucast (ucast (w :: u64) :: u32) :: u64) :: u16) = ucast w"
  by (rule bit_word_eqI, simp add: bit_simps)+

lemma arg_signed_value:
  assumes "lmod_flags flags lm"
  shows "\<exists>x. arg_signed flags (Word w # ap) = Some (x, ap) \<and> sint x = signed_value lm w"
  using assms by (cases lm)
    (simp_all add: lmod_flags_def arg_signed_def va_word_def signed_value_def Let_def low_bits scast_sint)

lemma arg_unsigned_value:
  assumes "lmod_flags flags lm"
  shows "\<exists>x. arg_unsigned flags (Word w # ap) = Some (x, ap) \<and> unat x = unsigned_value lm C_u w"
  using assms by (cases lm)
    (simp_all add: lmod_flags_def arg_unsigned_def va_word_def unsigned_value_def Let_def low_bits unat_ucast_up)

lemma ultoa_invert_digits:
  "ultoa_invert x 10 = Some (map (digit_char False) (ndigits 10 (unat x)))"
  "ultoa_invert x 8 = Some (map (digit_char False) (ndigits 8 (unat x)))"
  "ultoa_invert x 16 = Some (map (digit_char False) (ndigits 16 (unat x)))"
  "ultoa_invert x (16 OR XTOA_UPPER) = Some (map (digit_char True) (ndigits 16 (unat x)))"
  using ultoa_loop_digits [of 10 _ x] ultoa_loop_digits [of 8 _ x] ultoa_loop_digits [of 16 _ x]
  by (simp_all add: ultoa_invert_def XTOA_UPPER_def)


lemma digits_text_length: "length (digits_text sp b upper (unat x)) \<le> 22" if "8 \<le> b" for x :: u64
proof -
  have "unat x < 8 ^ Suc 21" using unat_u64_bound [of x] by simp
  also have "\<dots> \<le> b ^ Suc 21" using that by (rule power_mono) simp
  finally have "length (ndigits b (unat x)) \<le> Suc 21" using that by (intro ndigits_length) auto
  then show ?thesis by (simp add: digits_text_def)
qed

lemma abs_value: "unat (if x <s 0 then - x else x) = nat \<bar>sint x\<bar>" for x :: u64
proof -
  have x: "word_of_int (sint x) = x" by simp
  have r: "- (2 ^ 63) \<le> sint x" "sint x < 2 ^ 63" using sint_ge [of x] sint_lt [of x] by simp_all
  have u: "unat (word_of_int k :: u64) = nat k" if "0 \<le> k" "k < 2 ^ 64" for k
    using that by (simp add: unat_eq_nat_uint uint_word_of_int)
  have "- x = word_of_int (- sint x)" by (simp add: x)
  then show ?thesis using u [of "sint x"] u [of "- sint x"] r x by (auto simp: word_sless_alt)
qed

lemma prec_bits: "flags_are flags sp \<Longrightarrow> (bit flags 8 \<and> (word_of_nat (min_digits sp) :: i32) = 0) = (s_prec sp = Some 0)" if "small_spec sp"
proof -
  assume f: "flags_are flags sp"
  have "(word_of_nat (min_digits sp) :: i32) = 0 \<longleftrightarrow> min_digits sp = 0"
    using that by (simp add: small_spec_def unat_of_nat_small flip: unat_eq_zero)
  then show ?thesis using f by (auto simp: flags_are_def min_digits_def split: option.splits)
qed

lemma conv_signed_means:
  assumes f: "flags_are flags sp" "lmod_flags flags lm" and sm: "small_spec sp"
  shows "conv_signed flags (word_of_nat (s_width sp)) (word_of_nat (min_digits sp)) (Word w # ap) out =
    Some (ap, out @ sent (number_text sp (sign_chars sp (signed_value lm w)) (digits_text sp 10 False (nat \<bar>signed_value lm w\<bar>))))"
proof -
  obtain x where x: "arg_signed flags (Word w # ap) = Some (x, ap)" "sint x = signed_value lm w"
    using arg_signed_value [OF f(2)] by blast
  let ?y = "if x <s 0 then - x else x" and ?f = "flags AND NOT (FL_NEGATIVE OR FL_ALT) OR (if x <s 0 then FL_NEGATIVE else 0)"
  let ?ds = "digits_text sp 10 False (unat ?y)"
  have neg: "x <s 0 \<longleftrightarrow> signed_value lm w < 0" using x(2) by (simp add: word_sless_alt)
  have st: "sign_text ?f = sign_chars sp (signed_value lm w)"
    using f(1) neg by (auto simp: sign_text_def sign_chars_def flags_are_def bit_simps)
  have buf: "(if ?f AND FL_PREC \<noteq> 0 \<and> (word_of_nat (min_digits sp) :: i32) = 0 \<and> ?y = 0 then Some [] else ultoa_invert ?y 10) = Some (rev ?ds)"
    using prec_bits [OF sm f(1)] by (auto simp: bit_simps digits_text_def ultoa_invert_digits rev_map unat_eq_zero)
  have "put_number ?f (word_of_nat (s_width sp)) (word_of_nat (min_digits sp)) (rev ?ds) out =
    Some (out @ sent (number_text sp (sign_text ?f) ?ds))"
    using f(1) by (intro put_number_sign [OF sm digits_text_length]) (auto simp: flags_are_def bit_simps)
  then have pn: "put_number ?f (word_of_nat (s_width sp)) (word_of_nat (min_digits sp)) (rev ?ds) out =
    Some (out @ sent (number_text sp (sign_chars sp (signed_value lm w)) (digits_text sp 10 False (nat \<bar>signed_value lm w\<bar>))))"
    unfolding st abs_value x(2) .
  have "conv_signed flags (word_of_nat (s_width sp)) (word_of_nat (min_digits sp)) (Word w # ap) out =
    (if ?f AND FL_PREC \<noteq> 0 \<and> (word_of_nat (min_digits sp) :: i32) = 0 \<and> ?y = 0 then Some [] else ultoa_invert ?y 10) \<bind>
    (\<lambda>buf. put_number ?f (word_of_nat (s_width sp)) (word_of_nat (min_digits sp)) buf out \<bind> (\<lambda>out. Some (ap, out)))"
    unfolding conv_signed_def x(1) by (cases "x <s 0") (simp_all add: Let_def)
  then show ?thesis by (simp only: buf pn Option.bind.simps)
qed


lemma base_flags:
  assumes "number_base (conv_letter c) (f AND NOT (FL_PLUS OR FL_SPACE)) = Some (f', b)" "c \<in> {C_u, C_o, C_x, C_X, C_p}" "\<not> bit f 13" "\<not> bit f 14"
  shows "ultoa_invert x b = Some (map (digit_char (c = C_X)) (ndigits (conv_base c) (unat x)))"
    "bit f' 0 = bit f 0" "\<not> bit f' 1" "\<not> bit f' 2" "bit f' 3 = bit f 3" "bit f' 8 = bit f 8"
    "bit f' 4 = (c = C_p \<or> c \<noteq> C_u \<and> bit f 4)" "bit f' 4 \<Longrightarrow> bit f' 14 = (c \<noteq> C_o)" "bit f' 14 \<Longrightarrow> bit f' 13 = (c = C_X)"
  using assms by (auto simp: number_base_def conv_letter_def Let_def ultoa_invert_digits conv_base_def bit_simps split: if_splits)

lemma number_base_letter: "c \<in> {C_u, C_o, C_x, C_X, C_p} \<Longrightarrow> \<exists>f' b. number_base (conv_letter c) f = Some (f', b)"
  by (auto simp: number_base_def conv_letter_def Let_def)

lemma digits_text_first: "8 \<le> b \<Longrightarrow> b \<le> 16 \<Longrightarrow> digits_text sp b up n \<noteq> [] \<Longrightarrow> hd (digits_text sp b up n) = ch CHR ''0'' \<longleftrightarrow> n = 0"
proof -
  assume b: "8 \<le> b" "b \<le> 16" and ne: "digits_text sp b up n \<noteq> []"
  have "last (ndigits b n) \<in> set (ndigits b n)" by simp
  then have "last (ndigits b n) < 16" using ndigits_range [of b n] b by fastforce
  moreover have "hd (digits_text sp b up n) = digit_char up (last (ndigits b n))"
    using ne by (auto simp: digits_text_def hd_map hd_rev split: if_splits)
  ultimately show ?thesis using digit_char_zero ndigits_last [of b n] b by simp
qed

lemma conv_unsigned_means:
  assumes f: "flags_are flags sp" "\<not> bit flags 13" "\<not> bit flags 14" and sm: "conv_ok sp lm c w" and c: "c \<in> {C_u, C_o, C_x, C_X, C_p}"
    and x: "arg_unsigned flags (Word w # ap) = Some (x, ap)" "unat x = unsigned_value lm c w"
    and n: "n = unsigned_value lm c w" "ds = digits_text sp (conv_base c) (c = C_X) n"
  shows "conv_unsigned (conv_letter c) flags (word_of_nat (s_width sp)) (word_of_nat (min_digits sp)) (Word w # ap) out =
    Some (ap, out @ sent (number_text sp (base_chars sp c n (length ds)) ds))"
proof -
  obtain f' b where fb: "number_base (conv_letter c) (flags AND NOT (FL_PLUS OR FL_SPACE)) = Some (f', b)"
    using number_base_letter [OF c] by blast
  note bf = base_flags [OF fb c f(2,3)]
  let ?f = "f' AND NOT FL_NEGATIVE"
  have sms: "small_spec sp" using sm by (simp add: conv_ok_def)
  have cb: "8 \<le> conv_base c" "conv_base c \<le> 16" by (simp_all add: conv_base_def)
  have len: "length ds \<le> 22" using digits_text_length [OF cb(1)] n x(2) by metis
  have fl: "bit ?f 0 = s_zero sp" "bit ?f 3 = s_left sp" "bit ?f 8 = (s_prec sp \<noteq> None)"
    using bf(2,5,6) f(1) by (simp_all add: flags_are_def bit_simps)
  have "bit f' 8 \<and> (word_of_nat (min_digits sp) :: i32) = 0 \<longleftrightarrow> s_prec sp = Some 0"
    using prec_bits [OF sms f(1)] bf(6) by simp
  then have buf: "(if f' AND FL_PREC \<noteq> 0 \<and> (word_of_nat (min_digits sp) :: i32) = 0 \<and> x = 0 then Some [] else ultoa_invert x b) = Some (rev ds)"
    using n x(2) bf(1) by (auto simp: digits_text_def rev_map unat_eq_zero)
  have pn: "put_number ?f (word_of_nat (s_width sp)) (word_of_nat (min_digits sp)) (rev ds) out =
    Some (out @ sent (number_text sp (base_chars sp c n (length ds)) ds))"
  proof (cases "bit f' 4")
    case False
    then have "base_chars sp c n (length ds) = sign_text ?f"
      using bf(3,4,7) f(1) by (auto simp: sign_text_def base_chars_def flags_are_def bit_simps)
    then show ?thesis using put_number_sign [OF sms len, of ?f out] fl False by (simp add: bit_simps)
  next
    case True
    then have ne: "ds \<noteq> []" using sm n bf(7) f(1) c by (auto simp: conv_ok_def digits_text_def flags_are_def)
    have "base_chars sp c n (length ds) = base_text ?f (min_digits sp) ds"
      using True bf(7-9) f(1) c digits_text_first [OF cb, of sp "c = C_X" n] ne n(2)
      by (auto simp: base_text_def base_chars_def flags_are_def bit_simps)
    then show ?thesis using put_number_base [OF sms len ne, of ?f out] fl True bf(3,4) by (simp add: bit_simps)
  qed
  have "conv_unsigned (conv_letter c) flags (word_of_nat (s_width sp)) (word_of_nat (min_digits sp)) (Word w # ap) out =
    (if f' AND FL_PREC \<noteq> 0 \<and> (word_of_nat (min_digits sp) :: i32) = 0 \<and> x = 0 then Some [] else ultoa_invert x b) \<bind>
    (\<lambda>buf. put_number ?f (word_of_nat (s_width sp)) (word_of_nat (min_digits sp)) buf out \<bind> (\<lambda>out. Some (ap, out)))"
    unfolding conv_unsigned_def x(1) by (simp only: Option.bind.simps Let_def prod.case fb option.case)
  then show ?thesis by (simp only: buf pn Option.bind.simps)
qed


lemma conv_string_means:
  assumes f: "flags_are flags sp" and sm: "small_spec sp" and bs: "string_at m w bs"
  shows "conv_string m flags (word_of_nat (s_width sp)) (word_of_nat (min_digits sp)) (Word w # ap) out =
    Some (ap, out @ sent (pad_text (s_left sp) (s_width sp) (case s_prec sp of None \<Rightarrow> bs | Some p \<Rightarrow> take p bs)))"
proof -
  let ?max = "(if flags AND FL_PREC \<noteq> 0 then scast (word_of_nat (min_digits sp) :: i32) else - 1) :: u64"
  let ?t = "case s_prec sp of None \<Rightarrow> bs | Some p \<Rightarrow> take p bs"
  let ?b = "if w = 0 then take (unat ?max) g_nullstring else map (\<lambda>i. m (w + word_of_nat i)) [0..<unat (k_strnlen m w ?max)]"
  have lb: "length bs < 2 ^ 31" using bs by (auto simp: string_at_def split: if_splits)
  have p: "unat (word_of_nat (min_digits sp) :: i32) = min_digits sp" using sm by (simp add: small_spec_def unat_of_nat_small)
  have mx: "unat ?max = (case s_prec sp of None \<Rightarrow> 2 ^ 64 - 1 | Some p \<Rightarrow> p)"
    using f sm p by (auto simp: flags_are_def small_spec_def scast_small min_digits_def unsigned_minus_1_eq_mask mask_eq_exp_minus_1 split: option.splits)
  have tk: "take (unat ?max) bs = ?t" using lb unfolding mx by (auto split: option.splits)
  have "?b = ?t"
  proof (cases "w = 0")
    case True
    then show ?thesis using bs tk by (simp add: string_at_def g_nullstring_def)
  next
    case False
    then have cs: "c_string m w bs" using bs by (simp add: string_at_def)
    have "k_strnlen m w ?max = word_of_nat (min (unat ?max) (length bs))"
      unfolding k_strnlen_def strnlen_scan_eq [OF cs] by simp
    then have "unat (k_strnlen m w ?max) = min (unat ?max) (length bs)" using lb by (simp add: unat_of_nat_small)
    moreover have "map (\<lambda>i. m (w + word_of_nat i)) [0..<min k (length bs)] = take k bs" for k
      using c_string_nth [OF cs] by (auto intro!: nth_equalityI simp: nth_append)
    ultimately show ?thesis using False tk by simp
  qed
  moreover have "length ?t < 2 ^ 31" using lb by (auto split: option.splits)
  moreover have "unat (word_of_nat (s_width sp) :: i32) = s_width sp" "s_width sp < 2 ^ 31"
    using sm by (simp_all add: small_spec_def unat_of_nat_small)
  moreover have "flags AND FL_LPAD \<noteq> 0 \<longleftrightarrow> s_left sp" using f by (simp add: flags_are_def)
  ultimately show ?thesis
    using str_lpad_sent [of "word_of_nat (s_width sp)" ?t flags out]
    by (simp only: conv_string_def va_word_def Let_def list.case varg.case Option.bind.simps prod.case)
qed

lemma convert_means:
  assumes f: "flags_are flags sp" "\<not> bit flags 13" "\<not> bit flags 14" "lmod_flags flags lm" and ok: "conv_ok sp lm c w" and t: "means m sp lm c w t"
    and p: "c = C_p \<Longrightarrow> bit flags 9"
  shows "convert engine m (conv_letter c) flags (word_of_nat (s_width sp)) (word_of_nat (min_digits sp)) (Word w # ap) out =
    Some (ap, out @ sent t)"
proof -
  have sm: "small_spec sp" using ok by (simp add: conv_ok_def)
  consider "c = C_c" | "c = C_s" | "c = C_d \<or> c = C_i" | "c \<in> {C_u, C_o, C_x, C_X, C_p}" by (cases c) auto
  then show ?thesis
  proof cases
    case 1
    have "unat (word_of_nat (s_width sp) :: i32) = s_width sp" "s_width sp < 2 ^ 31"
      using sm by (simp_all add: small_spec_def unat_of_nat_small)
    then show ?thesis using 1 t f(1)
      by (simp add: convert_def conv_letter_def conv_char_def va_word_def str_lpad_sent means_def flags_are_def)
  next
    case 2
    then obtain bs where "string_at m w bs" "t = pad_text (s_left sp) (s_width sp) (case s_prec sp of None \<Rightarrow> bs | Some p \<Rightarrow> take p bs)"
      using t by (auto simp: means_def)
    then show ?thesis using 2 conv_string_means [OF f(1) sm] by (simp add: convert_def conv_letter_def)
  next
    case 3
    then show ?thesis using conv_signed_means [OF f(1,4) sm] t by (auto simp: convert_def conv_letter_def means_def)
  next
    case 4
    have "\<exists>x. arg_unsigned flags (Word w # ap) = Some (x, ap) \<and> unat x = unsigned_value lm c w"
      using arg_unsigned_value [OF f(4)] p 4 by (auto simp: unsigned_value_def arg_unsigned_def va_word_def)
    then obtain x where x: "arg_unsigned flags (Word w # ap) = Some (x, ap)" "unat x = unsigned_value lm c w" by blast
    have "convert engine m (conv_letter c) = conv_unsigned (conv_letter c)"
      using 4 by (auto simp: convert_def conv_letter_def fun_eq_iff)
    then show ?thesis using conv_unsigned_means [OF f(1-3) ok 4 x refl refl] t 4 by (auto simp: means_def Let_def)
  qed
qed

end
