(* ===== verification/K_Format.thy ===== *)
theory K_Format
  imports K_Convert
begin

text \<open>
  The scanner of formats, \<open>literal\<close> and \<open>directive\<close>, on the text of a format, and the theorem on whole formats.
\<close>

unbundle bit_operations_syntax

section \<open>Directives\<close>

text \<open>The directive loop with the current character still in memory.\<close>

definition dirs where
  "dirs m a flags width prec ap = directive m (a + 1) (m a) flags width prec ap"

lemma dirs_again:
  assumes "c_string m a (x # y # ys)" "dir_next x flags w p ap = Some (Again flags' w' p' ap')"
  shows "dirs m a flags w p ap = dirs m (a + 1) flags' w' p' ap'"
  using assms unfolding dirs_def by (subst directive.simps) simp

lemma dirs_done:
  assumes "m a = x" "dir_next x flags w p ap = Some (Done c)"
  shows "dirs m a flags w p ap = Some (Some (c, flags, w, p, a + 1, ap))"
  using assms unfolding dirs_def by (subst directive.simps) simp

text \<open>An optional flag character.\<close>

lemma dirs_flag:
  assumes "c_string m a ((if b then [x] else []) @ y # ys)" "flags < FL_ASTERISK"
    and "(x, g) \<in> {(ch CHR ''0'', FL_ZFILL), (ch CHR ''+'', FL_PLUS OR FL_SPACE), (ch CHR '' '', FL_SPACE), (ch CHR ''-'', FL_LPAD), (ch CHR ''#'', FL_ALT)}"
  shows "dirs m a flags w p ap = dirs m (a + (if b then 1 else 0)) (if b then flags OR g else flags) w p ap"
proof (cases b)
  case True
  have "dir_next x flags w p ap = Some (Again (flags OR g) w p ap)"
    using assms(2,3) by (auto simp: dir_next_def or.assoc)
  then show ?thesis using assms(1) True dirs_again [of m a x y ys] by simp
qed simp

definition low_flags :: "u16 \<Rightarrow> nat \<Rightarrow> bool" where
  "low_flags flags k \<longleftrightarrow> (\<forall>n. k \<le> n \<longrightarrow> \<not> bit flags n)"

lemma less_by_bits: "k < 16 \<Longrightarrow> flags < 2 ^ k \<longleftrightarrow> low_flags flags k" for flags :: u16
proof -
  assume k: "k < 16"
  then have "(2 :: nat) ^ k < 2 ^ 16" by (intro power_strict_increasing) auto
  then have "unat (2 ^ k :: u16) = 2 ^ k" using unat_of_nat_small [of "2 ^ k", where 'a = 16] by simp
  then have "flags < 2 ^ k \<longleftrightarrow> unat flags < 2 ^ k" by (simp only: word_less_nat_alt)
  also have "\<dots> \<longleftrightarrow> unat flags div 2 ^ k = 0" by (simp add: div_eq_0_iff)
  also have "\<dots> \<longleftrightarrow> drop_bit k flags = 0" by (simp flip: unat_drop_bit unat_eq_zero)
  also have "\<dots> \<longleftrightarrow> (\<forall>n. \<not> bit flags (k + n))" 
  proof -
    have "n < 16" if "bit flags (k + n)" for n using bit_imp_le_length [OF that] by simp
    then show ?thesis by (auto simp: bit_eq_iff bit_simps)
  qed
  also have "\<dots> \<longleftrightarrow> low_flags flags k" unfolding low_flags_def by (metis le_Suc_ex le_add1)
  finally show ?thesis .
qed

lemma flag_limits: "flags < FL_ASTERISK \<longleftrightarrow> low_flags flags 6" "flags < FL_LONG \<longleftrightarrow> low_flags flags 9"
  using less_by_bits [of 6 flags] less_by_bits [of 9 flags] by (simp_all add: FL_defs)

lemma low_flags_simps [simp]:
  "low_flags (f OR g) k \<longleftrightarrow> low_flags f k \<and> low_flags g k" "low_flags 0 k"
  "low_flags FL_ZFILL k \<longleftrightarrow> 0 < k" "low_flags FL_PLUS k \<longleftrightarrow> 1 < k" "low_flags FL_SPACE k \<longleftrightarrow> 2 < k" "low_flags FL_LPAD k \<longleftrightarrow> 3 < k"
  "low_flags FL_ALT k \<longleftrightarrow> 4 < k" "low_flags FL_WIDTH k \<longleftrightarrow> 7 < k" "low_flags FL_PREC k \<longleftrightarrow> 8 < k"
proof -
  have p: "(\<forall>n \<ge> k. n \<noteq> j) \<longleftrightarrow> j < k" for j k :: nat by (auto simp: not_le [symmetric])
  show "low_flags (f OR g) k \<longleftrightarrow> low_flags f k \<and> low_flags g k" "low_flags 0 k"
    by (auto simp: low_flags_def bit_simps)
  show "low_flags FL_ZFILL k \<longleftrightarrow> 0 < k" "low_flags FL_PLUS k \<longleftrightarrow> 1 < k" "low_flags FL_SPACE k \<longleftrightarrow> 2 < k" "low_flags FL_LPAD k \<longleftrightarrow> 3 < k"
    "low_flags FL_ALT k \<longleftrightarrow> 4 < k" "low_flags FL_WIDTH k \<longleftrightarrow> 7 < k" "low_flags FL_PREC k \<longleftrightarrow> 8 < k"
    by (simp_all only: low_flags_def bit_flag p)
qed

lemma low_flags_mono: "low_flags f k \<Longrightarrow> k \<le> l \<Longrightarrow> low_flags f l"
  by (simp add: low_flags_def)

lemma low_flagsD: "low_flags f k \<Longrightarrow> bit f n \<Longrightarrow> n < k"
  by (auto simp: low_flags_def not_le [symmetric])

lemma digit_char_10:
  assumes "d < 10"
  shows "digit_char False d \<ge> ch CHR ''0''" "digit_char False d \<le> ch CHR ''9''" "digit_char False d - ch CHR ''0'' = word_of_nat d"
    "digit_char False d \<noteq> 0" "digit_char False d \<notin> ch ` {CHR ''+'', CHR '' '', CHR ''-'', CHR ''#''}" "digit_char False d = ch CHR ''0'' \<longleftrightarrow> d = 0"
proof -
  have d: "d \<in> {0, 1, 2, 3, 4, 5, 6, 7, 8, 9}" using assms by (simp, presburger)
  show "digit_char False d \<ge> ch CHR ''0''" "digit_char False d \<le> ch CHR ''9''" "digit_char False d - ch CHR ''0'' = word_of_nat d"
    "digit_char False d \<noteq> 0" "digit_char False d \<notin> ch ` {CHR ''+'', CHR '' '', CHR ''-'', CHR ''#''}" "digit_char False d = ch CHR ''0'' \<longleftrightarrow> d = 0"
    using d by (elim insertE emptyE; simp add: digit_char_def)+
qed

lemma next_digit:
  assumes d: "d < 10" and f: "low_flags flags 9" "low_flags flags 6 \<longrightarrow> d \<noteq> 0"
  shows "dir_next (digit_char False d) flags w p ap =
    Some (if bit flags 8 then Again flags w (10 * p + word_of_nat d) ap else Again (flags OR FL_WIDTH) (10 * w + word_of_nat d) p ap)"
proof -
  have "ucast (word_of_nat d :: u8) = (word_of_nat d :: i32)" using d by (simp add: ucast_eq_of_nat unat_of_nat_small)
  then show ?thesis using digit_char_10 [OF d] f by (auto simp: dir_next_def flag_limits dir_number_def Let_def)
qed

fun read_digits :: "i32 \<Rightarrow> nat list \<Rightarrow> i32" where
  "read_digits w [] = w"
| "read_digits w (d # ds) = read_digits (10 * w + word_of_nat d) ds"

lemma dirs_width:
  assumes "c_string m a (map (digit_char False) ds @ y # ys)" "\<forall>d \<in> set ds. d < 10" "low_flags flags 8" "bit flags 7"
  shows "dirs m a flags w p ap = dirs m (a + word_of_nat (length ds)) flags (read_digits w ds) p ap"
  using assms
proof (induction ds arbitrary: a w)
  case (Cons d ds)
  have "low_flags flags 9" "\<not> low_flags flags 6" "\<not> bit flags 8" using Cons.prems(3,4) low_flags_mono low_flagsD [of flags 6 7] low_flagsD [of flags 8 8] by auto
  moreover have "flags OR FL_WIDTH = flags" using Cons.prems(4) by (intro bit_word_eqI) (auto simp: bit_simps)
  ultimately have n: "dir_next (digit_char False d) flags w p ap = Some (Again flags (10 * w + word_of_nat d) p ap)"
    using next_digit [of d flags] Cons.prems(2) by simp
  obtain z zs where z: "map (digit_char False) ds @ y # ys = z # zs" by (cases "map (digit_char False) ds @ y # ys") auto
  then have "dirs m a flags w p ap = dirs m (a + 1) flags (10 * w + word_of_nat d) p ap"
    using dirs_again [OF _ n, of m a z zs] Cons.prems(1) by simp
  also have "\<dots> = dirs m (a + 1 + word_of_nat (length ds)) flags (read_digits (10 * w + word_of_nat d) ds) p ap"
    using Cons.prems by (intro Cons.IH) auto
  finally show ?case by (simp add: add.assoc)
qed simp

lemma dirs_prec:
  assumes "c_string m a (map (digit_char False) ds @ y # ys)" "\<forall>d \<in> set ds. d < 10" "low_flags flags 9" "bit flags 8"
  shows "dirs m a flags w p ap = dirs m (a + word_of_nat (length ds)) flags w (read_digits p ds) ap"
  using assms
proof (induction ds arbitrary: a p)
  case (Cons d ds)
  have "\<not> low_flags flags 6" using Cons.prems(4) low_flagsD [of flags 6 8] by auto
  then have n: "dir_next (digit_char False d) flags w p ap = Some (Again flags w (10 * p + word_of_nat d) ap)"
    using next_digit [of d flags] Cons.prems(2-4) by simp
  obtain z zs where z: "map (digit_char False) ds @ y # ys = z # zs" by (cases "map (digit_char False) ds @ y # ys") auto
  then have "dirs m a flags w p ap = dirs m (a + 1) flags w (10 * p + word_of_nat d) ap"
    using dirs_again [OF _ n, of m a z zs] Cons.prems(1) by simp
  also have "\<dots> = dirs m (a + 1 + word_of_nat (length ds)) flags w (read_digits (10 * p + word_of_nat d) ds) ap"
    using Cons.prems by (intro Cons.IH) auto
  finally show ?case by (simp add: add.assoc)
qed simp

lemma read_digits_append: "read_digits w (ds @ [d]) = 10 * read_digits w ds + word_of_nat d"
  by (induction w ds rule: read_digits.induct) simp_all

lemma read_dec: "read_digits 0 (rev (ndigits 10 n)) = word_of_nat n"
proof (induction "10 :: nat" n rule: ndigits.induct)
  case (1 n)
  show ?case
  proof (cases "n < 10")
    case False
    have "read_digits 0 (rev (ndigits 10 n)) = 10 * word_of_nat (n div 10) + word_of_nat (n mod 10)"
      using 1 False by (subst ndigits.simps) (simp add: read_digits_append)
    also have "\<dots> = word_of_nat (10 * (n div 10) + n mod 10)" by (simp only: of_nat_add of_nat_mult of_nat_numeral)
    finally show ?thesis by simp
  qed (subst ndigits.simps, simp)
qed


lemma c_string_drop: "c_string m a (xs @ ys) \<Longrightarrow> c_string m (a + word_of_nat (length xs)) ys"
  by (induction xs arbitrary: a) (auto simp: add.assoc [symmetric])

lemma parse_flags:
  assumes "c_string m a (flag_text sp @ y # ys)"
  obtains f where "dirs m a 0 0 0 ap = dirs m (a + word_of_nat (length (flag_text sp))) f 0 0 ap" "low_flags f 5"
    "bit f 0 = s_zero sp" "bit f 1 = s_plus sp" "bit f 2 = (s_plus sp \<or> s_space sp)" "bit f 3 = s_left sp" "bit f 4 = s_alt sp"
proof -
  let ?o = "\<lambda>b (x :: u8). if b then [x] else []"
  let ?f1 = "if s_zero sp then 0 OR FL_ZFILL else 0" 
  let ?f2 = "if s_plus sp then ?f1 OR (FL_PLUS OR FL_SPACE) else ?f1"
  let ?f3 = "if s_space sp then ?f2 OR FL_SPACE else ?f2"
  let ?f4 = "if s_left sp then ?f3 OR FL_LPAD else ?f3"
  let ?f5 = "if s_alt sp then ?f4 OR FL_ALT else ?f4"
  let ?a = "\<lambda>a b. a + (if b then 1 else 0) :: u64"
  have step: "dirs m b f 0 0 ap = dirs m (?a b q) (if q then f OR g else f) 0 0 ap \<and> c_string m (?a b q) (zs @ y # ys)"
    if "c_string m b (?o q x @ zs @ y # ys)" "low_flags f 6"
      "(x, g) \<in> {(ch CHR ''0'', FL_ZFILL), (ch CHR ''+'', FL_PLUS OR FL_SPACE), (ch CHR '' '', FL_SPACE), (ch CHR ''-'', FL_LPAD), (ch CHR ''#'', FL_ALT)}"
    for b f q x g zs
  proof -
    obtain z zs' where z: "zs @ y # ys = z # zs'" by (cases "zs @ y # ys") auto
    show ?thesis
      using dirs_flag [of m b q x z zs' f g 0 0 ap] that c_string_drop [of m b "?o q x" "zs @ y # ys"] z by (auto simp: flag_limits)
  qed
  have l: "low_flags ?f1 6" "low_flags ?f2 6" "low_flags ?f3 6" "low_flags ?f4 6" by simp_all
  have 1: "dirs m a 0 0 0 ap = dirs m (?a a (s_zero sp)) ?f1 0 0 ap \<and>
      c_string m (?a a (s_zero sp)) ((?o (s_plus sp) (ch CHR ''+'') @ ?o (s_space sp) (ch CHR '' '') @ ?o (s_left sp) (ch CHR ''-'') @ ?o (s_alt sp) (ch CHR ''#'')) @ y # ys)"
    by (rule step [where x = "ch CHR ''0''"]) (use assms in \<open>simp_all add: flag_text_def\<close>)
  let ?a1 = "?a a (s_zero sp)"
  have 2: "dirs m ?a1 ?f1 0 0 ap = dirs m (?a ?a1 (s_plus sp)) ?f2 0 0 ap \<and>
      c_string m (?a ?a1 (s_plus sp)) ((?o (s_space sp) (ch CHR '' '') @ ?o (s_left sp) (ch CHR ''-'') @ ?o (s_alt sp) (ch CHR ''#'')) @ y # ys)"
    by (rule step [where x = "ch CHR ''+''"]) (use 1 l in simp_all)
  let ?a2 = "?a ?a1 (s_plus sp)"
  have 3: "dirs m ?a2 ?f2 0 0 ap = dirs m (?a ?a2 (s_space sp)) ?f3 0 0 ap \<and>
      c_string m (?a ?a2 (s_space sp)) ((?o (s_left sp) (ch CHR ''-'') @ ?o (s_alt sp) (ch CHR ''#'')) @ y # ys)"
    by (rule step [where x = "ch CHR '' ''"]) (use 2 l in simp_all)
  let ?a3 = "?a ?a2 (s_space sp)"
  have 4: "dirs m ?a3 ?f3 0 0 ap = dirs m (?a ?a3 (s_left sp)) ?f4 0 0 ap \<and>
      c_string m (?a ?a3 (s_left sp)) (?o (s_alt sp) (ch CHR ''#'') @ y # ys)"
    by (rule step [where x = "ch CHR ''-''"]) (use 3 l in simp_all)
  let ?a4 = "?a ?a3 (s_left sp)"
  have 5: "dirs m ?a4 ?f4 0 0 ap = dirs m (?a ?a4 (s_alt sp)) ?f5 0 0 ap \<and> c_string m (?a ?a4 (s_alt sp)) ([] @ y # ys)"
    by (rule step [where x = "ch CHR ''#''"]) (use 4 l in simp_all)
  have "?a ?a4 (s_alt sp) = a + word_of_nat (length (flag_text sp))" by (simp add: flag_text_def add.assoc)
  then have "dirs m a 0 0 0 ap = dirs m (a + word_of_nat (length (flag_text sp))) ?f5 0 0 ap"
    using 1 2 3 4 5 by (simp only:)
  moreover have "low_flags ?f5 5" by simp
  moreover have "bit ?f5 0 = s_zero sp" "bit ?f5 1 = s_plus sp" "bit ?f5 2 = (s_plus sp \<or> s_space sp)" "bit ?f5 3 = s_left sp" "bit ?f5 4 = s_alt sp"
    by (simp_all add: bit_simps)
  ultimately show thesis by (rule that)
qed


lemma parse_width:
  assumes cs: "c_string m a (width_text sp @ y # ys)" and f: "low_flags f 5"
  shows "dirs m a f 0 p ap = dirs m (a + word_of_nat (length (width_text sp)))
    (if s_width sp = 0 then f else f OR FL_WIDTH) (word_of_nat (s_width sp)) p ap"
proof (cases "s_width sp = 0")
  case False
  obtain d ds where ds: "rev (ndigits 10 (s_width sp)) = d # ds" by (cases "rev (ndigits 10 (s_width sp))") auto
  then have "last (ndigits 10 (s_width sp)) = d" by (metis hd_rev list.sel(1))
  then have d: "d \<noteq> 0" using ndigits_last [of 10 "s_width sp"] False by simp
  have "set (d # ds) = set (ndigits 10 (s_width sp))" by (simp flip: ds)
  then have r: "d < 10" "\<forall>d \<in> set ds. d < 10" using ndigits_range [of 10 "s_width sp"] by auto
  have t: "width_text sp = digit_char False d # map (digit_char False) ds" using False ds by (simp add: width_text_def dec_text_def)
  have n8: "\<not> bit f 8" using f low_flagsD by fastforce
  have nx: "dir_next (digit_char False d) f 0 p ap = Some (Again (f OR FL_WIDTH) (word_of_nat d) p ap)"
    using next_digit [OF r(1), of f 0 p ap] d f n8 by (simp add: low_flags_mono)
  obtain z zs where z: "map (digit_char False) ds @ y # ys = z # zs" by (cases "map (digit_char False) ds @ y # ys") auto
  then have "dirs m a f 0 p ap = dirs m (a + 1) (f OR FL_WIDTH) (word_of_nat d) p ap"
    using dirs_again [OF _ nx, of m a z zs] cs t by simp
  also have "\<dots> = dirs m (a + 1 + word_of_nat (length ds)) (f OR FL_WIDTH) (read_digits (word_of_nat d) ds) p ap"
    using cs t r(2) f by (intro dirs_width) (auto simp: bit_simps low_flags_mono)
  also have "read_digits (word_of_nat d) ds = word_of_nat (s_width sp)" using read_dec [of "s_width sp"] by (simp add: ds)
  finally show ?thesis using t False by (simp add: add.assoc)
qed (simp add: width_text_def)

lemma parse_prec:
  assumes cs: "c_string m a (prec_text sp @ y # ys)" and f: "low_flags f 8"
  shows "dirs m a f w 0 ap = dirs m (a + word_of_nat (length (prec_text sp)))
    (if s_prec sp = None then f else f OR FL_PREC) w (word_of_nat (min_digits sp)) ap"
proof (cases "s_prec sp")
  case (Some p)
  have t: "prec_text sp = ch CHR ''.'' # map (digit_char False) (rev (ndigits 10 p))" using Some by (simp add: prec_text_def dec_text_def)
  have n8: "\<not> bit f 8" using f low_flagsD by fastforce
  have nx: "dir_next (ch CHR ''.'') f w 0 ap = Some (Again (f OR FL_PREC) w 0 ap)"
    using f n8 by (simp add: dir_next_def flag_limits low_flags_mono)
  obtain z zs where z: "map (digit_char False) (rev (ndigits 10 p)) @ y # ys = z # zs" by (cases "map (digit_char False) (rev (ndigits 10 p)) @ y # ys") auto
  then have "dirs m a f w 0 ap = dirs m (a + 1) (f OR FL_PREC) w 0 ap"
    using dirs_again [OF _ nx, of m a z zs] cs t by simp
  also have "\<dots> = dirs m (a + 1 + word_of_nat (length (rev (ndigits 10 p)))) (f OR FL_PREC) w (read_digits 0 (rev (ndigits 10 p))) ap"
    using cs t f ndigits_range [of 10 p] by (intro dirs_prec) (auto simp: bit_simps low_flags_mono)
  finally show ?thesis using t Some by (simp add: add.assoc read_dec min_digits_def)
qed (simp add: prec_text_def min_digits_def)

lemma dirs_size:
  assumes "c_string m a (x # y # ys)"
  shows "x = ch CHR ''h'' \<Longrightarrow> dirs m a f w p ap = dirs m (a + 1) (((if bit f 10 then f OR FL_REPD_TYPE else f) OR FL_SHORT) AND NOT FL_LONG) w p ap"
    "x \<in> {ch CHR ''l'', ch CHR ''z'', ch CHR ''t''} \<Longrightarrow>
      dirs m a f w p ap = dirs m (a + 1) (((if bit f 9 then f OR FL_REPD_TYPE else f) OR FL_LONG) AND NOT FL_SHORT) w p ap"
    "x = ch CHR ''j'' \<Longrightarrow> dirs m a f w p ap = dirs m (a + 1) ((f OR FL_REPD_TYPE OR FL_LONG) AND NOT FL_SHORT) w p ap"
proof -
  have "dir_next x f w p ap = Some (dir_size x f w p ap)" if "x \<in> {ch CHR ''h'', ch CHR ''l'', ch CHR ''z'', ch CHR ''t'', ch CHR ''j''}"
    using that by (elim insertE emptyE; simp add: dir_next_def)
  note n = this dirs_again [OF assms]
  show "x = ch CHR ''h'' \<Longrightarrow> dirs m a f w p ap = dirs m (a + 1) (((if bit f 10 then f OR FL_REPD_TYPE else f) OR FL_SHORT) AND NOT FL_LONG) w p ap"
    by (rule n(2)) (use n(1) in \<open>simp add: dir_size_def Let_def\<close>)
  show "x = ch CHR ''j'' \<Longrightarrow> dirs m a f w p ap = dirs m (a + 1) ((f OR FL_REPD_TYPE OR FL_LONG) AND NOT FL_SHORT) w p ap"
    by (rule n(2)) (use n(1) in \<open>simp add: dir_size_def Let_def\<close>)
  assume "x \<in> {ch CHR ''l'', ch CHR ''z'', ch CHR ''t''}"
  then show "dirs m a f w p ap = dirs m (a + 1) (((if bit f 9 then f OR FL_REPD_TYPE else f) OR FL_LONG) AND NOT FL_SHORT) w p ap"
    by (intro n(2)) (elim insertE emptyE; use n(1) in \<open>simp add: dir_size_def Let_def\<close>)
qed

lemma parse_lmod:
  assumes cs: "c_string m a (lmod_text lm @ y # ys)" and f: "low_flags f 9"
  obtains f' where "dirs m a f w p ap = dirs m (a + word_of_nat (length (lmod_text lm))) f' w p ap"
    "lmod_flags f' lm" "low_flags f' 12" "\<And>k. k < 9 \<Longrightarrow> bit f' k = bit f k"
proof -
  have n: "\<not> bit f k" if "9 \<le> k" for k using f that by (simp add: low_flags_def)
  let ?h = "(f OR FL_SHORT) AND NOT FL_LONG" and ?l = "(f OR FL_LONG) AND NOT FL_SHORT"
  have n': "\<not> bit f 9" "\<not> bit f 10" "bit ?h 10" "bit ?l 9" using n by (simp_all add: bit_simps)
  note bits = lmod_flags_def low_flags_def bit_simps
  show thesis
  proof (cases lm)
    case LM_none
    then show ?thesis using that [of f] n by (simp add: lmod_text_def bits)
  next
    case LM_h
    then have "dirs m a f w p ap = dirs m (a + 1) ?h w p ap" using cs dirs_size(1) [of m a _ y ys f] n' by (simp add: lmod_text_def)
    then show ?thesis using that [of ?h] n LM_h by (auto simp: lmod_text_def bits)
  next
    case LM_hh
    then have "dirs m a f w p ap = dirs m (a + 1 + 1) (((?h OR FL_REPD_TYPE) OR FL_SHORT) AND NOT FL_LONG) w p ap"
      using cs dirs_size(1) [of m a _ _ "y # ys" f] dirs_size(1) [of m "a + 1" _ y ys ?h] n' by (simp add: lmod_text_def)
    then show ?thesis using that [of "((?h OR FL_REPD_TYPE) OR FL_SHORT) AND NOT FL_LONG"] n LM_hh by (auto simp: lmod_text_def bits add.commute)
  next
    case LM_ll
    then have "dirs m a f w p ap = dirs m (a + 1 + 1) (((?l OR FL_REPD_TYPE) OR FL_LONG) AND NOT FL_SHORT) w p ap"
      using cs dirs_size(2) [of m a _ _ "y # ys" f] dirs_size(2) [of m "a + 1" _ y ys ?l] n' by (simp add: lmod_text_def)
    then show ?thesis using that [of "((?l OR FL_REPD_TYPE) OR FL_LONG) AND NOT FL_SHORT"] n LM_ll by (auto simp: lmod_text_def bits add.commute)
  next
    case LM_j
    then have "dirs m a f w p ap = dirs m (a + 1) ((f OR FL_REPD_TYPE OR FL_LONG) AND NOT FL_SHORT) w p ap"
      using cs dirs_size(3) [of m a _ y ys f] by (simp add: lmod_text_def)
    then show ?thesis using that [of "(f OR FL_REPD_TYPE OR FL_LONG) AND NOT FL_SHORT"] n LM_j by (auto simp: lmod_text_def bits)
  next
    case LM_l
    then have "dirs m a f w p ap = dirs m (a + 1) ?l w p ap" using cs dirs_size(2) [of m a _ y ys f] n' by (simp add: lmod_text_def)
    then show ?thesis using that [of ?l] n LM_l by (auto simp: lmod_text_def bits)
  next
    case LM_z
    then have "dirs m a f w p ap = dirs m (a + 1) ?l w p ap" using cs dirs_size(2) [of m a _ y ys f] n' by (simp add: lmod_text_def)
    then show ?thesis using that [of ?l] n LM_z by (auto simp: lmod_text_def bits)
  next
    case LM_t
    then have "dirs m a f w p ap = dirs m (a + 1) ?l w p ap" using cs dirs_size(2) [of m a _ y ys f] n' by (simp add: lmod_text_def)
    then show ?thesis using that [of ?l] n LM_t by (auto simp: lmod_text_def bits)
  qed
qed


lemma conv_letter_done: "dir_next (conv_letter c) f w p ap = Some (Done (conv_letter c))"
  by (cases c) (simp_all add: dir_next_def dir_size_def conv_letter_def)

lemma parse_spec:
  assumes cs: "c_string m a (flag_text sp @ width_text sp @ prec_text sp @ lmod_text lm @ conv_letter c # rest)"
    and n: "n = length (flag_text sp @ width_text sp @ prec_text sp @ lmod_text lm)"
  obtains flags where "dirs m a 0 0 0 ap =
      Some (Some (conv_letter c, flags, word_of_nat (s_width sp), word_of_nat (min_digits sp), a + word_of_nat (Suc n), ap))"
    "flags_are flags sp" "lmod_flags flags lm" "\<not> bit flags 13" "\<not> bit flags 14"
proof -
  let ?fl = "flag_text sp" and ?w = "width_text sp" and ?p = "prec_text sp" and ?l = "lmod_text lm" and ?c = "conv_letter c # rest"
  let ?a1 = "a + word_of_nat (length ?fl)"
  let ?a2 = "?a1 + word_of_nat (length ?w)"
  let ?a3 = "?a2 + word_of_nat (length ?p)"
  let ?a4 = "?a3 + word_of_nat (length ?l)"
  have c1: "c_string m ?a1 (?w @ ?p @ ?l @ ?c)" using c_string_drop cs by blast
  then have c2: "c_string m ?a2 (?p @ ?l @ ?c)" using c_string_drop by blast
  then have c3: "c_string m ?a3 (?l @ ?c)" using c_string_drop by blast
  then have c4: "c_string m ?a4 ?c" using c_string_drop by blast
  have split: "\<exists>y ys. xs @ ?c = y # ys" for xs by (cases "xs @ ?c") auto
  obtain f where f: "dirs m a 0 0 0 ap = dirs m ?a1 f 0 0 ap" "low_flags f 5"
    "bit f 0 = s_zero sp" "bit f 1 = s_plus sp" "bit f 2 = (s_plus sp \<or> s_space sp)" "bit f 3 = s_left sp" "bit f 4 = s_alt sp"
    using parse_flags cs split [of "?w @ ?p @ ?l"] by (metis append.assoc)
  let ?f2 = "if s_width sp = 0 then f else f OR FL_WIDTH"
  have 2: "dirs m ?a1 f 0 0 ap = dirs m ?a2 ?f2 (word_of_nat (s_width sp)) 0 ap"
    using parse_width [OF _ f(2)] c1 split [of "?p @ ?l"] by (metis append.assoc)
  have l2: "low_flags ?f2 8" using f(2) by (simp add: low_flags_mono)
  let ?f3 = "if s_prec sp = None then ?f2 else ?f2 OR FL_PREC"
  have 3: "dirs m ?a2 ?f2 (word_of_nat (s_width sp)) 0 ap = dirs m ?a3 ?f3 (word_of_nat (s_width sp)) (word_of_nat (min_digits sp)) ap"
    using parse_prec [OF _ l2] c2 split [of ?l] by metis
  have l3: "low_flags ?f3 9" using l2 by (simp add: low_flags_mono)
  obtain f4 where 4: "dirs m ?a3 ?f3 (word_of_nat (s_width sp)) (word_of_nat (min_digits sp)) ap =
      dirs m ?a4 f4 (word_of_nat (s_width sp)) (word_of_nat (min_digits sp)) ap"
    and f4: "lmod_flags f4 lm" "low_flags f4 12" "\<And>k. k < 9 \<Longrightarrow> bit f4 k = bit ?f3 k"
    using parse_lmod [OF c3 l3] by blast
  have "dirs m ?a4 f4 (word_of_nat (s_width sp)) (word_of_nat (min_digits sp)) ap =
    Some (Some (conv_letter c, f4, word_of_nat (s_width sp), word_of_nat (min_digits sp), ?a4 + 1, ap))"
    using c4 by (intro dirs_done [OF _ conv_letter_done]) simp
  moreover have "?a4 + 1 = a + word_of_nat (Suc n)" by (simp add: n add.assoc)
  ultimately have "dirs m a 0 0 0 ap =
      Some (Some (conv_letter c, f4, word_of_nat (s_width sp), word_of_nat (min_digits sp), a + word_of_nat (Suc n), ap))"
    by (simp only: f(1) 2 3 4)
  moreover have "\<not> bit ?f3 8 \<longleftrightarrow> s_prec sp = None" using l2 low_flagsD [of ?f2 8 8] by (auto simp: bit_simps)
  then have "flags_are f4 sp" using f4(3) f(3-7) by (auto simp: flags_are_def bit_simps)
  moreover have "\<not> bit f4 13" "\<not> bit f4 14" using f4(2) by (simp_all add: low_flags_def)
  ultimately show thesis using that f4(1) by blast
qed


section \<open>Whole formats\<close>

text \<open>
  The text that a format prints for its arguments.  The letter V must not follow \<^verbatim>\<open>%p\<close>: \<^verbatim>\<open>%pV\<close> is a
  directive of its own.
\<close>

inductive prints :: "bmem \<Rightarrow> chunk list \<Rightarrow> u64 list \<Rightarrow> u8 list \<Rightarrow> bool" for m where
  nil: "prints m [] ws []"
| lit: "c \<noteq> 0 \<Longrightarrow> c \<noteq> ch CHR ''%'' \<Longrightarrow> prints m cs ws t \<Longrightarrow> prints m (Lit c # cs) ws (c # t)"
| pct: "prints m cs ws t \<Longrightarrow> prints m (Percent # cs) ws (ch CHR ''%'' # t)"
| conv: "conv_ok sp lm c w \<Longrightarrow> means m sp lm c w u \<Longrightarrow> c = C_p \<longrightarrow> take 1 cs \<noteq> [Lit (ch CHR ''V'')] \<Longrightarrow>
    prints m cs ws t \<Longrightarrow> prints m (Conv sp lm c # cs) (w # ws) (u @ t)"

definition format_text :: "chunk list \<Rightarrow> u8 list" where
  "format_text cs = concat (map chunk_text cs)"

lemma format_text_simps [simp]: "format_text [] = []" "format_text (c # cs) = chunk_text c @ format_text cs"
  by (simp_all add: format_text_def)

lemma vprintf_char:
  assumes "m a = c" "c \<noteq> 0" "c \<noteq> ch CHR ''%''"
  shows "k_vprintf engine m a ap out = k_vprintf engine m (a + 1) ap (out @ sent1 c)"
proof -
  have "literal m a out = literal m (a + 1) (out @ sent1 c)"
    using assms by (subst literal.simps) (simp add: uart_putchar_sent)
  then show ?thesis by (subst (1 2) k_vprintf.simps) simp
qed

lemma vprintf_percent:
  assumes "m a = ch CHR ''%''" "m (a + 1) = ch CHR ''%''"
  shows "k_vprintf engine m a ap out = k_vprintf engine m (a + 2) ap (out @ sent1 (ch CHR ''%''))"
proof -
  have "literal m a out = literal m (a + 2) (out @ sent1 (ch CHR ''%''))"
    using assms by (subst literal.simps) (simp add: uart_putchar_sent add.commute [of a])
  then show ?thesis by (subst (1 2) k_vprintf.simps) simp
qed

lemma no_percent:
  "ch CHR ''%'' \<notin> set (flag_text sp @ width_text sp @ prec_text sp @ lmod_text lm @ [conv_letter c])"
proof -
  have "digit_char False d \<noteq> ch CHR ''%''" if "d < 10" for d using digit_char_10(1) [OF that] by auto
  then have "ch CHR ''%'' \<notin> set (dec_text n)" for n using ndigits_range [of 10 n] by (fastforce simp: dec_text_def)
  then have "ch CHR ''%'' \<notin> set (width_text sp)" "ch CHR ''%'' \<notin> set (prec_text sp)"
    by (auto simp: width_text_def prec_text_def split: option.splits)
  moreover have "ch CHR ''%'' \<notin> set (flag_text sp)" "ch CHR ''%'' \<notin> set (lmod_text lm)" "ch CHR ''%'' \<noteq> conv_letter c"
    by (auto simp: flag_text_def lmod_text_def conv_letter_def split: lmod.splits conv.splits)
  ultimately show ?thesis by simp
qed

lemma vprintf_conv:
  assumes ok: "conv_ok sp lm c w" "means m sp lm c w u" and cs: "c_string m a (chunk_text (Conv sp lm c) @ rest)"
    and V: "c = C_p \<longrightarrow> take 1 rest \<noteq> [ch CHR ''V'']"
  shows "k_vprintf engine m a (Word w # ap) out =
    k_vprintf engine m (a + word_of_nat (length (chunk_text (Conv sp lm c)))) ap (out @ sent u)"
proof -
  let ?t = "flag_text sp @ width_text sp @ prec_text sp @ lmod_text lm" and ?e = "a + word_of_nat (length (chunk_text (Conv sp lm c)))"
  have d: "m a = ch CHR ''%''" "c_string m (a + 1) (?t @ conv_letter c # rest)" using cs by simp_all
  obtain y ys where y: "?t @ conv_letter c # rest = y # ys" by (cases "?t @ conv_letter c # rest") auto
  have "y \<in> set (?t @ [conv_letter c])" using y by (cases ?t) (auto simp: Cons_eq_append_conv)
  then have "y \<noteq> ch CHR ''%''" using no_percent [of sp lm c] by auto
  then have lit: "literal m a out = Some (Some (m (a + 1), a + 1 + 1), out)"
    using d y by (subst literal.simps) simp
  obtain f where f: "dirs m (a + 1) 0 0 0 (Word w # ap) =
      Some (Some (conv_letter c, f, word_of_nat (s_width sp), word_of_nat (min_digits sp), a + 1 + word_of_nat (Suc (length ?t)), Word w # ap))"
    "flags_are f sp" "lmod_flags f lm" "\<not> bit f 13" "\<not> bit f 14"
    using parse_spec [of m "a + 1" sp lm c rest "length ?t" "Word w # ap"] d(2) by auto
  define e where "e = ?e"
  have e: "a + 1 + word_of_nat (Suc (length ?t)) = e" by (simp add: e_def add.assoc)
  have me: "m e = hd (rest @ [0])" using c_string_drop [OF cs] unfolding e_def by (cases rest) auto
  then have nV: "(c = C_p \<and> m e = ch CHR ''V'') = False" using V by (cases rest) auto
  let ?f = "if conv_letter c = ch CHR ''p'' then f AND NOT (FL_LONG OR FL_REPD_TYPE) OR (FL_LONG OR FL_REPD_TYPE) else f"
  have p: "conv_letter c = ch CHR ''p'' \<longleftrightarrow> c = C_p" by (cases c) (simp_all add: conv_letter_def)
  have "convert engine m (conv_letter c) ?f (word_of_nat (s_width sp)) (word_of_nat (min_digits sp)) (Word w # ap) out = Some (ap, out @ sent u)"
  proof (cases "c = C_p")
    case True
    show ?thesis
      by (rule convert_means [where lm = LM_l])
        (use True f(2,4,5) ok p in \<open>auto simp: flags_are_def lmod_flags_def bit_simps conv_ok_def means_def unsigned_value_def\<close>)
  next
    case False
    then show ?thesis using convert_means [OF f(2,4,5,3) ok] p by simp
  qed
  then show ?thesis
    using lit f(1) p unfolding dirs_def e e_def [symmetric]
    by (subst k_vprintf.simps) (simp only: Option.bind.simps prod.case option.case nV if_False Let_def)
qed


lemma vprintf_prints:
  "prints m cs ws t \<Longrightarrow> c_string m a (format_text cs) \<Longrightarrow>
    k_vprintf engine m a (map Word ws @ ap) out = Some (out @ sent t)"
proof (induction arbitrary: a out rule: prints.induct)
  case (nil ws)
  then show ?case by (subst k_vprintf.simps, subst literal.simps) simp
next
  case (lit c cs ws t)
  then show ?case using vprintf_char [of m a c] by simp
next
  case (pct cs ws t)
  have "c_string m (a + 2) (format_text cs)" using c_string_drop [of m a "chunk_text Percent" "format_text cs"] pct.prems by simp
  then show ?case using vprintf_percent [of m a] pct by simp
next
  case (conv sp lm c w u cs ws t)
  let ?e = "a + word_of_nat (length (chunk_text (Conv sp lm c)))"
  have cs: "c_string m a (chunk_text (Conv sp lm c) @ format_text cs)" using conv.prems by (simp only: format_text_simps)
  have V: "c = C_p \<longrightarrow> take 1 (format_text cs) \<noteq> [ch CHR ''V'']"
  proof
    assume "c = C_p"
    then have nV: "take 1 cs \<noteq> [Lit (ch CHR ''V'')]" using conv.hyps(3) by blast
    show "take 1 (format_text cs) \<noteq> [ch CHR ''V'']"
    proof (cases cs)
      case (Cons x xs)
      then show ?thesis using nV by (cases x) auto
    qed simp
  qed
  have "k_vprintf engine m a (map Word (w # ws) @ ap) out = k_vprintf engine m ?e (map Word ws @ ap) (out @ sent u)"
    using vprintf_conv [OF conv.hyps(1,2) cs V] by simp
  also have "\<dots> = Some ((out @ sent u) @ sent t)" by (rule conv.IH [OF c_string_drop [OF cs]])
  finally show ?case by simp
qed

text \<open>
  C28.  Formatted output is correct: on a format of plain characters, \<^verbatim>\<open>%%\<close> and integer, character, string and
  pointer conversions with any set of flags, written in the order \<^verbatim>\<open>0\<close>, \<^verbatim>\<open>+\<close>, blank, \<^verbatim>\<open>-\<close>, \<^verbatim>\<open>#\<close>, length
  modifiers, widths up to 255 and precisions up to
  253, and one argument for each conversion, \<^verbatim>\<open>kprintf\<close> returns and sends its prefix followed by the text
  that ISO C prescribes, a carriage return before each newline.  Left out is a zero printed with precision 0 as a
  pointer or in the alternate form of another base, and \<^verbatim>\<open>%lc\<close> and \<^verbatim>\<open>%ls\<close> are read as \<^verbatim>\<open>%c\<close> and \<^verbatim>\<open>%s\<close>: the kernel has no wide characters.
\<close>

theorem kprintf_correct:
  assumes "prints m cs ws t" "c_string m fmt (format_text cs)"
  shows "kprintf engine m fmt (map Word ws @ ap) out = Some (out @ sent (map ch ''[K] '' @ t))"
  using vprintf_prints [OF assms, of engine ap "print_prefix out"]
  by (simp add: kprintf_def print_prefix_def uart_putchar_sent)

abbreviation demo_format :: "chunk list" where
  "demo_format \<equiv> [Lit (ch CHR ''n''), Conv \<lparr>s_zero = False, s_plus = True, s_space = False, s_left = False, s_alt = False,
     s_width = 5, s_prec = Some 3\<rparr> LM_none C_d, Lit (ch CHR 0x0A)]"

abbreviation demo_mem :: bmem where
  "demo_mem \<equiv> (\<lambda>a. let s = map ch ''n%+5.3d'' @ [ch CHR 0x0A] in if unat a < length s then s ! unat a else 0)"

lemma ndigits_small: "n < b \<Longrightarrow> ndigits b n = [n]"
  by (subst ndigits.simps) simp

theorem kprintf_correct_witness:
  "\<forall>engine. kprintf engine demo_mem 0 [Word 0xffffffd6] [] = Some (map ch (''[K] n -042'' @ [CHR 0x0D, CHR 0x0A]))"
proof -
  let ?sp = "\<lparr>s_zero = False, s_plus = True, s_space = False, s_left = False, s_alt = False, s_width = 5, s_prec = Some 3\<rparr>"
  have nd: "ndigits 10 42 = [2, 4]" "ndigits 10 5 = [5]" "ndigits 10 3 = [3]"
    by (subst ndigits.simps, simp add: ndigits_small) (simp_all add: ndigits_small)
  have v: "signed_value LM_none 0xffffffd6 = - 42" by (simp add: signed_value_def)
  have "means demo_mem ?sp LM_none C_d 0xffffffd6 (map ch '' -042'')"
    by (simp add: means_def v number_text_def sign_chars_def digits_text_def min_digits_def nd zeros_def spaces_def digit_char_def)
  moreover have "conv_ok ?sp LM_none C_d 0xffffffd6" by (simp add: conv_ok_def small_spec_def min_digits_def)
  ultimately have "prints demo_mem demo_format [0xffffffd6] (ch CHR ''n'' # map ch '' -042'' @ [ch CHR 0x0A])"
    by (intro prints.intros) simp_all
  moreover have "c_string demo_mem 0 (format_text demo_format)"
    by (simp add: flag_text_def width_text_def prec_text_def lmod_text_def conv_letter_def dec_text_def nd digit_char_def Let_def)
  ultimately show ?thesis using kprintf_correct [of demo_mem demo_format "[0xffffffd6]" _ 0 _ "[]" "[]"] by (simp add: sent1_def)
qed


text \<open>
  C29.  The digits of every 64-bit number fit the buffer of 22 bytes in each base that is used, and read back as the
  number.
\<close>

definition digits_of :: "nat \<Rightarrow> bool \<Rightarrow> u64 \<Rightarrow> u8 list option \<Rightarrow> bool" where
  "digits_of b upper x buf \<longleftrightarrow> (\<exists>ds. buf = Some (map (digit_char upper) ds) \<and> 0 < length ds \<and> length ds \<le> 22 \<and>
     list_all (\<lambda>d. d < b) ds \<and> nvalue b ds = unat x)"

lemma digits_ofI:
  assumes "8 \<le> b"
  shows "digits_of b upper x (Some (map (digit_char upper) (ndigits b (unat x))))"
proof -
  have "unat x < 8 ^ Suc 21" using unat_u64_bound [of x] by simp
  also have "\<dots> \<le> b ^ Suc 21" using assms by (rule power_mono) simp
  finally have "length (ndigits b (unat x)) \<le> 22" using assms ndigits_length [of b "unat x" 21] by simp
  then show ?thesis using assms ndigits_range [of b "unat x"] ndigits_value [of b "unat x"]
    unfolding digits_of_def by (auto simp: list_all_iff)
qed

theorem ultoa_invert_fits:
  "digits_of 10 False x (ultoa_invert x 10) \<and> digits_of 8 False x (ultoa_invert x 8) \<and>
   digits_of 16 False x (ultoa_invert x 16) \<and> digits_of 16 True x (ultoa_invert x (16 OR XTOA_UPPER))"
  unfolding ultoa_invert_digits by (simp add: digits_ofI)

text \<open>
  C30.  Printing a number in a field returns exactly when the field is at most 255 characters wide, if it is padded with blanks
  on the left: the length is counted in a byte, which never reaches a larger width.
\<close>

lemma put_number_wide:
  assumes "number_length flags prec buf = Some (flags', len)" "\<not> bit flags' 3" "\<not> bit flags' 0" "255 <s width"
  shows "put_number flags width prec buf out = None"
  using assms by (simp add: put_number_def len_pad_wide)

lemma conv_signed_wide:
  assumes f: "\<not> bit flags 0" "\<not> bit flags 3" and w: "255 <s width"
  shows "conv_signed flags width prec ap out = None"
proof -
  have "put_number (g OR h) width prec buf out = None"
    if "g = flags AND NOT (FL_NEGATIVE OR FL_ALT)" "h = 0 \<or> h = FL_NEGATIVE" for g h buf
  proof (cases "number_length (g OR h) prec buf")
    case (Some r)
    obtain f' l where r: "r = (f', l)" by (cases r)
    have "f' = g OR h \<or> f' = (g OR h) AND NOT FL_ZFILL" using Some that unfolding r
      by (auto simp: number_length_def Let_def bit_simps split: if_splits)
    then have "\<not> bit f' 3" "\<not> bit f' 0" using f that by (auto simp: bit_simps)
    then show ?thesis using put_number_wide [OF Some [unfolded r]] w by simp
  qed (simp add: put_number_def)
  from this [OF refl, of 0] this [OF refl, of FL_NEGATIVE] show ?thesis
    by (auto simp: conv_signed_def Let_def split: bind_splits)
qed

theorem number_field_returns:
  assumes "flags_are flags sp" "lmod_flags flags lm" "\<not> s_left sp" "\<not> s_zero sp" "min_digits sp \<le> 253" "s_width sp < 2 ^ 31"
  shows "conv_signed flags (word_of_nat (s_width sp)) (word_of_nat (min_digits sp)) (Word w # ap) out \<noteq> None \<longleftrightarrow> s_width sp \<le> 255"
proof (cases "s_width sp \<le> 255")
  case True
  then show ?thesis using conv_signed_means [OF assms(1,2)] assms(5) by (simp add: small_spec_def)
next
  case False
  have "255 <s (word_of_nat (s_width sp) :: i32)" using False assms(6) by (simp add: sless_small unat_of_nat_small)
  then show ?thesis using False conv_signed_wide [of flags] assms(1,3,4) by (simp add: flags_are_def)
qed

theorem number_field_returns_witness:
  "conv_signed 0x80 300 0 [Word 7] [] = None \<and> conv_signed 0x80 30 0 [Word 7] [] \<noteq> None"
proof -
  let ?sp = "\<lambda>n. \<lparr>s_zero = False, s_plus = False, s_space = False, s_left = False, s_alt = False, s_width = n, s_prec = None\<rparr>"
  have "flags_are 0x80 (?sp n)" "lmod_flags 0x80 LM_none" for n by (simp_all add: flags_are_def lmod_flags_def)
  then show ?thesis using number_field_returns [where flags = "0x80" and sp = "?sp 300" and lm = LM_none and w = 7 and ap = "[]" and out = "[]"] number_field_returns [where flags = "0x80" and sp = "?sp 30" and lm = LM_none and w = 7 and ap = "[]" and out = "[]"]
    by (simp add: min_digits_def del: not_None_eq)
qed

text \<open>
  A format that ends in a lone percent sign takes an argument, sends the percent sign and a null byte, and goes on
  reading behind the end of the format.
\<close>

lemma lone_percent:
  assumes "m a = ch CHR ''%''" "m (a + 1) = 0"
  shows "k_vprintf engine m a (Word w # ap) out = k_vprintf engine m (a + 2) ap (out @ [ch CHR ''%'', 0])"
proof -
  have "literal m a out = Some (Some (0, a + 2), out)" using assms by (subst literal.simps) (simp add: add.commute [of a])
  moreover have "directive m (a + 2) 0 0 0 0 (Word w # ap) = Some (Some (0, 0, 0, 0, a + 2, Word w # ap))"
    by (subst directive.simps) (simp add: dir_next_def dir_size_def)
  moreover have "convert engine m 0 0 0 0 (Word w # ap) out = Some (ap, out @ [ch CHR ''%'', 0])"
    by (simp add: convert_def conv_unsigned_def arg_unsigned_def va_word_def number_base_def uart_putchar_sent sent1_def)
  ultimately show ?thesis by (subst k_vprintf.simps) simp
qed

end
