(* ===== verification/K_Setup.thy ===== *)
theory K_Setup
  imports K_Addrspace
begin

text \<open>
  The tables the kernel boots with, \<^verbatim>\<open>os/arch/arm64/setup.c\<close>.  The code runs at physical addresses, so
  descriptors hold the addresses of tables as they are.  Tables come from a static pool of pages
  with one byte for each page that says whether it is taken; pages are not cleared when they are
  handed out, only at the start.  The addresses of the static objects and the bounds of the boot image are
  symbols of the linker and parameters here.

  The mapping lemmas are those of the shared page-table code, by a second interpretation of its
  interface: for the identity instead of the kernel window, and for the pool instead of the
  granule heap.  The interpretation has a set of foreign pages that the mapping must leave alone as a parameter;
  with it the two tables are shown not to disturb each other.
\<close>

unbundle bit_operations_syntax

section \<open>The pool of early tables\<close>

definition EARLY_PGTABLE_NR_PAGES :: nat where "EARLY_PGTABLE_NR_PAGES = 1024"
definition EARLY_PGTABLE_MM_SIZE :: u64 where "EARLY_PGTABLE_MM_SIZE = PAGE_SIZE * word_of_nat EARLY_PGTABLE_NR_PAGES"

record early_mm =
  idmap_pt_mm :: "nat \<Rightarrow> u8"
  idmap_pt_space :: u64

type_synonym bpts = "early_mm pts"

definition early_pgtable_alloc :: "u64 \<Rightarrow> bpts \<Rightarrow> (u64 \<times> bpts) option" where
  "early_pgtable_alloc sz st =
     Some (case find (\<lambda>i. idmap_pt_mm (heap st) i = 0) [0..<EARLY_PGTABLE_NR_PAGES] of
             Some i \<Rightarrow> (idmap_pt_space (heap st) + word_of_nat i * PAGE_SIZE,
                        st\<lparr>heap := (heap st)\<lparr>idmap_pt_mm := (idmap_pt_mm (heap st))(i := 1)\<rparr>\<rparr>)
           | None \<Rightarrow> (0, st))"

definition idmap_pt_info :: "bpts \<Rightarrow> u64" where
  "idmap_pt_info st = fold (\<lambda>i free. if idmap_pt_mm (heap st) i = 0 then free + 1 else free) [0..<EARLY_PGTABLE_NR_PAGES] 0"

section \<open>Boot mappings\<close>

record boot_syms =
  identifymap_pt :: u64
  bootkernelmap_pt :: u64
  boot_physic_start :: u64
  boot_end :: u64

record boot_regs =
  b_mair :: u64
  b_tcr :: u64
  b_ttbr0 :: u64
  b_ttbr1 :: u64
  b_uart :: u64

definition RAM_SIZE :: u64 where "RAM_SIZE = 2 * 1024 * 1024 * 1024"
definition MMIO_PBASE :: u64 where "MMIO_PBASE = 0"
definition MMIO_VBASE :: u64 where "MMIO_VBASE = 0xffffff8f00000000"
definition MMIO_SIZE :: u64 where "MMIO_SIZE = 0x40000000"
definition UART_OFFSET :: u64 where "UART_OFFSET = 0x09000000"
definition UART_PBASE :: u64 where "UART_PBASE = MMIO_PBASE + UART_OFFSET"

definition kernel_normal_ram :: "mem_region list" where
  "kernel_normal_ram = [\<lparr>r_pbase = RAM_PBASE, r_vbase = RAM_VBASE, r_size = RAM_SIZE\<rparr>, \<lparr>r_pbase = 0, r_vbase = 0, r_size = 0\<rparr>]"

definition kernel_dev_ram :: "mem_region list" where
  "kernel_dev_ram = [\<lparr>r_pbase = MMIO_PBASE, r_vbase = MMIO_VBASE, r_size = MMIO_SIZE\<rparr>, \<lparr>r_pbase = 0, r_vbase = 0, r_size = 0\<rparr>]"

definition PAGE_KERNEL_EXEC :: u64 where "PAGE_KERNEL_EXEC = PROT_NORMAL AND NOT PTE_PXN"

definition SIZEOF_PAGE_TABLE :: u64 where "SIZEOF_PAGE_TABLE = 512 * 8"

definition boot_pt_init :: "boot_syms \<Rightarrow> bpts \<Rightarrow> bpts" where
  "boot_pt_init sy st =
     (let w = zero_words (words st) (identifymap_pt sy) SIZEOF_PAGE_TABLE;
          w = zero_words w (bootkernelmap_pt sy) SIZEOF_PAGE_TABLE;
          w = zero_words w (idmap_pt_space (heap st)) EARLY_PGTABLE_MM_SIZE
      in \<lparr>words = w, heap = (heap st)\<lparr>idmap_pt_mm := (\<lambda>i. if i < EARLY_PGTABLE_NR_PAGES then 0 else idmap_pt_mm (heap st) i)\<rparr>\<rparr>)"

definition boot_identify_mapping :: "boot_syms \<Rightarrow> bpts \<Rightarrow> bpts option" where
  "boot_identify_mapping sy st =
     (let vaddr = boot_physic_start sy;
          paddr = boot_physic_start sy;
          sz = ALIGN (boot_end sy - boot_physic_start sy) SECTION_SIZE
      in idmap_pt_map early_pgtable_alloc st (identifymap_pt sy) vaddr paddr sz PAGE_KERNEL_EXEC)"

definition boot_kernel_mapping :: "boot_syms \<Rightarrow> bpts \<times> boot_regs \<Rightarrow> (bpts \<times> boot_regs) option" where
  "boot_kernel_mapping sy = (\<lambda>(st, regs). do {
     let ram = hd kernel_normal_ram;
     st \<leftarrow> idmap_pt_map early_pgtable_alloc st (bootkernelmap_pt sy) (r_vbase ram) (r_pbase ram)
             (ALIGN (r_size ram) SECTION_SIZE) PAGE_KERNEL_EXEC;
     let dev = hd kernel_dev_ram;
     st \<leftarrow> idmap_pt_map early_pgtable_alloc st (bootkernelmap_pt sy) (r_vbase dev) (r_pbase dev)
             (ALIGN (r_size dev) SECTION_SIZE) PROT_SECT_DEVICE_nGnRE;
     Some (st, regs\<lparr>b_ttbr0 := identifymap_pt sy, b_ttbr1 := bootkernelmap_pt sy\<rparr>)
   })"

section \<open>Translation control\<close>

definition MAIR_ATTRIDX :: "u64 \<Rightarrow> nat \<Rightarrow> u64" where "MAIR_ATTRIDX attr idx = push_bit (idx * 8) attr"

definition MAIR_EL1_SET :: u64 where
  "MAIR_EL1_SET = MAIR_ATTRIDX 0x00 0 OR MAIR_ATTRIDX 0x04 1 OR MAIR_ATTRIDX 0x0c 2 OR MAIR_ATTRIDX 0x44 3 OR
     MAIR_ATTRIDX 0xff 4 OR MAIR_ATTRIDX 0xbb 5"

definition TCR_T0SZ :: "u64 \<Rightarrow> u64" where "TCR_T0SZ x = push_bit 0 (64 - x)"
definition TCR_T1SZ :: "u64 \<Rightarrow> u64" where "TCR_T1SZ x = push_bit 16 (64 - x)"
definition TCR_TG0_4K :: u64 where "TCR_TG0_4K = push_bit 14 0"
definition TCR_TG1_4K :: u64 where "TCR_TG1_4K = push_bit 30 2"
definition TCR_SH0_INNER :: u64 where "TCR_SH0_INNER = push_bit 12 3"
definition TCR_SH1_INNER :: u64 where "TCR_SH1_INNER = push_bit 28 3"
definition TCR_ORGN0_WBWA :: u64 where "TCR_ORGN0_WBWA = push_bit 10 1"
definition TCR_ORGN1_WBWA :: u64 where "TCR_ORGN1_WBWA = push_bit 26 1"
definition TCR_IRGN0_WBWA :: u64 where "TCR_IRGN0_WBWA = push_bit 8 1"
definition TCR_IRGN1_WBWA :: u64 where "TCR_IRGN1_WBWA = push_bit 24 1"
definition TCR_IPS_SHIFT :: nat where "TCR_IPS_SHIFT = 32"
definition ID_AA64MMFR0_PARANGE_SHIFT :: nat where "ID_AA64MMFR0_PARANGE_SHIFT = 0"

definition boot_tcr :: "u64 \<Rightarrow> u64" where
  "boot_tcr pa_range = push_bit TCR_IPS_SHIFT pa_range OR TCR_T0SZ (word_of_nat VA_BITS) OR TCR_T1SZ (word_of_nat VA_BITS) OR
     TCR_TG0_4K OR TCR_TG1_4K OR TCR_SH0_INNER OR TCR_SH1_INNER OR TCR_ORGN0_WBWA OR TCR_ORGN1_WBWA OR
     TCR_IRGN0_WBWA OR TCR_IRGN1_WBWA"

definition boot_setup_mmu :: "boot_syms \<Rightarrow> u64 \<Rightarrow> bpts \<times> boot_regs \<Rightarrow> (bpts \<times> boot_regs) option" where
  "boot_setup_mmu sy mmfr0 = (\<lambda>(st, regs). do {
     let regs = regs\<lparr>b_uart := UART_PBASE\<rparr>;
     let regs = regs\<lparr>b_mair := MAIR_EL1_SET\<rparr>;
     let pa_range = bitfield_get mmfr0 ID_AA64MMFR0_PARANGE_SHIFT 4;
     let regs = regs\<lparr>b_tcr := boot_tcr pa_range\<rparr>;
     let st = boot_pt_init sy st;
     st \<leftarrow> boot_identify_mapping sy st;
     boot_kernel_mapping sy (st, regs)
   })"

section \<open>The pool provides tables\<close>

definition bpage_ok :: "u64 \<Rightarrow> bool" where
  "bpage_ok q \<longleftrightarrow> page_aligned q \<and> q \<noteq> 0 \<and> unat q < 2 ^ 48"

interpretation bt: table_pages "\<lambda>x. x" "\<lambda>x. x" bpage_ok
proof
  fix q assume q: "bpage_ok q"
  then have al: "page_aligned q" and lt: "unat q < 2 ^ 48" by (simp_all add: bpage_ok_def)
  show "page_aligned q \<and> q \<noteq> 0" using q by (simp add: bpage_ok_def)
  have low: "q AND mask 12 = 0" using al by (simp add: page_aligned_and)
  have three: "(3 :: u64) AND mask 12 = 3" "(3 :: u64) AND NOT (mask 12) = 0" by (simp_all add: mask_eq_exp_minus_1)
  have "q AND NOT (mask 12) = q" by (intro bit_eqI) (auto simp: bit_simps dest: page_bits [OF al])
  then show "(q OR PMD_TYPE_TABLE) AND NOT (mask 12) = q"
    by (simp add: PMD_TYPE_TABLE_def bit.conj_disj_distrib2 three(2))
  obtain c where c: "unat q = 4096 * c" using al unfolding page_aligned_def by blast
  then have "unat (q OR 3) < 2 ^ 48" unfolding page_or3 [OF al] using lt by (simp add: unat_add_small)
  then show "(q OR PMD_TYPE_TABLE) AND mask 12 = 3 \<and> unat (q OR PMD_TYPE_TABLE) < 2 ^ 48"
    using low three by (simp add: PMD_TYPE_TABLE_def bit.conj_disj_distrib2)
qed

definition pool_page :: "early_mm \<Rightarrow> nat \<Rightarrow> u64" where
  "pool_page h i = idmap_pt_space h + word_of_nat i * PAGE_SIZE"

definition pool_free :: "early_mm \<Rightarrow> nat set" where
  "pool_free h = {i. i < EARLY_PGTABLE_NR_PAGES \<and> idmap_pt_mm h i = 0}"

definition pool_ok :: "early_mm \<Rightarrow> bool" where
  "pool_ok h \<longleftrightarrow> page_aligned (idmap_pt_space h) \<and> idmap_pt_space h \<noteq> 0 \<and>
     unat (idmap_pt_space h) + 4096 * EARLY_PGTABLE_NR_PAGES \<le> 2 ^ 48"

text \<open>
  The pages that a mapping must not touch are the free ones, which are zero, and the foreign pages
  \<open>X\<close>, which are as in \<open>w0\<close>.
\<close>

definition pool_frees :: "u64 set \<Rightarrow> early_mm \<Rightarrow> u64 set" where
  "pool_frees X h = pool_page h ` pool_free h \<union> X"

definition pool_inv :: "u64 set \<Rightarrow> tmem \<Rightarrow> bpts \<Rightarrow> bool" where
  "pool_inv X w0 st \<longleftrightarrow> pool_ok (heap st) \<and> (\<forall>q \<in> X. bpage_ok q \<and> q \<notin> pool_page (heap st) ` pool_free (heap st)) \<and>
     (\<forall>i \<in> pool_free (heap st). \<forall>j < 512. words st (slot (pool_page (heap st) i) j) = 0) \<and>
     (\<forall>q \<in> X. \<forall>j < 512. words st (slot q j) = w0 (slot q j))"

definition pool_room :: "early_mm \<Rightarrow> nat" where
  "pool_room h = card (pool_free h)"


lemma unat_pool_page:
  assumes "pool_ok h" "i < EARLY_PGTABLE_NR_PAGES"
  shows "unat (pool_page h i) = unat (idmap_pt_space h) + 4096 * i"
proof -
  have i: "i < 1024" using assms(2) by (simp add: EARLY_PGTABLE_NR_PAGES_def)
  have "unat (word_of_nat i * PAGE_SIZE) = 4096 * i" using i by (simp add: pg_values unat_word_ariths unsigned_of_nat take_bit_nat_eq_self)
  then show ?thesis unfolding pool_page_def using assms(1) i
    by (subst unat_add_small) (simp_all add: pool_ok_def EARLY_PGTABLE_NR_PAGES_def)
qed

lemma pool_page_ok:
  assumes "pool_ok h" "i < EARLY_PGTABLE_NR_PAGES"
  shows "bpage_ok (pool_page h i)"
proof -
  obtain c where c: "unat (idmap_pt_space h) = 4096 * c" using assms(1) by (auto simp: pool_ok_def page_aligned_def)
  have "unat (pool_page h i) = 4096 * (c + i)" using unat_pool_page [OF assms] c by simp
  then have "page_aligned (pool_page h i)" unfolding page_aligned_def by (metis dvd_triv_left)
  moreover have "0 < unat (pool_page h i)" using assms(1) unat_pool_page [OF assms] by (simp add: pool_ok_def unat_gt_0)
  ultimately show ?thesis using assms unat_pool_page [OF assms] by (auto simp: bpage_ok_def pool_ok_def)
qed

lemma pool_page_inj: "pool_ok h \<Longrightarrow> inj_on (pool_page h) {..<EARLY_PGTABLE_NR_PAGES}"
proof (rule inj_onI)
  fix i j assume h: "pool_ok h" and ij: "i \<in> {..<EARLY_PGTABLE_NR_PAGES}" "j \<in> {..<EARLY_PGTABLE_NR_PAGES}" and e: "pool_page h i = pool_page h j"
  have "unat (pool_page h i) = unat (pool_page h j)" using e by (rule arg_cong)
  then show "i = j" using unat_pool_page [OF h] ij by simp
qed

lemma pool_free_less: "i \<in> pool_free h \<Longrightarrow> i < EARLY_PGTABLE_NR_PAGES"
  by (simp add: pool_free_def)

lemma finite_pool_free: "finite (pool_free h)"
  by (rule finite_subset [of _ "{..<EARLY_PGTABLE_NR_PAGES}"]) (auto simp: pool_free_def)

lemma early_pgtable_alloc_page:
  assumes inv: "pool_inv X w0 st" and r: "0 < pool_room (heap st)"
  shows "\<exists>q st'. early_pgtable_alloc PAGE_SIZE st = Some (q, st') \<and> q \<in> pool_frees X (heap st) \<and>
      pool_frees X (heap st') \<subseteq> pool_frees X (heap st) - {q} \<and> pool_inv X w0 st' \<and>
      pool_room (heap st) \<le> Suc (pool_room (heap st')) \<and> (\<forall>j < 512. words st' (slot q j) = 0) \<and> words st' = words st"
proof -
  let ?h = "heap st"
  have ok: "pool_ok ?h" using inv by (simp add: pool_inv_def)
  have "pool_free ?h \<noteq> {}" using r by (auto simp: pool_room_def)
  then obtain k where "k \<in> set [0..<EARLY_PGTABLE_NR_PAGES]" "idmap_pt_mm ?h k = 0" by (auto simp: pool_free_def)
  then obtain i where f: "find (\<lambda>i. idmap_pt_mm ?h i = 0) [0..<EARLY_PGTABLE_NR_PAGES] = Some i"
    by (cases "find (\<lambda>i. idmap_pt_mm ?h i = 0) [0..<EARLY_PGTABLE_NR_PAGES]") (auto simp: find_None_iff)
  then have i: "i \<in> pool_free ?h" by (auto simp: find_Some_iff pool_free_def)
  let ?h' = "?h\<lparr>idmap_pt_mm := (idmap_pt_mm ?h)(i := 1)\<rparr>"
  have run: "early_pgtable_alloc PAGE_SIZE st = Some (pool_page ?h i, st\<lparr>heap := ?h'\<rparr>)"
    by (simp add: early_pgtable_alloc_def f pool_page_def)
  have pp: "pool_page ?h' = pool_page ?h" by (intro ext) (simp add: pool_page_def)
  have fr: "pool_free ?h' = pool_free ?h - {i}" by (auto simp: pool_free_def)
  have ok': "pool_ok ?h'" using ok by (simp add: pool_ok_def)
  have one: "pool_page ?h i \<notin> pool_page ?h ` (pool_free ?h - {i})"
    using inj_onD [OF pool_page_inj [OF ok]] i pool_free_less by fastforce
  have X: "pool_page ?h i \<notin> X" using inv i by (auto simp: pool_inv_def)
  have "pool_inv X w0 (st\<lparr>heap := ?h'\<rparr>)" using inv ok' unfolding pool_inv_def by (simp add: pp fr) blast
  moreover have "pool_frees X ?h' \<subseteq> pool_frees X ?h - {pool_page ?h i}" unfolding pool_frees_def pp fr using one X by blast
  moreover have "pool_room ?h \<le> Suc (pool_room ?h')" unfolding pool_room_def fr using i finite_pool_free by (simp add: card_Diff_singleton)
  moreover have "\<forall>j < 512. words st (slot (pool_page ?h i) j) = 0" using inv i by (simp add: pool_inv_def)
  ultimately show ?thesis using run i by (auto simp: pool_frees_def)
qed

interpretation bta: table_alloc "\<lambda>x. x" "\<lambda>x. x" bpage_ok early_pgtable_alloc "pool_inv X w0" "pool_frees X" pool_room for X w0
proof
  fix st :: bpts and q assume "pool_inv X w0 st" "q \<in> pool_frees X (heap st)"
  then show "bpage_ok q" using pool_page_ok pool_free_less by (auto simp: pool_inv_def pool_frees_def)
next
  fix st :: bpts and w :: tmem
  assume "pool_inv X w0 st" and w: "\<And>q j. q \<in> pool_frees X (heap st) \<Longrightarrow> j < 512 \<Longrightarrow> w (slot q j) = words st (slot q j)"
  then show "pool_inv X w0 (st\<lparr>words := w\<rparr>)" unfolding pool_inv_def pool_frees_def by simp
next
  fix st :: bpts assume "pool_inv X w0 st" "0 < pool_room (heap st)"
  then show "\<exists>q st'. early_pgtable_alloc PAGE_SIZE st = Some (q, st') \<and> q \<in> pool_frees X (heap st) \<and>
      pool_frees X (heap st') \<subseteq> pool_frees X (heap st) - {q} \<and> pool_inv X w0 st' \<and>
      pool_room (heap st) \<le> Suc (pool_room (heap st')) \<and> (\<forall>j < 512. words st' (slot q j) = 0) \<and>
      (\<forall>p j. page_aligned p \<longrightarrow> p \<noteq> q \<longrightarrow> j < 512 \<longrightarrow> words st' (slot p j) = words st (slot p j))"
    using early_pgtable_alloc_page by metis
qed

lemma idmap_pt_info_room: "idmap_pt_info st = word_of_nat (pool_room (heap st))"
proof -
  have "fold (\<lambda>i free. if idmap_pt_mm (heap st) i = 0 then free + 1 else free) xs (word_of_nat m) =
      (word_of_nat (m + length (filter (\<lambda>i. idmap_pt_mm (heap st) i = 0) xs)) :: u64)" for xs m
  proof (induction xs arbitrary: m)
    case (Cons a xs)
    have "fold (\<lambda>i free. if idmap_pt_mm (heap st) i = 0 then free + 1 else free) xs (word_of_nat m + 1) =
      (word_of_nat (Suc m + length (filter (\<lambda>i. idmap_pt_mm (heap st) i = 0) xs)) :: u64)" using Cons [of "Suc m"] by (simp add: add.commute)
    then show ?case using Cons by simp
  qed simp
  from this [of "[0..<EARLY_PGTABLE_NR_PAGES]" 0]
  have "idmap_pt_info st = word_of_nat (length (filter (\<lambda>i. idmap_pt_mm (heap st) i = 0) [0..<EARLY_PGTABLE_NR_PAGES]))"
    by (simp add: idmap_pt_info_def)
  moreover have "length (filter (\<lambda>i. idmap_pt_mm (heap st) i = 0) [0..<EARLY_PGTABLE_NR_PAGES]) = pool_room (heap st)"
    by (simp add: pool_room_def pool_free_def length_filter_conv_card cong: conj_cong)
  ultimately show ?thesis by simp
qed

section \<open>Cleared tables\<close>

text \<open>
  What the boot code relies on from the linker script: the two root tables are page-aligned pages outside
  the pool, the pool is page-aligned below \<open>2 ^ 48\<close>, and the boot image starts at a page and is
  between 1 byte and 1 GiB long, inside the lower window.
\<close>

definition boot_size :: "boot_syms \<Rightarrow> u64" where
  "boot_size sy = ALIGN (boot_end sy - boot_physic_start sy) SECTION_SIZE"

definition boot_first :: "boot_syms \<Rightarrow> nat" where
  "boot_first sy = unat (boot_physic_start sy) div 4096"

definition boot_layout :: "boot_syms \<Rightarrow> early_mm \<Rightarrow> bool" where
  "boot_layout sy h \<longleftrightarrow> pool_ok h \<and> bpage_ok (identifymap_pt sy) \<and> bpage_ok (bootkernelmap_pt sy) \<and>
     identifymap_pt sy \<noteq> bootkernelmap_pt sy \<and>
     (\<forall>q \<in> {identifymap_pt sy, bootkernelmap_pt sy}. EARLY_PGTABLE_MM_SIZE \<le> q - idmap_pt_space h) \<and>
     page_aligned (boot_physic_start sy) \<and> boot_physic_start sy < boot_end sy \<and>
     unat (boot_end sy) \<le> unat (boot_physic_start sy) + 2 ^ 30 \<and> unat (boot_physic_start sy) + 2 ^ 31 \<le> 2 ^ 39"

lemma pool_page_off: "i < EARLY_PGTABLE_NR_PAGES \<Longrightarrow> pool_page h i - idmap_pt_space h < EARLY_PGTABLE_MM_SIZE"
  unfolding pool_page_def EARLY_PGTABLE_MM_SIZE_def EARLY_PGTABLE_NR_PAGES_def
  by (simp add: word_less_nat_alt unat_word_ariths pg_values unsigned_of_nat take_bit_nat_eq_self)

lemma layout_pool:
  assumes "boot_layout sy h" "i < EARLY_PGTABLE_NR_PAGES"
  shows "pool_page h i \<noteq> identifymap_pt sy" "pool_page h i \<noteq> bootkernelmap_pt sy"
  using pool_page_off [OF assms(2), of h] assms(1) by (auto simp: boot_layout_def)

lemma boot_pt_init_ok:
  fixes h :: early_mm
  assumes L: "boot_layout sy (heap st)" and j: "j < 512"
  shows "words (boot_pt_init sy st) (slot (identifymap_pt sy) j) = 0" "words (boot_pt_init sy st) (slot (bootkernelmap_pt sy) j) = 0"
    "i < EARLY_PGTABLE_NR_PAGES \<Longrightarrow> words (boot_pt_init sy st) (slot (pool_page (heap st) i) j) = 0"
    "pool_free (heap (boot_pt_init sy st)) = {..<EARLY_PGTABLE_NR_PAGES}"
    "idmap_pt_space (heap (boot_pt_init sy st)) = idmap_pt_space (heap st)"
proof -
  have sz: "SIZEOF_PAGE_TABLE = PAGE_SIZE" by (simp add: SIZEOF_PAGE_TABLE_def pg_values)
  have z: "zero_words w p n a = 0" if "w a = 0" for w p n a using that by (simp add: zero_words_def)
  have al: "page_aligned (identifymap_pt sy)" "page_aligned (bootkernelmap_pt sy)" using L by (simp_all add: boot_layout_def bpage_ok_def)
  show "words (boot_pt_init sy st) (slot (identifymap_pt sy) j) = 0"
    unfolding boot_pt_init_def Let_def sz using al j by (simp add: z zero_words_slot)
  show "words (boot_pt_init sy st) (slot (bootkernelmap_pt sy) j) = 0"
    unfolding boot_pt_init_def Let_def sz using al j by (simp add: z zero_words_slot)
  show "pool_free (heap (boot_pt_init sy st)) = {..<EARLY_PGTABLE_NR_PAGES}"
    "idmap_pt_space (heap (boot_pt_init sy st)) = idmap_pt_space (heap st)"
    by (auto simp: boot_pt_init_def Let_def pool_free_def)
  show "words (boot_pt_init sy st) (slot (pool_page (heap st) i) j) = 0" if i: "i < EARLY_PGTABLE_NR_PAGES"
  proof -
    have "i < 1024" using i by (simp add: EARLY_PGTABLE_NR_PAGES_def)
    have "slot (pool_page (heap st) i) j - idmap_pt_space (heap st) = word_of_nat (4096 * i + 8 * j)"
      by (simp add: slot_def pool_page_def pg_values)
    then have "slot (pool_page (heap st) i) j - idmap_pt_space (heap st) < EARLY_PGTABLE_MM_SIZE"
      using \<open>i < 1024\<close> j by (simp only:) (simp add: word_less_nat_alt unsigned_of_nat take_bit_nat_eq_self EARLY_PGTABLE_MM_SIZE_def EARLY_PGTABLE_NR_PAGES_def pg_values del: of_nat_add of_nat_mult)
    then show ?thesis by (simp add: boot_pt_init_def Let_def zero_words_def)
  qed
qed


section \<open>The two mappings\<close>

lemmas boot_map_ok = bta.gen_pt_map_need [folded idmap_pt_map_def]

definition foreign_to :: "bpts \<Rightarrow> u64 \<Rightarrow> u64 set" where
  "foreign_to st P = {p. \<exists>a. page_of (\<lambda>x. x) (words st) P a = Some p}"

text \<open>A table that was foreign while another one was filled can be filled next, with the other one foreign.\<close>

lemma swap_tables:
  assumes inv: "bta.tinv {B} w0 st I" and I: "bpage_ok I" and z: "\<And>j. j < 512 \<Longrightarrow> w0 (slot B j) = 0"
  shows "bta.tinv (foreign_to st I) (words st) st B" "n < 2 ^ 27 \<Longrightarrow> xl (\<lambda>x. x) (words st) B n = None"
    "l < 2 ^ 18 \<Longrightarrow> nosect (\<lambda>x. x) (words st) B l"
proof -
  have wf: "pt_wf (\<lambda>x. x) (\<lambda>x. x) bpage_ok (words st) I (pool_frees {B} (heap st))" and p: "pool_inv {B} w0 st"
    using inv by (simp_all add: bta.tinv_def)
  have page: "bpage_ok q \<and> q \<notin> pool_frees {B} (heap st)" if "q \<in> foreign_to st I" for q
  proof -
    obtain a where a: "page_of (\<lambda>x. x) (words st) I a = Some q" using \<open>q \<in> foreign_to st I\<close> unfolding foreign_to_def by blast
    have "bpage_ok q" using a I bt.wfD(4) [OF wf a] by (cases "a = Root") simp_all
    then show ?thesis using bt.wfD(5) [OF wf a] by simp
  qed
  have B: "bpage_ok B" "B \<notin> pool_frees (foreign_to st I) (heap st)"
    using p page by (auto simp: pool_inv_def pool_frees_def)
  have e: "words st (slot B j) = 0" if "j < 512" for j using p z that by (simp add: pool_inv_def)
  note t = bt.empty_table [of B "pool_frees (foreign_to st I) (heap st)" "words st", OF _ B(2) e]
  have "pool_inv (foreign_to st I) (words st) st"
    using p page unfolding pool_inv_def pool_frees_def by blast
  then show "bta.tinv (foreign_to st I) (words st) st B" using t(1) B(1) by (simp add: bta.tinv_def bpage_ok_def)
  show "n < 2 ^ 27 \<Longrightarrow> xl (\<lambda>x. x) (words st) B n = None" "l < 2 ^ 18 \<Longrightarrow> nosect (\<lambda>x. x) (words st) B l"
    using t(2,3) B(1) by (simp_all add: bpage_ok_def)
qed

lemma foreign_xl:
  assumes "bta.tinv X w0 st0 I" "bta.tinv (foreign_to st0 I) (words st0) st B" "n < 2 ^ 27"
  shows "xl (\<lambda>x. x) (words st) I n = xl (\<lambda>x. x) (words st0) I n"
proof (rule bt.agree_xl [OF _ _ assms(3)])
  show "pt_wf (\<lambda>x. x) (\<lambda>x. x) bpage_ok (words st0) I (pool_frees X (heap st0))" using assms(1) by (simp add: bta.tinv_def)
  show "same_tables (\<lambda>x. x) (words st0) (words st) I"
    using assms(2) by (auto simp: bta.tinv_def pool_inv_def same_tables_def foreign_to_def)
qed


lemma boot_request:
  assumes "boot_layout sy h"
  shows "map_request 0 (boot_physic_start sy) (boot_physic_start sy) (boot_size sy) PAGE_KERNEL_EXEC (boot_first sy)"
    "tables_for (boot_first sy) (boot_size sy) \<le> 517" "boot_first sy + pages_for (boot_size sy) \<le> 2 ^ 27"
proof -
  let ?n = "boot_end sy - boot_physic_start sy"
  have L: "page_aligned (boot_physic_start sy)" "boot_physic_start sy < boot_end sy" "unat (boot_end sy) \<le> unat (boot_physic_start sy) + 2 ^ 30"
    "unat (boot_physic_start sy) + 2 ^ 31 \<le> 2 ^ 39" using assms by (simp_all add: boot_layout_def)
  have n: "unat ?n = unat (boot_end sy) - unat (boot_physic_start sy)" using L(2) by (simp add: unat_sub_if_size word_less_nat_alt)
  have n': "0 < unat ?n" "unat ?n \<le> 2 ^ 30" unfolding n using L(2,3) by (simp_all add: word_less_nat_alt)
  have "unat (boot_size sy) = (unat ?n + 2 ^ 21 - 1) div 2 ^ 21 * 2 ^ 21"
    unfolding boot_size_def using n'(2) by (subst unat_ALIGN) (simp_all add: SECTION_SIZE_def SECTION_SHIFT_def pg_values)
  then obtain k where k: "unat (boot_size sy) = 2 ^ 21 * k" and k': "k = (unat ?n + 2 ^ 21 - 1) div 2 ^ 21" by (simp add: mult.commute)
  have "0 < k" using n' unfolding k' by (simp add: div_greater_zero_iff)
  moreover have "k \<le> 512" using n'(2) div_le_mono [of "unat ?n + 2 ^ 21 - 1" "2 ^ 30 + 2 ^ 21 - 1" "2 ^ 21"] unfolding k' by simp
  ultimately have kb: "0 < k" "k \<le> 512" by blast+
  have pf: "pages_for (boot_size sy) = 512 * k" unfolding pages_for_def k by simp
  have a: "unat (boot_physic_start sy) = 4096 * boot_first sy" using L(1) by (simp add: boot_first_def page_aligned_def)
  have at: "PAGE_KERNEL_EXEC AND PA_MASK = 0"
    by (simp add: PAGE_KERNEL_EXEC_def attr_defs PA_MASK_def mask_eq_exp_minus_1 MT_NORMAL_def)
  show b: "boot_first sy + pages_for (boot_size sy) \<le> 2 ^ 27" using a L(4) kb pf by simp
  have "boot_size sy \<noteq> 0" using k kb by (auto simp: unat_eq_0 [symmetric])
  then show "map_request 0 (boot_physic_start sy) (boot_physic_start sy) (boot_size sy) PAGE_KERNEL_EXEC (boot_first sy)"
    using a b L kb at pf by (simp add: map_request_def vpage_def)
  have "slots c x (x + 512 * k) \<le> (512 * k) div c + 2" if "0 < c" for c x
  proof -
    have "x mod c + 512 * k mod c < 2 * c" using mod_less_divisor [OF that, of x] mod_less_divisor [OF that, of "512 * k"] by linarith
    then have "(x mod c + 512 * k mod c) div c < 2" by (rule less_mult_imp_div_less)
    then have "(x + 512 * k) div c \<le> x div c + 512 * k div c + 1" using div_add1_eq [of x "512 * k" c] by linarith
    then have "(x + 512 * k - 1) div c \<le> x div c + 512 * k div c + 1" using div_le_mono [of "x + 512 * k - 1" "x + 512 * k" c] by linarith
    then show ?thesis unfolding slots_def using le_diff_conv by auto
  qed
  from this [of 512 "boot_first sy"] this [of "2 ^ 18" "boot_first sy"]
  show "tables_for (boot_first sy) (boot_size sy) \<le> 517"
    unfolding tables_for_def pf using kb by simp
qed

lemma kernel_request:
  "map_request 33554431 RAM_VBASE RAM_PBASE (ALIGN RAM_SIZE SECTION_SIZE) PAGE_KERNEL_EXEC 0"
  "map_request 33554431 MMIO_VBASE MMIO_PBASE (ALIGN MMIO_SIZE SECTION_SIZE) PROT_SECT_DEVICE_nGnRE 0xf00000"
  "pages_for (ALIGN RAM_SIZE SECTION_SIZE) = 2 ^ 19" "pages_for (ALIGN MMIO_SIZE SECTION_SIZE) = 2 ^ 18"
  "tables_need 0 0 (ALIGN RAM_SIZE SECTION_SIZE) = 2" "tables_need 0 0xf00000 (ALIGN MMIO_SIZE SECTION_SIZE) = 1"
  "whole_sections 0 (2 ^ 19) RAM_PBASE" "whole_sections 0xf00000 (0xf00000 + 2 ^ 18) MMIO_PBASE"
proof -
  have sz: "ALIGN RAM_SIZE SECTION_SIZE = 0x80000000" "ALIGN MMIO_SIZE SECTION_SIZE = 0x40000000"
    by (simp_all add: ALIGN_def RAM_SIZE_def MMIO_SIZE_def SECTION_SIZE_def SECTION_SHIFT_def pg_values)
  show p: "pages_for (ALIGN RAM_SIZE SECTION_SIZE) = 2 ^ 19" "pages_for (ALIGN MMIO_SIZE SECTION_SIZE) = 2 ^ 18"
    unfolding sz by (simp_all add: pages_for_def)
  have at: "PAGE_KERNEL_EXEC AND PA_MASK = 0" "PROT_SECT_DEVICE_nGnRE AND PA_MASK = 0"
    by (simp_all add: PAGE_KERNEL_EXEC_def attr_defs PA_MASK_def mask_eq_exp_minus_1 MT_NORMAL_def MT_DEVICE_nGnRE_def)
  show "map_request 33554431 RAM_VBASE RAM_PBASE (ALIGN RAM_SIZE SECTION_SIZE) PAGE_KERNEL_EXEC 0"
    "map_request 33554431 MMIO_VBASE MMIO_PBASE (ALIGN MMIO_SIZE SECTION_SIZE) PROT_SECT_DEVICE_nGnRE 0xf00000"
    unfolding map_request_def p using at by (simp_all add: sz vpage_def RAM_VBASE_def RAM_PBASE_def MMIO_VBASE_def MMIO_PBASE_def page_aligned_def)
  show "tables_need 0 0 (ALIGN RAM_SIZE SECTION_SIZE) = 2" "tables_need 0 0xf00000 (ALIGN MMIO_SIZE SECTION_SIZE) = 1"
    unfolding tables_need_def p by (simp_all add: slots_def)
  show "whole_sections 0 (2 ^ 19) RAM_PBASE" "whole_sections 0xf00000 (0xf00000 + 2 ^ 18) MMIO_PBASE"
    by (simp_all add: whole_sections_def RAM_PBASE_def MMIO_PBASE_def mask_eq_exp_minus_1)
qed


lemma boot_identify_mapping_ok:
  assumes L: "boot_layout sy (heap st)"
  defines "st0 \<equiv> boot_pt_init sy st"
  shows "\<exists>st'. boot_identify_mapping sy st0 = Some st' \<and> bta.tinv {bootkernelmap_pt sy} (words st0) st' (identifymap_pt sy) \<and>
    1024 \<le> pool_room (heap st') + tables_for (boot_first sy) (boot_size sy) \<and>
    (\<forall>n < 2 ^ 27. xl (\<lambda>x. x) (words st') (identifymap_pt sy) n =
      (if boot_first sy \<le> n \<and> n < boot_first sy + pages_for (boot_size sy) then Some (4096 * word_of_nat n, PAGE_KERNEL_EXEC AND ATTRS) else None))"
proof -
  let ?I = "identifymap_pt sy" and ?B = "bootkernelmap_pt sy"
  note z = boot_pt_init_ok [OF L, folded st0_def]
  have pp: "pool_page (heap st0) = pool_page (heap st)" using z(5) [of 0] by (intro ext) (simp add: pool_page_def)
  have ok: "pool_ok (heap st0)" "bpage_ok ?I" "bpage_ok ?B" "?I \<noteq> ?B" using L z(5) [of 0] by (simp_all add: boot_layout_def pool_ok_def)
  have free: "pool_free (heap st0) = {..<EARLY_PGTABLE_NR_PAGES}" using z(4) [of 0] by simp
  have B: "?B \<notin> pool_page (heap st) ` {..<EARLY_PGTABLE_NR_PAGES}" "?I \<notin> pool_page (heap st) ` {..<EARLY_PGTABLE_NR_PAGES}"
    using layout_pool [OF L] by (metis imageE lessThan_iff)+
  have inv: "pool_inv {?B} (words st0) st0"
    unfolding pool_inv_def free pp using ok B z(3) by auto
  have "?I \<notin> pool_frees {?B} (heap st0)" unfolding pool_frees_def free pp using B ok by blast
  note t = bt.empty_table [of ?I "pool_frees {?B} (heap st0)" "words st0", OF _ this z(1)]
  have al: "page_aligned ?I" "?I \<noteq> 0" using ok by (simp_all add: bpage_ok_def)
  have ti: "bta.tinv {?B} (words st0) st0 ?I" using t(1) [OF al(1)] inv by (simp add: bta.tinv_def)
  note r = boot_request [OF L]
  have room: "pool_room (heap st0) = 1024" by (simp add: pool_room_def free EARLY_PGTABLE_NR_PAGES_def)
  have need: "tables_need 1 (boot_first sy) (boot_size sy) = tables_for (boot_first sy) (boot_size sy)" by (simp add: tables_need_def tables_for_def)
  have no: "\<forall>l. boot_first sy div 512 \<le> l \<longrightarrow> 512 * l < boot_first sy + pages_for (boot_size sy) \<longrightarrow> nosect (\<lambda>x. x) (words st0) ?I l"
    using t(3) [OF al(1)] r(3) by simp
  obtain st' where st': "boot_identify_mapping sy st0 = Some st'" "bta.tinv {?B} (words st0) st' ?I"
      "pool_room (heap st0) \<le> pool_room (heap st') + tables_for (boot_first sy) (boot_size sy)"
    and m: "mapped (\<lambda>x. x) (words st0) (words st') ?I (boot_first sy) (boot_first sy + pages_for (boot_size sy)) (boot_physic_start sy) (PAGE_KERNEL_EXEC AND ATTRS)"
    using boot_map_ok [OF ti al(2) _ _ r(1) no, of 1] r(2) room unfolding need boot_identify_mapping_def Let_def boot_size_def [symmetric] by auto
  have a: "boot_physic_start sy = 4096 * word_of_nat (boot_first sy)"
    using r(1) by (simp add: map_request_def vpage_def word_unat_eq_iff unat_word_ariths unsigned_of_nat take_bit_nat_eq_self)
  have "xl (\<lambda>x. x) (words st') ?I n = (if boot_first sy \<le> n \<and> n < boot_first sy + pages_for (boot_size sy) then Some (4096 * word_of_nat n, PAGE_KERNEL_EXEC AND ATTRS) else None)"
    if n: "n < 2 ^ 27" for n
  proof -
    have "4096 * word_of_nat (boot_first sy) + 4096 * word_of_nat (n - boot_first sy) = (4096 * word_of_nat n :: u64)" if "boot_first sy \<le> n"
      using that by (simp flip: of_nat_add distrib_left)
    then show ?thesis using m t(2) [OF al(1) _ n] n unfolding mapped_def a by simp
  qed
  then show ?thesis using st' room by auto
qed

definition kernel_window :: "nat \<Rightarrow> (u64 \<times> u64) option" where
  "kernel_window n =
     (if n < 2 ^ 19 then Some (RAM_PBASE + 4096 * word_of_nat n, PAGE_KERNEL_EXEC AND ATTRS)
      else if 0xf00000 \<le> n \<and> n < 0xf00000 + 2 ^ 18 then Some (MMIO_PBASE + 4096 * word_of_nat (n - 0xf00000), PROT_SECT_DEVICE_nGnRE AND ATTRS)
      else None)"

lemma boot_kernel_mapping_ok:
  assumes ti: "bta.tinv X w0 st (bootkernelmap_pt sy)" and P: "bootkernelmap_pt sy \<noteq> 0" and r: "3 \<le> pool_room (heap st)"
    and x: "\<And>n. n < 2 ^ 27 \<Longrightarrow> xl (\<lambda>x. x) (words st) (bootkernelmap_pt sy) n = None"
    and no: "\<And>l. l < 2 ^ 18 \<Longrightarrow> nosect (\<lambda>x. x) (words st) (bootkernelmap_pt sy) l"
  shows "\<exists>st'. boot_kernel_mapping sy (st, regs) = Some (st', regs\<lparr>b_ttbr0 := identifymap_pt sy, b_ttbr1 := bootkernelmap_pt sy\<rparr>) \<and>
    bta.tinv X w0 st' (bootkernelmap_pt sy) \<and> pool_room (heap st) \<le> pool_room (heap st') + 3 \<and>
    (\<forall>n < 2 ^ 27. xl (\<lambda>x. x) (words st') (bootkernelmap_pt sy) n = kernel_window n)"
proof -
  let ?B = "bootkernelmap_pt sy"
  note k = kernel_request
  obtain st1 where s1: "idmap_pt_map early_pgtable_alloc st ?B RAM_VBASE RAM_PBASE (ALIGN RAM_SIZE SECTION_SIZE) PAGE_KERNEL_EXEC = Some st1"
      "bta.tinv X w0 st1 ?B" "pool_room (heap st) \<le> pool_room (heap st1) + 2"
    and m1: "mapped (\<lambda>x. x) (words st) (words st1) ?B 0 (2 ^ 19) RAM_PBASE (PAGE_KERNEL_EXEC AND ATTRS)"
    using boot_map_ok [OF ti P _ _ k(1), of 0] r no k(5,7) unfolding k(3) by auto
  have n1: "nosect (\<lambda>x. x) (words st1) ?B l" if "l < 2 ^ 18" "2 ^ 10 \<le> l" for l
    using mapped_nosect [OF m1 _ that(1) no [OF that(1)]] that by simp
  obtain st2 where s2: "idmap_pt_map early_pgtable_alloc st1 ?B MMIO_VBASE MMIO_PBASE (ALIGN MMIO_SIZE SECTION_SIZE) PROT_SECT_DEVICE_nGnRE = Some st2"
      "bta.tinv X w0 st2 ?B" "pool_room (heap st1) \<le> pool_room (heap st2) + 1"
    and m2: "mapped (\<lambda>x. x) (words st1) (words st2) ?B 0xf00000 (0xf00000 + 2 ^ 18) MMIO_PBASE (PROT_SECT_DEVICE_nGnRE AND ATTRS)"
    using boot_map_ok [OF s1(2) P _ _ k(2), of 0] r s1(3) n1 k(6,8) unfolding k(4) by auto
  have "xl (\<lambda>x. x) (words st2) ?B n = kernel_window n" if "n < 2 ^ 27" for n
    using m1 m2 x [OF that] that unfolding mapped_def kernel_window_def by simp
  then show ?thesis using s1 s2
    by (simp add: boot_kernel_mapping_def kernel_normal_ram_def kernel_dev_ram_def)
qed


section \<open>Turning the MMU on\<close>

text \<open>
  The byte of \<^verbatim>\<open>MAIR_EL1\<close> that a descriptor's attribute index selects.
\<close>

definition memory_type :: "u64 \<Rightarrow> u64 \<Rightarrow> u64" where
  "memory_type mair attr = drop_bit (8 * unat (drop_bit 2 attr AND 7)) mair AND 0xff"

lemma memory_types:
  "memory_type MAIR_EL1_SET (PAGE_KERNEL_EXEC AND ATTRS) = 0xff" "memory_type MAIR_EL1_SET (PROT_SECT_DEVICE_nGnRE AND ATTRS) = 0x04"
  by (simp_all add: memory_type_def MAIR_EL1_SET_def MAIR_ATTRIDX_def PAGE_KERNEL_EXEC_def attr_defs ATTRS_def PA_MASK_def
      mask_eq_exp_minus_1 MT_NORMAL_def MT_DEVICE_nGnRE_def)

lemma region_sizes: "boot_tcr x AND mask 6 = 25" "drop_bit 16 (boot_tcr x) AND mask 6 = 25"
proof -
  have t: "boot_tcr x = push_bit 32 x OR 0xB5193519"
    by (simp add: boot_tcr_def TCR_IPS_SHIFT_def TCR_T0SZ_def TCR_T1SZ_def VA_BITS_def TCR_TG0_4K_def TCR_TG1_4K_def TCR_SH0_INNER_def
        TCR_SH1_INNER_def TCR_ORGN0_WBWA_def TCR_ORGN1_WBWA_def TCR_IRGN0_WBWA_def TCR_IRGN1_WBWA_def or.assoc)
  have z: "push_bit 32 x AND mask 6 = 0" "drop_bit 16 (push_bit 32 x) AND mask 6 = 0"
    by (intro bit_word_eqI, auto simp: bit_simps)+
  show "boot_tcr x AND mask 6 = 25" "drop_bit 16 (boot_tcr x) AND mask 6 = 25"
    unfolding t drop_bit_or bit.conj_disj_distrib2 z by (simp_all add: mask_eq_exp_minus_1)
qed

text \<open>
  C22.  If the linker places the tables and the pool as assumed, the boot code sets both translation
  table registers and returns.  The table for the lower half then translates exactly the boot image, rounded
  up to sections, and to itself; the table for the upper half translates exactly the RAM window and the
  device window, whatever the memory held before.  The attributes select normal write-back memory for the
  RAM and device memory for the devices, both windows are \<open>64 - 25 = 39\<close> bits wide, and at least 500 early tables are left.
\<close>

theorem boot_setup_mmu_correct:
  assumes "boot_layout sy (heap st)"
  shows "\<exists>st' regs'. boot_setup_mmu sy mmfr0 (st, regs) = Some (st', regs') \<and>
    b_ttbr0 regs' = identifymap_pt sy \<and> b_ttbr1 regs' = bootkernelmap_pt sy \<and>
    (\<forall>n < 2 ^ 27. xl (\<lambda>x. x) (words st') (b_ttbr0 regs') n =
      (if boot_first sy \<le> n \<and> n < boot_first sy + pages_for (boot_size sy)
       then Some (4096 * word_of_nat n, PAGE_KERNEL_EXEC AND ATTRS) else None)) \<and>
    (\<forall>n < 2 ^ 27. xl (\<lambda>x. x) (words st') (b_ttbr1 regs') n = kernel_window n) \<and>
    memory_type (b_mair regs') (PAGE_KERNEL_EXEC AND ATTRS) = 0xff \<and>
    memory_type (b_mair regs') (PROT_SECT_DEVICE_nGnRE AND ATTRS) = 0x04 \<and>
    b_tcr regs' AND mask 6 = 25 \<and> drop_bit 16 (b_tcr regs') AND mask 6 = 25 \<and>
    500 \<le> idmap_pt_info st'"
proof -
  let ?I = "identifymap_pt sy" and ?B = "bootkernelmap_pt sy" and ?st0 = "boot_pt_init sy st"
  have ok: "bpage_ok ?I" "?B \<noteq> 0" using assms by (simp_all add: boot_layout_def bpage_ok_def)
  obtain st1 where i: "boot_identify_mapping sy ?st0 = Some st1" "bta.tinv {?B} (words ?st0) st1 ?I"
      "1024 \<le> pool_room (heap st1) + tables_for (boot_first sy) (boot_size sy)"
    and xi: "\<forall>n < 2 ^ 27. xl (\<lambda>x. x) (words st1) ?I n =
      (if boot_first sy \<le> n \<and> n < boot_first sy + pages_for (boot_size sy) then Some (4096 * word_of_nat n, PAGE_KERNEL_EXEC AND ATTRS) else None)"
    using boot_identify_mapping_ok [OF assms] by blast
  have room: "507 \<le> pool_room (heap st1)" using i(3) boot_request(2) [OF assms] by simp
  note sw = swap_tables [OF i(2) ok(1) boot_pt_init_ok(2) [OF assms]]
  have r3: "3 \<le> pool_room (heap st1)" using room by simp
  define rg where "rg = regs\<lparr>b_uart := UART_PBASE, b_mair := MAIR_EL1_SET,
    b_tcr := boot_tcr (bitfield_get mmfr0 ID_AA64MMFR0_PARANGE_SHIFT 4)\<rparr>"
  obtain st2 where k: "boot_kernel_mapping sy (st1, rg) = Some (st2, rg\<lparr>b_ttbr0 := ?I, b_ttbr1 := ?B\<rparr>)"
      "bta.tinv (foreign_to st1 ?I) (words st1) st2 ?B" "pool_room (heap st1) \<le> pool_room (heap st2) + 3"
      "\<forall>n < 2 ^ 27. xl (\<lambda>x. x) (words st2) ?B n = kernel_window n"
    using boot_kernel_mapping_ok [OF sw(1) ok(2) r3 sw(2) sw(3), of rg] by auto
  have "boot_setup_mmu sy mmfr0 (st, regs) = Some (st2, rg\<lparr>b_ttbr0 := ?I, b_ttbr1 := ?B\<rparr>)"
    unfolding boot_setup_mmu_def using i(1) k(1) unfolding rg_def by (simp only: prod.case Let_def Option.bind.simps)
  moreover have "\<forall>n < 2 ^ 27. xl (\<lambda>x. x) (words st2) ?I n =
      (if boot_first sy \<le> n \<and> n < boot_first sy + pages_for (boot_size sy) then Some (4096 * word_of_nat n, PAGE_KERNEL_EXEC AND ATTRS) else None)"
    using foreign_xl [OF i(2) k(2)] xi by simp
  moreover have "pool_room (heap st2) \<le> 1024"
    using card_mono [of "{..<EARLY_PGTABLE_NR_PAGES}" "pool_free (heap st2)"] by (auto simp: pool_room_def pool_free_def EARLY_PGTABLE_NR_PAGES_def)
  then have "500 \<le> idmap_pt_info st2" using room k(3)
    by (simp add: idmap_pt_info_room word_le_nat_alt unsigned_of_nat take_bit_nat_eq_self)
  moreover have "b_mair rg = MAIR_EL1_SET" "b_tcr rg AND mask 6 = 25" "drop_bit 16 (b_tcr rg) AND mask 6 = 25"
    unfolding rg_def by (simp_all add: region_sizes)
  ultimately show ?thesis using k(4) memory_types by simp
qed

definition demo_syms :: boot_syms where
  "demo_syms = \<lparr>identifymap_pt = 0x40100000, bootkernelmap_pt = 0x40101000, boot_physic_start = 0x40000000, boot_end = 0x40600000\<rparr>"

definition demo_early :: bpts where
  "demo_early = \<lparr>words = (\<lambda>a. 0x123), heap = \<lparr>idmap_pt_mm = (\<lambda>i. 7), idmap_pt_space = 0x40102000\<rparr>\<rparr>"

definition demo_boot_regs :: boot_regs where
  "demo_boot_regs = \<lparr>b_mair = 0, b_tcr = 0, b_ttbr0 = 0, b_ttbr1 = 0, b_uart = 0\<rparr>"

lemma demo_layout: "boot_layout demo_syms (heap demo_early)"
  by (simp add: boot_layout_def demo_syms_def demo_early_def pool_ok_def bpage_ok_def page_aligned_def EARLY_PGTABLE_NR_PAGES_def EARLY_PGTABLE_MM_SIZE_def pg_values)

theorem boot_setup_mmu_correct_witness:
  "\<exists>st' regs'. boot_setup_mmu demo_syms 0x1122 (demo_early, demo_boot_regs) = Some (st', regs') \<and>
    b_ttbr0 regs' = 0x40100000 \<and> b_ttbr1 regs' = 0x40101000 \<and>
    (\<forall>n < 2 ^ 27. xl (\<lambda>x. x) (words st') 0x40100000 n =
      (if 0x40000 \<le> n \<and> n < 0x40600 then Some (4096 * word_of_nat n, PAGE_KERNEL_EXEC AND ATTRS) else None)) \<and>
    (\<forall>n < 2 ^ 27. xl (\<lambda>x. x) (words st') 0x40101000 n = kernel_window n)"
proof -
  have e: "boot_first demo_syms = 0x40000" "pages_for (boot_size demo_syms) = 0x600"
    "identifymap_pt demo_syms = 0x40100000" "bootkernelmap_pt demo_syms = 0x40101000"
    by (simp_all add: boot_first_def boot_size_def demo_syms_def pages_for_def ALIGN_def SECTION_SIZE_def SECTION_SHIFT_def pg_values)
  show ?thesis using boot_setup_mmu_correct [OF demo_layout, of "0x1122" demo_boot_regs] unfolding e by force
qed

end
