(* ===== verification/K_Memview.thy ===== *)
theory K_Memview
  imports K_Mmap K_String
begin

text \<open>
  The bytes of the memory that the page-table code sees as 64-bit words.  Byte \<open>i\<close> of an aligned
  word is at its address plus \<open>i\<close>, the board being little-endian, so code that works on bytes
  and code that works on words share one memory: \<open>on_bytes\<close> lets a function on bytes act on it.
\<close>

unbundle bit_operations_syntax

definition bytes_of :: "tmem \<Rightarrow> bmem" where
  "bytes_of w a = ucast (drop_bit (8 * unat (a AND mask 3)) (w (a AND NOT (mask 3))))"

definition words_of :: "tmem \<Rightarrow> bmem \<Rightarrow> tmem" where
  "words_of w m a = (if a AND mask 3 = 0 then load_le 8 m a else w a)"

definition on_bytes :: "(bmem \<Rightarrow> bmem) \<Rightarrow> 'h pts \<Rightarrow> 'h pts" where
  "on_bytes f st = st\<lparr>words := words_of (words st) (f (bytes_of (words st)))\<rparr>"

lemma bit_load_le:
  assumes "k \<le> 8"
  shows "bit (load_le k m a) n \<longleftrightarrow> n < 8 * k \<and> bit (m (a + word_of_nat (n div 8))) (n mod 8)"
  using assms
proof (induction k arbitrary: a n)
  case (Suc k)
  show ?case
  proof (cases "n < 8")
    case True
    then show ?thesis using not_bit_small [of "m a"] by (auto simp: bit_simps)
  next
    case False
    then obtain r where r: "n = r + 8" by (metis add.commute le_Suc_ex not_less)
    have e: "a + 1 + word_of_nat (r div 8) = a + word_of_nat ((r + 8) div 8)" proof -
      have "(r + 8) div 8 = Suc (r div 8)" by simp
      then show ?thesis by (simp add: algebra_simps)
    qed
    have "\<not> bit (m a) n" using False by (auto dest: bit_imp_le_length)
    then show ?thesis using Suc.IH [of "a + 1" r] Suc.prems unfolding r e by (auto simp: bit_simps)
  qed
qed simp

lemma and7_bound: "unat (a AND mask 3) < 8" for a :: u64
proof -
  have "unat (a AND mask 3) = unat a mod 8" by (simp add: unat_and_mask)
  then show ?thesis by simp
qed

lemma word_parts: "(a AND NOT (mask 3)) + word_of_nat (unat (a AND mask 3)) = a" "(a AND NOT (mask 3)) AND mask 3 = 0" for a :: u64
proof -
  have "(a AND NOT (mask 3)) + (a AND mask 3) = (a AND NOT (mask 3)) OR (a AND mask 3)" by (rule disjunctive_add) (auto simp: bit_simps)
  also have "\<dots> = a" by (intro bit_eqI) (auto simp: bit_simps)
  finally show "(a AND NOT (mask 3)) + word_of_nat (unat (a AND mask 3)) = a" by simp
  show "(a AND NOT (mask 3)) AND mask 3 = 0" by (intro bit_eqI) (auto simp: bit_simps)
qed

lemma aligned_parts:
  fixes a :: u64
  assumes "a AND mask 3 = 0" "k < 8"
  shows "(a + word_of_nat k) AND mask 3 = word_of_nat k" "(a + word_of_nat k) AND NOT (mask 3) = a"
proof -
  have k: "unat (word_of_nat k :: u64) = k" using assms(2) by (simp add: unsigned_of_nat take_bit_nat_eq_self)
  have "unat a mod 8 = 0" using assms(1) unat_and_mask [of 3 a] by simp
  then obtain c where c: "unat a = 8 * c" by (metis mod_0_imp_dvd dvdE)
  have "unat a + k < 2 ^ 64" using unat_u64_bound [of a] assms(2) c by simp
  then have u: "unat (a + word_of_nat k) = 8 * c + k" using k c by (simp add: unat_add_small)
  have "unat ((a + word_of_nat k) AND mask 3) = unat (word_of_nat k :: u64)" using u assms(2) k by (simp add: unat_and_mask)
  then show l: "(a + word_of_nat k) AND mask 3 = word_of_nat k" by (rule word_unat_eq_iff [THEN iffD2])
  show "(a + word_of_nat k) AND NOT (mask 3) = a" using word_parts(1) [of "a + word_of_nat k"] unfolding l k by simp
qed

lemma bytes_of_words_of [simp]: "bytes_of (words_of w m) = m"
proof (intro ext bit_word_eqI)
  fix a :: u64 and n assume "n < LENGTH(8)"
  then have n: "n < 8" by simp
  let ?b = "a AND NOT (mask 3)" and ?k = "unat (a AND mask 3)"
  have k: "?k < 8" by (rule and7_bound)
  have d: "(8 * ?k + n) div 8 = ?k" "(8 * ?k + n) mod 8 = n" using n by simp_all
  have "bit (bytes_of (words_of w m) a) n \<longleftrightarrow> bit (load_le 8 m ?b) (8 * ?k + n)"
    using n k by (simp add: bytes_of_def words_of_def word_parts(2) bit_simps)
  also have "\<dots> \<longleftrightarrow> bit (m a) n" using k n using word_parts(1) [of a] by (simp add: bit_load_le d)
  finally show "bit (bytes_of (words_of w m) a) n \<longleftrightarrow> bit (m a) n" .
qed

lemma load_bytes_of: "a AND mask 3 = 0 \<Longrightarrow> (\<And>k. k < 8 \<Longrightarrow> m (a + word_of_nat k) = bytes_of w (a + word_of_nat k)) \<Longrightarrow> load_le 8 m a = w a"
proof (intro bit_word_eqI)
  fix n :: nat assume al: "a AND mask 3 = 0" and e: "\<And>k. k < 8 \<Longrightarrow> m (a + word_of_nat k) = bytes_of w (a + word_of_nat k)" and "n < LENGTH(64)"
  then have n: "n < 64" by simp
  then have k: "n div 8 < 8" by simp
  have u: "unat (word_of_nat (n div 8) :: u64) = n div 8" using k by (simp add: unsigned_of_nat take_bit_nat_eq_self)
  show "bit (load_le 8 m a) n \<longleftrightarrow> bit (w a) n"
    using n by (simp add: bit_load_le e [OF k] bytes_of_def aligned_parts [OF al k] u bit_simps)
qed

text \<open>A function on bytes that leaves a page alone leaves its words alone.\<close>

definition page_base :: "u64 \<Rightarrow> u64" where
  "page_base a = a AND NOT (mask 12)"

lemma page_base_add:
  assumes "page_aligned q" "k < 4096"
  shows "page_base (q + word_of_nat k) = q"
proof -
  have k: "unat (word_of_nat k :: u64) = k" using assms(2) by (simp add: unsigned_of_nat take_bit_nat_eq_self)
  obtain c where c: "unat q = 4096 * c" using assms(1) unfolding page_aligned_def by blast
  have "unat q + k < 2 ^ 64" using unat_u64_bound [of q] assms(2) c by simp
  then have u: "unat (q + word_of_nat k) = 4096 * c + k" using k c by (simp add: unat_add_small)
  have "unat (page_base (q + word_of_nat k)) = 4096 * c" unfolding page_base_def using u assms(2) by (simp add: unat_and_not_mask)
  then show ?thesis using c by (simp add: word_unat_eq_iff)
qed

lemma slot_bytes: "page_aligned q \<Longrightarrow> j < 512 \<Longrightarrow> k < 8 \<Longrightarrow> page_base (slot q j + word_of_nat k) = q"
  using page_base_add [of q "8 * j + k"] by (simp add: slot_def algebra_simps)

lemma slot_aligned: "page_aligned q \<Longrightarrow> slot q j AND mask 3 = 0"
proof -
  assume q: "page_aligned q"
  obtain c where c: "q = 4096 * word_of_nat c" 
  proof -
    obtain c where "unat q = 4096 * c" using q unfolding page_aligned_def by blast
    then have "q = word_of_nat (4096 * c)" by (metis of_nat_unat ucast_id)
    then show ?thesis using that by simp
  qed
  have "slot q j = 8 * (512 * word_of_nat c + word_of_nat j)" unfolding slot_def c by simp
  also have "\<dots> = push_bit 3 (512 * word_of_nat c + word_of_nat j)" by (simp add: push_bit_eq_mult)
  finally show "slot q j AND mask 3 = 0" by (auto intro!: bit_eqI simp: bit_simps)
qed

lemma on_bytes_heap [simp]: "heap (on_bytes f st) = heap st"
  by (simp add: on_bytes_def)

lemma on_bytes_bytes [simp]: "bytes_of (words (on_bytes f st)) = f (bytes_of (words st))"
  by (simp add: on_bytes_def)

lemma on_bytes_frame:
  assumes "page_aligned q" "j < 512" "\<And>a. page_base a = q \<Longrightarrow> f (bytes_of (words st)) a = bytes_of (words st) a"
  shows "words (on_bytes f st) (slot q j) = words st (slot q j)"
  unfolding on_bytes_def using slot_aligned [OF assms(1)] slot_bytes [OF assms(1,2)] assms(3)
  by (simp add: words_of_def load_bytes_of)

text \<open>Equal words give equal bytes, page by page.\<close>

lemma page_bytes:
  assumes "page_aligned q" "\<And>j. j < 512 \<Longrightarrow> w' (slot q j) = w (slot q j)" "page_base a = q"
  shows "bytes_of w' a = bytes_of w a"
proof -
  let ?k = "unat (a AND mask 12)"
  have k: "?k < 4096" using unat_and_mask [of 12 a] by simp
  have "a AND NOT (mask 3) = slot q (?k div 8)"
  proof -
    obtain r where r: "unat q = 4096 * r" using assms(1) unfolding page_aligned_def by blast
    have "unat q = unat a - unat a mod 4096" using assms(3) unat_and_not_mask [of 12 a] unfolding page_base_def by (simp add: minus_mod_eq_mult_div)
    then have a: "unat a = unat q + ?k" by (simp add: unat_and_mask)
    have "unat (a AND NOT (mask 3)) = unat a div 8 * 8" by (simp add: unat_and_not_mask)
    also have "\<dots> = unat q + 8 * (?k div 8)"
    proof -
      have "4096 * r + ?k = ?k + 8 * (512 * r)" by simp
      moreover have "(?k + 8 * (512 * r)) div 8 = 512 * r + ?k div 8" by (rule div_mult_self2) simp
      ultimately have "(4096 * r + ?k) div 8 = 512 * r + ?k div 8" by metis
      then show ?thesis unfolding a r by linarith
    qed
    also have "\<dots> = unat (slot q (?k div 8))" using unat_slot [OF assms(1), of "?k div 8"] k by simp
    finally show ?thesis by (rule word_unat_eq_iff [THEN iffD2])
  qed
  moreover have "?k div 8 < 512" using k by simp
  ultimately show ?thesis using assms(2) by (simp add: bytes_of_def)
qed

end
