(* ===== verification/K_Reserve.thy ===== *)
theory K_Reserve
  imports K_Memview
begin

text \<open>
  Memory that is in use for something else.  A set \<open>X\<close> of pages is kept when its pages are neither free nor
  tables of the address space \<open>P\<close>: allocating, mapping into \<open>P\<close> and writing to other pages then
  leave the contents of \<open>X\<close> alone.  How much can still be allocated is measured by the longest run of free granules.
  Both come from one more interpretation of the interface of the mapping code.
\<close>

unbundle bit_operations_syntax

section \<open>Runs of free granules\<close>

definition longest_run :: "mm_gran \<Rightarrow> nat" where
  "longest_run g = Max {N. \<exists>i. i + N \<le> gcount g \<and> free_run g N i}"

lemma longest_run_iff: "N \<le> longest_run g \<longleftrightarrow> (\<exists>i. i + N \<le> gcount g \<and> free_run g N i)"
proof -
  let ?S = "{N. \<exists>i. i + N \<le> gcount g \<and> free_run g N i}"
  have fin: "finite ?S" by (rule finite_subset [of _ "{..gcount g}"]) auto
  have "0 \<in> ?S" by (auto simp: free_run_def)
  then have "longest_run g \<in> ?S" unfolding longest_run_def using fin by (metis (no_types, lifting) Max_in empty_iff)
  then obtain i where i: "i + longest_run g \<le> gcount g" "free_run g (longest_run g) i" by blast
  show ?thesis
  proof
    assume "N \<le> longest_run g"
    then show "\<exists>i. i + N \<le> gcount g \<and> free_run g N i" using i by (intro exI [of _ i]) (auto simp: free_run_def)
  next
    assume "\<exists>i. i + N \<le> gcount g \<and> free_run g N i"
    then show "N \<le> longest_run g" unfolding longest_run_def using fin by (intro Max_ge) auto
  qed
qed

lemma first_fit_exists: "n \<le> longest_run g \<Longrightarrow> \<exists>i. first_fit g n = Some i"
proof -
  assume "n \<le> longest_run g"
  then obtain r where "r + n \<le> gcount g" "free_run g n r" unfolding longest_run_iff by blast
  then have "first_fit g n \<noteq> None" unfolding first_fit_def first_from_None_iff by (auto simp: less_diff_conv less_Suc_eq_le)
  then show ?thesis by blast
qed

lemma run_after:
  assumes i: "first_fit g n = Some i" "0 < n" and N: "N \<le> longest_run g"
  shows "N - n \<le> longest_run (g\<lparr>gat := gat_or (gat g) i n\<rparr>)"
proof (cases "n \<le> N")
  case True
  obtain r where r: "r + N \<le> gcount g" "free_run g N r" using N unfolding longest_run_iff by blast
  have "free_run g n r" using r(2) True by (auto simp: free_run_def)
  then have "i \<le> r" using first_fit_Some(4) [OF i, of r] by (meson not_le)
  then have "free_run (g\<lparr>gat := gat_or (gat g) i n\<rparr>) (N - n) (r + n)"
    using r(2) True unfolding free_run_def by (auto simp: abit_gat_or)
  then show ?thesis using r(1) True unfolding longest_run_iff by (intro exI [of _ "r + n"]) simp
qed simp

lemma run_free: "0 < longest_run g \<Longrightarrow> 0 < free_count g"
proof -
  assume "0 < longest_run g"
  then have "1 \<le> longest_run g" by simp
  then obtain i where "i + 1 \<le> gcount g" "free_run g 1 i" unfolding longest_run_iff by blast
  then have "{i. i < gcount g \<and> \<not> abit (gat g) i} \<noteq> {}" by (auto simp: free_run_def Suc_le_eq)
  then show ?thesis unfolding free_count_def by (simp add: card_gt_0_iff)
qed

text \<open>Allocations do not move granules.\<close>

definition same_places :: "mm_gran \<Rightarrow> mm_gran \<Rightarrow> bool" where
  "same_places g g' \<longleftrightarrow> gran_addr g' = gran_addr g \<and> gcount g' = gcount g"

lemma gran_addr_gat [simp]: "gran_addr (g\<lparr>gat := t\<rparr>) = gran_addr g"
  by (intro ext) (simp add: gran_addr_def)

lemma pt_calloc_run:
  assumes h: "page_heap (heap st)" and r: "0 < longest_run (heap st)"
  shows "\<exists>q st'. pt_calloc PAGE_SIZE st = Some (q, st') \<and> longest_run (heap st) \<le> Suc (longest_run (heap st')) \<and>
    same_places (heap st) (heap st')"
proof -
  let ?g = "heap st"
  have g: "wf_gran ?g" "gshift ?g = 12" using h by (simp_all add: page_heap_def)
  have v: "valid_request ?g PAGE_SIZE" "granule_count ?g PAGE_SIZE = 1"
    using g(2) by (simp_all add: valid_request_def granule_count_def pg_values)
  have "1 \<le> longest_run ?g" using r by simp
  then obtain i where i: "first_fit ?g 1 = Some i" using first_fit_exists by blast
  have "pt_calloc PAGE_SIZE st = Some (gran_addr ?g i, \<lparr>words = zero_words (words st) (gran_addr ?g i) PAGE_SIZE, heap = ?g\<lparr>gat := gat_or (gat ?g) i 1\<rparr>\<rparr>)"
    unfolding pt_calloc_def gran_alloc_eq [OF g(1) v] i by simp
  then show ?thesis using run_after [OF i, of "longest_run ?g"] by (auto simp: same_places_def)
qed

section \<open>Kept pages\<close>

definition pages_kept :: "u64 set \<Rightarrow> mm_gran \<Rightarrow> bool" where
  "pages_kept X g \<longleftrightarrow> (\<forall>q \<in> X. kpage_ok q \<and> q \<notin> free_pages g)"

definition same_on :: "u64 set \<Rightarrow> tmem \<Rightarrow> tmem \<Rightarrow> bool" where
  "same_on X w w' \<longleftrightarrow> (\<forall>q \<in> X. \<forall>j < 512. w' (slot q j) = w (slot q j))"

interpretation ktr: table_alloc vbase_to_pbase pbase_to_vbase kpage_ok pt_calloc
  "\<lambda>st. page_heap (heap st) \<and> pages_kept X (heap st) \<and> same_on X w0 (words st) \<and> same_places g0 (heap st)"
  "\<lambda>g. free_pages g \<union> X" longest_run for X w0 g0
proof
  fix st :: kpts and q
  assume "page_heap (heap st) \<and> pages_kept X (heap st) \<and> same_on X w0 (words st) \<and> same_places g0 (heap st)" "q \<in> free_pages (heap st) \<union> X"
  then show "kpage_ok q" using free_page_addr(2) by (auto simp: free_pages_def pages_kept_def)
next
  fix st :: kpts and w :: tmem
  assume "page_heap (heap st) \<and> pages_kept X (heap st) \<and> same_on X w0 (words st) \<and> same_places g0 (heap st)"
    and "\<And>q j. q \<in> free_pages (heap st) \<union> X \<Longrightarrow> j < 512 \<Longrightarrow> w (slot q j) = words st (slot q j)"
  then show "page_heap (heap (st\<lparr>words := w\<rparr>)) \<and> pages_kept X (heap (st\<lparr>words := w\<rparr>)) \<and> same_on X w0 (words (st\<lparr>words := w\<rparr>)) \<and>
      same_places g0 (heap (st\<lparr>words := w\<rparr>))"
    by (simp add: same_on_def)
next
  fix st :: kpts
  assume h: "page_heap (heap st) \<and> pages_kept X (heap st) \<and> same_on X w0 (words st) \<and> same_places g0 (heap st)" and r: "0 < longest_run (heap st)"
  obtain q st' where c: "pt_calloc PAGE_SIZE st = Some (q, st')" and lr: "longest_run (heap st) \<le> Suc (longest_run (heap st'))" "same_places (heap st) (heap st')"
    using pt_calloc_run h r by blast
  then have p: "q \<in> free_pages (heap st) \<and> free_pages (heap st') \<subseteq> free_pages (heap st) - {q} \<and> page_heap (heap st') \<and>
      (\<forall>j < 512. words st' (slot q j) = 0) \<and> (\<forall>p j. page_aligned p \<longrightarrow> p \<noteq> q \<longrightarrow> j < 512 \<longrightarrow> words st' (slot p j) = words st (slot p j))"
    using pt_calloc_page [of st] run_free [OF r] h by auto
  have x: "page_aligned p \<and> p \<noteq> q" if "p \<in> X" for p using that h p by (auto simp: pages_kept_def kpage_ok_def)
  have "pages_kept X (heap st')" using h p by (auto simp: pages_kept_def)
  moreover have "same_on X w0 (words st')" using h p x by (simp add: same_on_def)
  moreover have "same_places g0 (heap st')" using h lr(2) by (simp add: same_places_def)
  moreover have "q \<notin> X" using x by blast
  ultimately show "\<exists>q st'. pt_calloc PAGE_SIZE st = Some (q, st') \<and> q \<in> free_pages (heap st) \<union> X \<and>
      free_pages (heap st') \<union> X \<subseteq> free_pages (heap st) \<union> X - {q} \<and> (page_heap (heap st') \<and> pages_kept X (heap st') \<and> same_on X w0 (words st') \<and> same_places g0 (heap st')) \<and>
      longest_run (heap st) \<le> Suc (longest_run (heap st')) \<and> (\<forall>j < 512. words st' (slot q j) = 0) \<and>
      (\<forall>p j. page_aligned p \<longrightarrow> p \<noteq> q \<longrightarrow> j < 512 \<longrightarrow> words st' (slot p j) = words st (slot p j))"
    using c lr(1) p by blast
qed

definition kept :: "u64 set \<Rightarrow> kpts \<Rightarrow> u64 \<Rightarrow> bool" where
  "kept X st P \<longleftrightarrow> pt_wf vbase_to_pbase pbase_to_vbase kpage_ok (words st) P (free_pages (heap st) \<union> X) \<and>
     page_heap (heap st) \<and> pages_kept X (heap st)"

lemma kept_tinv: "ktr.tinv X w0 g0 st P \<longleftrightarrow> kept X st P \<and> same_on X w0 (words st) \<and> same_places g0 (heap st)"
  by (auto simp: ktr.tinv_def kept_def)

lemma same_on_bytes:
  assumes "same_on X w w'" "\<And>q. q \<in> X \<Longrightarrow> kpage_ok q" "page_base a \<in> X"
  shows "bytes_of w' a = bytes_of w a"
  using assms by (intro page_bytes [OF _ _ refl]) (auto simp: same_on_def kpage_ok_def)

text \<open>Mapping a region for a user leaves kept pages alone.\<close>

lemma as_map_kept:
  assumes k: "kept X st P" and P: "P \<noteq> 0" and ok: "region_ok r 0" and t: "tables_for (vpn r) (r_size r) \<le> longest_run (heap st)"
    and no: "\<forall>l. touches r l \<longrightarrow> nosect pbase_to_vbase (words st) P l"
  shows "\<exists>st' at. as_map st P r prot RAM_NORMAL = Some st' \<and> kept X st' P \<and> same_on X (words st) (words st') \<and> same_places (heap st) (heap st') \<and>
    longest_run (heap st) \<le> longest_run (heap st') + tables_for (vpn r) (r_size r) \<and> user_perms prot at \<and>
    mapped pbase_to_vbase (words st) (words st') P (vpn r) (vpn r + pages_for (r_size r)) (r_pbase r) at"
proof -
  obtain at where at: "as_map_attr prot RAM_NORMAL = Some at" "at AND PA_MASK = 0" and perms: "user_perms prot (at AND ATTRS)"
    using as_map_attr_bits [of RAM_NORMAL prot] by (auto simp: user_perms_def)
  have q: "map_request (unat (r_vbase r) div 2 ^ 39) (r_vbase r) (r_pbase r) (r_size r) at (vpn r)"
    using ok at(2) by (simp add: region_ok_def map_request_def)
  have ti: "ktr.tinv X (words st) (heap st) st P" unfolding kept_tinv using k by (simp add: same_on_def same_places_def)
  have no': "\<forall>l. vpn r div 512 \<le> l \<longrightarrow> 512 * l < vpn r + pages_for (r_size r) \<longrightarrow> nosect pbase_to_vbase (words st) P l"
    using no by (auto simp: touches_def)
  have "\<exists>st'. pt_map pt_calloc st P (r_vbase r) (r_pbase r) (r_size r) at = Some st' \<and> ktr.tinv X (words st) (heap st) st' P \<and>
      longest_run (heap st) \<le> longest_run (heap st') + tables_for (vpn r) (r_size r) \<and>
      mapped pbase_to_vbase (words st) (words st') P (vpn r) (vpn r + pages_for (r_size r)) (r_pbase r) (at AND ATTRS)"
    unfolding pt_map_def using ktr.gen_pt_map_ok [OF ti P t q no'] .
  then show ?thesis using at(1) perms by (auto simp: as_map_def kept_tinv)
qed


text \<open>Writing bytes of kept pages leaves the tables alone, and the other kept pages.\<close>

lemma write_kept:
  assumes k: "kept X st P" and Y: "Y \<subseteq> X" and f: "\<And>a. page_base a \<notin> Y \<Longrightarrow> f (bytes_of (words st)) a = bytes_of (words st) a"
  shows "kept X (on_bytes f st) P" "same_xl pbase_to_vbase (words st) (words (on_bytes f st)) P"
proof -
  have wf: "pt_wf vbase_to_pbase pbase_to_vbase kpage_ok (words st) P (free_pages (heap st) \<union> X)" using k by (simp add: kept_def)
  have same: "same_tables pbase_to_vbase (words st) (words (on_bytes f st)) P"
    unfolding same_tables_def
  proof (intro allI impI)
    fix a p j assume p: "page_of pbase_to_vbase (words st) P a = Some p" and j: "j < (512 :: nat)"
    have "p \<notin> Y" using kt.wfD(5) [OF wf p] Y by blast
    then show "words (on_bytes f st) (slot p j) = words st (slot p j)"
      using f by (intro on_bytes_frame [OF kt.wfD(6) [OF wf p] j]) auto
  qed
  show "kept X (on_bytes f st) P" using kt.agree_wf [OF wf same] k by (simp add: kept_def)
  show "same_xl pbase_to_vbase (words st) (words (on_bytes f st)) P"
    by (rule same_xlI) (simp_all add: kt.agree_xl [OF wf same] kt.agree_pages [OF same])
qed

text \<open>Taking a block off the heap keeps its pages too.\<close>

definition block_pages :: "mm_gran \<Rightarrow> nat \<Rightarrow> nat \<Rightarrow> u64 set" where
  "block_pages g i n = gran_addr g ` {i..<i + n}"

lemma free_pages_or:
  assumes h: "page_heap g" and i: "i + n \<le> gcount g"
  shows "free_pages (g\<lparr>gat := gat_or (gat g) i n\<rparr>) = free_pages g - block_pages g i n"
proof -
  let ?S = "{j. j < gcount g \<and> \<not> abit (gat g) j}"
  have inj: "inj_on (gran_addr g) {..<gcount g}" using gran_addr_inj [OF h] by (auto intro: inj_onI)
  have "{j. j < gcount (g\<lparr>gat := gat_or (gat g) i n\<rparr>) \<and> \<not> abit (gat (g\<lparr>gat := gat_or (gat g) i n\<rparr>)) j} = ?S - {i..<i + n}"
    by (auto simp: abit_gat_or)
  moreover have "gran_addr g ` (?S - {i..<i + n}) = gran_addr g ` ?S - gran_addr g ` {i..<i + n}"
    using i by (intro inj_on_image_set_diff [OF inj]) auto
  ultimately show ?thesis by (simp add: free_pages_def block_pages_def)
qed

lemma free_pages_andnot:
  assumes "i < gcount g"
  shows "free_pages (g\<lparr>gat := gat_andnot (gat g) i 1\<rparr>) = free_pages g \<union> {gran_addr g i}"
proof -
  have "{j. j < gcount (g\<lparr>gat := gat_andnot (gat g) i 1\<rparr>) \<and> \<not> abit (gat (g\<lparr>gat := gat_andnot (gat g) i 1\<rparr>)) j} =
      {j. j < gcount g \<and> \<not> abit (gat g) j} \<union> {i}" using assms by (auto simp: abit_gat_andnot)
  then show ?thesis by (simp add: free_pages_def del: One_nat_def)
qed

lemma take_kept:
  assumes k: "kept X st P" and v: "valid_request (heap st) sz" and r: "pages_for sz \<le> longest_run (heap st)"
  obtains i g where "gran_alloc (heap st) sz = Some (gran_addr (heap st) i, g)" "gran_addr (heap st) i \<noteq> 0"
    "i + pages_for sz \<le> gcount (heap st)" "free_run (heap st) (pages_for sz) i" "gran_addr g = gran_addr (heap st)" "gcount g = gcount (heap st)"
    "kept (X \<union> block_pages (heap st) i (pages_for sz)) (st\<lparr>heap := g\<rparr>) P" "X \<inter> block_pages (heap st) i (pages_for sz) = {}"
    "longest_run (heap st) \<le> longest_run g + pages_for sz"
proof -
  let ?g = "heap st" and ?n = "pages_for sz"
  have h: "page_heap ?g" and wf: "pt_wf vbase_to_pbase pbase_to_vbase kpage_ok (words st) P (free_pages ?g \<union> X)" and X: "pages_kept X ?g"
    using k by (simp_all add: kept_def)
  have g: "wf_gran ?g" "gshift ?g = 12" using h by (simp_all add: page_heap_def)
  have n: "granule_count ?g sz = ?n" "0 < ?n" using page_count [OF g(2)] granules_for_eq(3) [OF g(1)] v by (auto simp: valid_request_def)
  obtain i where i: "first_fit ?g ?n = Some i" using first_fit_exists [OF r] by blast
  note f = first_fit_Some [OF i n(2)]
  let ?g' = "?g\<lparr>gat := gat_or (gat ?g) i ?n\<rparr>" and ?B = "block_pages ?g i ?n"
  have nz: "gran_addr ?g i \<noteq> 0" using f(1) by (intro gran_addr_nonzero [OF g(1)]) simp
  have call: "gran_alloc ?g sz = Some (gran_addr ?g i, ?g')" unfolding gran_alloc_eq [OF g(1) v n(1)] i by simp
  have B: "?B \<subseteq> free_pages ?g" using f(2,3) by (auto simp: block_pages_def free_pages_def free_run_def)
  have fr: "free_pages ?g' = free_pages ?g - ?B" by (rule free_pages_or [OF h f(2)])
  have ok: "kpage_ok q" if "q \<in> ?B" for q using that B free_page_addr(2) [OF h] by (auto simp: free_pages_def)
  have un: "free_pages ?g' \<union> (X \<union> ?B) = free_pages ?g \<union> X" using fr B by blast
  have pk: "pages_kept (X \<union> ?B) ?g'" using X ok fr by (auto simp: pages_kept_def)
  have "kept (X \<union> ?B) (st\<lparr>heap := ?g'\<rparr>) P" using wf h un pk by (simp add: kept_def page_heap_def)
  moreover have "X \<inter> ?B = {}" using X B by (auto simp: pages_kept_def)
  moreover have "longest_run ?g \<le> longest_run ?g' + ?n" using run_after [OF i n(2) order_refl] by simp
  ultimately show ?thesis using that [OF call nz f(2,3)] by simp
qed

lemma give_back_kept:
  assumes k: "kept X st P" and i: "i < gcount (heap st)" "gran_addr (heap st) i \<in> X" and sz: "0 < unat sz" "unat sz \<le> 4096"
  obtains g where "gran_free (heap st) (gran_addr (heap st) i) sz = Some g" "kept (X - {gran_addr (heap st) i}) (st\<lparr>heap := g\<rparr>) P"
    "gran_addr g = gran_addr (heap st)" "gcount g = gcount (heap st)"
proof -
  let ?g = "heap st" and ?q = "gran_addr (heap st) i"
  have h: "page_heap ?g" and wf: "pt_wf vbase_to_pbase pbase_to_vbase kpage_ok (words st) P (free_pages ?g \<union> X)" and X: "pages_kept X ?g"
    using k by (simp_all add: kept_def)
  have g: "wf_gran ?g" "gshift ?g = 12" using h by (simp_all add: page_heap_def)
  have n: "granule_count ?g sz = 1" using sz g(2) by (simp add: granule_count_def)
  have "?q \<notin> free_pages ?g" using X i(2) by (auto simp: pages_kept_def)
  then have "abit (gat ?g) i" using i(1) by (auto simp: free_pages_def)
  then have u: "used_run ?g 1 i" by (simp add: used_run_def)
  let ?g' = "?g\<lparr>gat := gat_andnot (gat ?g) i 1\<rparr>"
  have call: "gran_free ?g ?q sz = Some ?g'" using gran_free_eq [OF g(1) i(1) _ n] sz g(2) u by simp
  have fr: "free_pages ?g' = free_pages ?g \<union> {?q}" by (rule free_pages_andnot [OF i(1)])
  have "free_pages ?g' \<union> (X - {?q}) = free_pages ?g \<union> X" using fr i(2) by blast
  moreover have "pages_kept (X - {?q}) ?g'" using X fr by (auto simp: pages_kept_def)
  ultimately have "kept (X - {?q}) (st\<lparr>heap := ?g'\<rparr>) P" using wf h by (simp add: kept_def page_heap_def)
  then show ?thesis using that [OF call] by simp
qed

lemma block_byte:
  assumes "page_heap g" "i + n \<le> gcount g" "k < 4096 * n"
  shows "page_base (gran_addr g i + word_of_nat k) = gran_addr g (i + k div 4096)" "gran_addr g (i + k div 4096) \<in> block_pages g i n"
proof -
  have d: "k div 4096 < n" using assms(3) by (simp add: less_mult_imp_div_less mult.commute)
  have al: "page_aligned (gran_addr g (i + k div 4096))" using free_page_addr(2) [OF assms(1)] assms(2) d by (simp add: kpage_ok_def)
  have s: "gshift g = 12" using assms(1) by (simp add: page_heap_def)
  have "gran_addr g i + word_of_nat k = gran_addr g (i + k div 4096) + word_of_nat (k mod 4096)"
  proof -
    have "k = k div 4096 * 4096 + k mod 4096" by simp
    then have "(word_of_nat k :: u64) = word_of_nat (k div 4096 * 4096) + word_of_nat (k mod 4096)" by (metis of_nat_add)
    then show ?thesis by (simp add: gran_addr_def s algebra_simps)
  qed
  then show "page_base (gran_addr g i + word_of_nat k) = gran_addr g (i + k div 4096)" using page_base_add [OF al, of "k mod 4096"] by simp
  show "gran_addr g (i + k div 4096) \<in> block_pages g i n" using d by (auto simp: block_pages_def)
qed

end
