(* ===== verification/K_Elf.thy ===== *)
theory K_Elf
  imports K_Reserve
begin

text \<open>
  The ELF loader, \<^verbatim>\<open>os/lib/libelf\<close> (\<^verbatim>\<open>elf_loader.c\<close>, \<^verbatim>\<open>elf64.c\<close>, \<^verbatim>\<open>arch/aarch64/arch_elf.c\<close>).  Headers
  and segment contents are read from the bytes of the image in memory; segments are copied into
  blocks of the granule heap, which are then mapped for the task.

  The state is the memory with the granule heap, and the control block of the task.  A list of segments is the
  sequence of its elements from the head on; the descriptor of a segment is a block of the heap whose address is
  part of the element and whose bytes are not modelled.  A division by an alignment of zero is undefined,
  \<open>None\<close>, as is clearing a block that could not be allocated.  Messages are left out.
\<close>

unbundle bit_operations_syntax

section \<open>File format\<close>

definition EI_CLASS :: nat where "EI_CLASS = 4"
definition EI_DATA :: nat where "EI_DATA = 5"
definition EI_VERSION :: nat where "EI_VERSION = 6"
definition ELFCLASS64 :: u8 where "ELFCLASS64 = 2"
definition ELFDATA2LSB :: u8 where "ELFDATA2LSB = 1"
definition ET_REL :: u16 where "ET_REL = 1"
definition ET_EXEC :: u16 where "ET_EXEC = 2"
definition ET_DYN :: u16 where "ET_DYN = 3"
definition EM_ARM64 :: u16 where "EM_ARM64 = 183"
definition PT_NULL :: u64 where "PT_NULL = 0"
definition PT_LOAD :: u64 where "PT_LOAD = 1"
definition PT_DYNAMIC :: u64 where "PT_DYNAMIC = 2"
definition PT_INTERP :: u64 where "PT_INTERP = 3"
definition PF_X :: u32 where "PF_X = 1"
definition PF_W :: u32 where "PF_W = 2"
definition PF_R :: u32 where "PF_R = 4"
definition ENOEXEC :: u64 where "ENOEXEC = 8"

record Elf64_Ehdr =
  h_ident :: "nat \<Rightarrow> u8"
  h_type :: u16
  h_machine :: u16
  h_version :: u32
  h_entry :: u64
  h_phoff :: u64
  h_shoff :: u64
  h_flags :: u32
  h_ehsize :: u16
  h_phentsize :: u16
  h_phnum :: u16
  h_shentsize :: u16
  h_shnum :: u16
  h_shstrndx :: u16

record Elf64_Phdr =
  p_type :: u32
  p_flags :: u32
  p_offset :: u64
  p_vaddr :: u64
  p_paddr :: u64
  p_filesz :: u64
  p_memsz :: u64
  p_align :: u64

definition SIZEOF_EHDR :: nat where "SIZEOF_EHDR = 64"
definition SIZEOF_PHDR :: nat where "SIZEOF_PHDR = 56"
definition SIZEOF_SHDR :: nat where "SIZEOF_SHDR = 64"

definition read_ehdr :: "bmem \<Rightarrow> u64 \<Rightarrow> Elf64_Ehdr" where
  "read_ehdr m a =
     \<lparr>h_ident = (\<lambda>i. m (a + word_of_nat i)),
      h_type = ucast (load_le 2 m (a + 16)),
      h_machine = ucast (load_le 2 m (a + 18)),
      h_version = ucast (load_le 4 m (a + 20)),
      h_entry = load_le 8 m (a + 24),
      h_phoff = load_le 8 m (a + 32),
      h_shoff = load_le 8 m (a + 40),
      h_flags = ucast (load_le 4 m (a + 48)),
      h_ehsize = ucast (load_le 2 m (a + 52)),
      h_phentsize = ucast (load_le 2 m (a + 54)),
      h_phnum = ucast (load_le 2 m (a + 56)),
      h_shentsize = ucast (load_le 2 m (a + 58)),
      h_shnum = ucast (load_le 2 m (a + 60)),
      h_shstrndx = ucast (load_le 2 m (a + 62))\<rparr>"

definition read_phdr :: "bmem \<Rightarrow> u64 \<Rightarrow> Elf64_Phdr" where
  "read_phdr m a =
     \<lparr>p_type = ucast (load_le 4 m a),
      p_flags = ucast (load_le 4 m (a + 4)),
      p_offset = load_le 8 m (a + 8),
      p_vaddr = load_le 8 m (a + 16),
      p_paddr = load_le 8 m (a + 24),
      p_filesz = load_le 8 m (a + 32),
      p_memsz = load_le 8 m (a + 40),
      p_align = load_le 8 m (a + 48)\<rparr>"

section \<open>Header checks\<close>

definition elf64_header_check :: "Elf64_Ehdr option \<Rightarrow> 32 word" where
  "elf64_header_check h =
     (case h of None \<Rightarrow> - 1 | Some hdr \<Rightarrow>
      if h_ident hdr 0 \<noteq> 0x7F \<or> h_ident hdr 1 \<noteq> 0x45 \<or> h_ident hdr 2 \<noteq> 0x4C \<or> h_ident hdr 3 \<noteq> 0x46 then - 1
      else if h_ident hdr EI_CLASS \<noteq> ELFCLASS64 then - 1
      else if h_type hdr \<noteq> ET_DYN \<and> h_type hdr \<noteq> ET_REL \<and> h_type hdr \<noteq> ET_EXEC then - 1
      else if unat (h_phentsize hdr) \<noteq> SIZEOF_PHDR then - 1
      else if unat (h_phnum hdr) < 1 \<or> unat (h_phnum hdr) > 65536 div SIZEOF_PHDR then - 1
      else if unat (h_shentsize hdr) \<noteq> SIZEOF_SHDR then - 1
      else if unat (h_shnum hdr) < 1 then - 1
      else if h_shstrndx hdr \<ge> h_shnum hdr then - 1
      else 0)"

definition elf_arch_check :: "Elf64_Ehdr option \<Rightarrow> 32 word" where
  "elf_arch_check h =
     (case h of None \<Rightarrow> - 1 | Some hdr \<Rightarrow>
      if h_ident hdr EI_CLASS \<noteq> ELFCLASS64 then - 1
      else if h_ident hdr EI_DATA \<noteq> ELFDATA2LSB then - 1
      else if h_ident hdr EI_VERSION \<noteq> 1 then - 1
      else if h_machine hdr \<noteq> EM_ARM64 then - 1
      else 0)"

section \<open>Segments\<close>

record segment =
  s_block :: u64
  s_type :: u64
  s_offset :: u64
  s_vaddr :: u64
  s_filesz :: u64
  s_memsz :: u64
  s_flags :: u32
  s_align :: u64
  s_remapped_writeable :: bool

text \<open>\<^verbatim>\<open>sizeof(struct segment)\<close> in the LP64 layout.\<close>

definition SIZEOF_SEGMENT :: u64 where "SIZEOF_SEGMENT = 80"

record chin_elf =
  need_interpreter :: bool
  is_64bit :: bool
  buffer :: u64
  elf_size :: u64
  e_type :: u16
  e_entry :: u64
  e_phoff :: u64
  e_shoff :: u64
  e_phnum :: u32
  e_shnum :: u32
  e_phentsize :: u32
  e_shentsize :: u32
  shdr :: u64
  phdr :: u64
  elf_segs :: "segment list"

definition elf_calloc :: "u64 \<Rightarrow> kpts \<Rightarrow> (u64 \<times> kpts) option" where
  "elf_calloc sz st = do {
     (p, g) \<leftarrow> gran_alloc (heap st) sz;
     k_assert (p \<noteq> 0);
     Some (p, on_bytes (\<lambda>m. k_memset m p 0 sz) (st\<lparr>heap := g\<rparr>))
   }"

definition elf_free :: "u64 \<Rightarrow> u64 \<Rightarrow> kpts \<Rightarrow> kpts option" where
  "elf_free p sz st = do { g \<leftarrow> gran_free (heap st) p sz; Some (st\<lparr>heap := g\<rparr>) }"

definition segment_stack_push :: "segment \<Rightarrow> chin_elf \<Rightarrow> chin_elf" where
  "segment_stack_push sg elf = elf\<lparr>elf_segs := sg # elf_segs elf\<rparr>"

fun remove_segs :: "segment list \<Rightarrow> kpts \<Rightarrow> kpts option" where
  "remove_segs [] st = Some st"
| "remove_segs (sg # rest) st = do { st \<leftarrow> elf_free (s_block sg) SIZEOF_SEGMENT st; remove_segs rest st }"

definition remove_segments :: "chin_elf \<Rightarrow> kpts \<Rightarrow> (chin_elf \<times> kpts) option" where
  "remove_segments elf st = do { st \<leftarrow> remove_segs (elf_segs elf) st; Some (elf\<lparr>elf_segs := []\<rparr>, st) }"

definition add_segment ::
  "chin_elf \<Rightarrow> u64 \<Rightarrow> u64 \<Rightarrow> u64 \<Rightarrow> u64 \<Rightarrow> u64 \<Rightarrow> u64 \<Rightarrow> u64 \<Rightarrow> kpts \<Rightarrow> (chin_elf \<times> kpts) option" where
  "add_segment elf typ offset vaddr filesz memsz flags align st = do {
     (p, st) \<leftarrow> elf_calloc SIZEOF_SEGMENT st;
     if memsz < filesz then Some (elf, st)
     else
       let sg = \<lparr>s_block = p, s_type = typ, s_offset = offset, s_vaddr = vaddr, s_filesz = filesz, s_memsz = memsz,
                  s_flags = ucast flags, s_align = align, s_remapped_writeable = False\<rparr>;
           sg = (if s_flags sg AND PF_W \<noteq> 0 then sg\<lparr>s_remapped_writeable := True\<rparr> else sg)
       in Some (segment_stack_push sg elf, st)
   }"

fun load_loop :: "chin_elf \<Rightarrow> nat list \<Rightarrow> kpts \<Rightarrow> (chin_elf \<times> kpts) option" where
  "load_loop elf [] st = Some (elf, st)"
| "load_loop elf (n # ns) st =
     (let ph = read_phdr (bytes_of (words st)) (phdr elf + word_of_nat (n * SIZEOF_PHDR));
          typ = ucast (p_type ph)
      in if typ = PT_NULL then PANIC
         else if typ = PT_LOAD \<or> typ = PT_DYNAMIC then do {
           (elf, st) \<leftarrow> add_segment elf typ (p_offset ph) (p_vaddr ph) (p_filesz ph) (p_memsz ph)
                         (ucast (p_flags ph)) (p_align ph) st;
           load_loop elf ns st
         }
         else if typ = PT_INTERP then load_loop (elf\<lparr>need_interpreter := True\<rparr>) ns st
         else load_loop elf ns st)"

definition load_segments :: "chin_elf \<Rightarrow> kpts \<Rightarrow> (chin_elf \<times> kpts) option" where
  "load_segments elf st = (if is_64bit elf then load_loop elf [0..<unat (e_phnum elf)] st else Some (elf, st))"

definition copy_segment :: "chin_elf \<Rightarrow> segment \<Rightarrow> kpts \<Rightarrow> 32 word \<times> kpts" where
  "copy_segment elf sg st =
     (let filesize = s_filesz sg; mem_size = s_memsz sg; addr = s_vaddr sg
      in if mem_size < filesize then (ucast (- EINVAL), st)
         else let buff = buffer elf + s_offset sg
         in if s_flags sg \<noteq> PF_R OR PF_X \<and> s_flags sg \<noteq> PF_R OR PF_W then (ucast (- EINVAL), st)
         else let st = on_bytes (\<lambda>m. k_memcpy m addr buff filesize) st;
                  st = (if mem_size > filesize
                        then on_bytes (\<lambda>m. k_memset m (addr + filesize) 0 (mem_size - filesize)) st else st)
              in (0, st))"

definition elf_prot :: "u32 \<Rightarrow> u32" where
  "elf_prot flags =
     (let prot = 0;
          prot = (if flags AND PF_R \<noteq> 0 then prot OR PROT_READ else prot);
          prot = (if flags AND PF_W \<noteq> 0 then prot OR PROT_WRITE else prot);
          prot = (if flags AND PF_X \<noteq> 0 then prot OR PROT_EXEC else prot)
      in prot)"

definition elf_map :: "u64 \<Rightarrow> u64 \<Rightarrow> u64 \<Rightarrow> u32 \<Rightarrow> kpts \<Rightarrow> (u64 \<times> kpts) option" where
  "elf_map addrspace vaddr sz flags st = do {
     (addr, st) \<leftarrow> elf_calloc sz st;
     let elf_region = \<lparr>r_pbase = vbase_to_pbase addr, r_vbase = vaddr, r_size = sz\<rparr>;
     st \<leftarrow> as_map st addrspace elf_region (elf_prot flags) RAM_NORMAL;
     Some (addr, st)
   }"

text \<open>The memory descriptor after the bounds of a loadable segment were noted.\<close>

definition note_segment :: "tcb \<Rightarrow> segment \<Rightarrow> tcb option" where
  "note_segment task sg =
     (if s_flags sg = PF_R OR PF_X then
        Some (task\<lparr>t_mm := (t_mm task)\<lparr>start_code := s_vaddr sg, end_code := s_vaddr sg + s_memsz sg,
          start_stack := t_stack task, end_stack := t_stack task + ucast (t_stack_size task), mmap_base := t_stack task\<rparr>\<rparr>)
      else if s_flags sg = PF_R OR PF_W then
        Some (task\<lparr>t_mm := (t_mm task)\<lparr>start_data := s_vaddr sg, end_data := s_vaddr sg + s_filesz sg,
          start_bss := s_vaddr sg + s_filesz sg, end_bss := s_vaddr sg + s_memsz sg,
          start_brk := PAGE_ALIGN (s_vaddr sg + s_memsz sg), brk := PAGE_ALIGN (s_vaddr sg + s_memsz sg)\<rparr>\<rparr>)
      else PANIC)"

fun populate_loop :: "chin_elf \<Rightarrow> segment list \<Rightarrow> tcb \<Rightarrow> kpts \<Rightarrow> (segment list \<times> tcb \<times> kpts) option" where
  "populate_loop elf [] task st = Some ([], task, st)"
| "populate_loop elf (sg # rest) task st =
     (if s_type sg = PT_LOAD then do {
        task \<leftarrow> note_segment task sg;
        k_assert (s_align sg \<noteq> 0);
        let align_addr = s_vaddr sg div s_align sg * s_align sg;
        let align_size = s_vaddr sg mod s_align sg + s_memsz sg;
        (addr, st) \<leftarrow> elf_map (t_addrspace task) align_addr (ALIGN align_size (s_align sg)) (s_flags sg) st;
        let sg = sg\<lparr>s_vaddr := addr\<rparr>;
        let (_, st) = copy_segment elf sg st;
        (ds, task, st) \<leftarrow> populate_loop elf rest task st;
        Some (sg # ds, task, st)
      } else do {
        (ds, task, st) \<leftarrow> populate_loop elf rest task st;
        Some (sg # ds, task, st)
      })"

definition populate_segments :: "tcb \<Rightarrow> chin_elf \<Rightarrow> kpts \<Rightarrow> (chin_elf \<times> tcb \<times> kpts) option" where
  "populate_segments task elf st = do {
     (ds, task, st) \<leftarrow> populate_loop elf (elf_segs elf) task st;
     Some (elf\<lparr>elf_segs := ds\<rparr>, task, st)
   }"

definition elf_initialize :: "tcb \<Rightarrow> chin_elf \<Rightarrow> kpts \<Rightarrow> (32 word \<times> tcb \<times> chin_elf \<times> kpts) option" where
  "elf_initialize task elf st = do {
     k_assert (buffer elf \<noteq> 0 \<and> elf_size elf \<noteq> 0);
     let elf_header = read_ehdr (bytes_of (words st)) (buffer elf);
     let ret = elf64_header_check (Some elf_header);
     let elf = elf\<lparr>is_64bit := True\<rparr>;
     if ret <s 0 then Some (ucast (- ENOEXEC), task, elf, st)
     else let ret = elf_arch_check (Some elf_header) in
       if ret <s 0 then Some (ucast (- ENOEXEC), task, elf, st)
       else do {
         let elf = elf\<lparr>shdr := buffer elf + h_shoff elf_header, phdr := buffer elf + h_phoff elf_header,
           e_type := h_type elf_header, e_entry := h_entry elf_header, e_phoff := h_phoff elf_header, e_shoff := h_shoff elf_header,
           e_phnum := ucast (h_phnum elf_header), e_shnum := ucast (h_shnum elf_header),
           e_phentsize := ucast (h_phentsize elf_header), e_shentsize := ucast (h_shentsize elf_header)\<rparr>;
         let task = task\<lparr>t_context := context_set_entry (t_context task) (e_entry elf)\<rparr>;
         (elf, st) \<leftarrow> load_segments elf st;
         (elf, task, st) \<leftarrow> populate_segments task elf st;
         (elf, st) \<leftarrow> remove_segments elf st;
         Some (ret, task, elf, st)
       }
   }"

end
