(* ===== verification/K_Load.thy ===== *)
theory K_Load
  imports K_Elf
begin

text \<open>
  Correctness of the ELF loader.  For an image whose program headers are in order and a heap with enough
  consecutive free granules, loading returns, and every byte of every loadable segment is found through the page
  table of the task, from the file or zero, with the permissions of the segment, while the image and
  everything else that was in use is unchanged.
\<close>

unbundle bit_operations_syntax

section \<open>Blocks for descriptors and contents\<close>

text \<open>
  \<open>frame X st st'\<close>: from \<open>st\<close> to \<open>st'\<close> the bytes of \<open>X\<close> did not change, nor did granules move.
\<close>

definition frame :: "u64 set \<Rightarrow> kpts \<Rightarrow> kpts \<Rightarrow> bool" where
  "frame X st st' \<longleftrightarrow> (\<forall>a. page_base a \<in> X \<longrightarrow> bytes_of (words st') a = bytes_of (words st) a) \<and>
     same_places (heap st) (heap st')"

lemma frame_refl [simp]: "frame X st st"
  by (simp add: frame_def same_places_def)

lemma frame_trans: "frame X st st1 \<Longrightarrow> frame Y st1 st2 \<Longrightarrow> X \<subseteq> Y \<Longrightarrow> frame X st st2"
  by (auto simp: frame_def same_places_def subset_iff)

lemma block_range:
  assumes "page_heap g" "i + n \<le> gcount g" "unat (a - gran_addr g i) < 4096 * n"
  shows "page_base a \<in> block_pages g i n"
proof -
  have "gran_addr g i + word_of_nat (unat (a - gran_addr g i)) = a" by simp
  then show ?thesis using block_byte [OF assms] by metis
qed

lemma elf_calloc_kept:
  assumes k: "kept X st P" and v: "valid_request (heap st) sz" and r: "pages_for sz \<le> longest_run (heap st)"
  obtains i st1 where "elf_calloc sz st = Some (gran_addr (heap st) i, st1)" "i + pages_for sz \<le> gcount (heap st)" "free_run (heap st) (pages_for sz) i"
    "kept (X \<union> block_pages (heap st) i (pages_for sz)) st1 P" "X \<inter> block_pages (heap st) i (pages_for sz) = {}"
    "frame X st st1" "same_xl pbase_to_vbase (words st) (words st1) P" "longest_run (heap st) \<le> longest_run (heap st1) + pages_for sz"
proof -
  let ?n = "pages_for sz"
  obtain i g where g: "gran_alloc (heap st) sz = Some (gran_addr (heap st) i, g)" "gran_addr (heap st) i \<noteq> 0"
    "i + ?n \<le> gcount (heap st)" "free_run (heap st) ?n i" "gran_addr g = gran_addr (heap st)" "gcount g = gcount (heap st)"
    "kept (X \<union> block_pages (heap st) i ?n) (st\<lparr>heap := g\<rparr>) P" "X \<inter> block_pages (heap st) i ?n = {}"
    "longest_run (heap st) \<le> longest_run g + ?n" by (rule take_kept [OF k v r])
  let ?b = "gran_addr (heap st) i" and ?B = "block_pages (heap st) i ?n" and ?s = "st\<lparr>heap := g\<rparr>"
  define f where "f = (\<lambda>m. k_memset m ?b 0 sz)"
  have h: "page_heap (heap st)" using k by (simp add: kept_def)
  have sz: "unat sz \<le> 4096 * ?n" unfolding pages_for_def by linarith
  have f: "f m a = m a" if "page_base a \<notin> ?B" for m a
    using that block_range [OF h g(3), of a] sz unfolding f_def by (auto simp: k_memset_fill fill_def)
  note w = write_kept [OF g(7) Un_upper2, where f = f, OF f]
  have call: "elf_calloc sz st = Some (?b, on_bytes f ?s)" unfolding elf_calloc_def g(1) f_def using g(2) by simp
  have fr: "frame X st (on_bytes f ?s)"
    unfolding frame_def same_places_def using f g(5,6,8) by auto
  show ?thesis using that [OF call g(3,4) w(1) g(8) fr] w(2) g(9) by simp
qed

section \<open>Program headers\<close>

definition elf_phdrs :: "bmem \<Rightarrow> u64 \<Rightarrow> Elf64_Phdr list" where
  "elf_phdrs m buf = (let hdr = read_ehdr m buf in
     map (\<lambda>n. read_phdr m (buf + h_phoff hdr + word_of_nat (n * SIZEOF_PHDR))) [0..<unat (h_phnum hdr)])"

definition listed :: "Elf64_Phdr \<Rightarrow> bool" where
  "listed ph \<longleftrightarrow> ucast (p_type ph) = PT_LOAD \<or> ucast (p_type ph) = PT_DYNAMIC"

definition describes :: "segment \<Rightarrow> Elf64_Phdr \<Rightarrow> bool" where
  "describes sg ph \<longleftrightarrow> s_type sg = ucast (p_type ph) \<and> s_offset sg = p_offset ph \<and> s_vaddr sg = p_vaddr ph \<and>
     s_filesz sg = p_filesz ph \<and> s_memsz sg = p_memsz ph \<and> s_flags sg = p_flags ph \<and> s_align sg = p_align ph"

lemma load_le_cong: "(\<And>k. k < n \<Longrightarrow> m' (a + word_of_nat k) = m (a + word_of_nat k)) \<Longrightarrow> load_le n m' a = load_le n m a"
proof (induction n arbitrary: a)
  case (Suc n)
  have "load_le n m' (a + 1) = load_le n m (a + 1)"
    using Suc.prems [of "Suc _"] by (intro Suc.IH) (simp add: algebra_simps)
  moreover have "m' a = m a" using Suc.prems [of 0] by simp
  ultimately show ?case by simp
qed simp

lemma read_phdr_cong:
  assumes "\<And>k. k < 56 \<Longrightarrow> m' (a + word_of_nat k) = m (a + word_of_nat k)"
  shows "read_phdr m' a = read_phdr m a"
proof -
  have "load_le n m' (a + word_of_nat j) = load_le n m (a + word_of_nat j)" if "j + n \<le> 56" for n j
    using assms [of "j + _"] that by (intro load_le_cong) (simp add: algebra_simps)
  from this [of 0 4] this [of 4 4] this [of 8 8] this [of 16 8] this [of 24 8] this [of 32 8] this [of 40 8] this [of 48 8]
  show ?thesis by (simp add: read_phdr_def)
qed


lemma elf_calloc_segment:
  assumes k: "kept X st P" and r: "0 < longest_run (heap st)"
  obtains i st1 where "elf_calloc SIZEOF_SEGMENT st = Some (gran_addr (heap st) i, st1)" "i < gcount (heap st)"
    "kept (insert (gran_addr (heap st) i) X) st1 P" "gran_addr (heap st) i \<notin> X"
    "frame X st st1" "same_xl pbase_to_vbase (words st) (words st1) P" "longest_run (heap st) \<le> Suc (longest_run (heap st1))"
proof -
  have n: "pages_for SIZEOF_SEGMENT = 1" by (simp add: pages_for_def SIZEOF_SEGMENT_def)
  have v: "valid_request (heap st) SIZEOF_SEGMENT" using k by (simp add: kept_def page_heap_def valid_request_def SIZEOF_SEGMENT_def)
  have r': "pages_for SIZEOF_SEGMENT \<le> longest_run (heap st)" using r n by simp
  have b: "block_pages g i (Suc 0) = {gran_addr g i}" for g i by (auto simp: block_pages_def)
  show ?thesis by (rule elf_calloc_kept [OF k v r']) (use that in \<open>auto simp: n b Suc_le_eq\<close>)
qed

definition descriptor :: "u64 \<Rightarrow> Elf64_Phdr \<Rightarrow> segment" where
  "descriptor b ph = \<lparr>s_block = b, s_type = ucast (p_type ph), s_offset = p_offset ph, s_vaddr = p_vaddr ph, s_filesz = p_filesz ph,
     s_memsz = p_memsz ph, s_flags = p_flags ph, s_align = p_align ph, s_remapped_writeable = (p_flags ph AND PF_W \<noteq> 0)\<rparr>"

lemma add_segment_eq:
  assumes "elf_calloc SIZEOF_SEGMENT st = Some (b, st1)"
  shows "add_segment elf (ucast (p_type ph)) (p_offset ph) (p_vaddr ph) (p_filesz ph) (p_memsz ph) (ucast (p_flags ph)) (p_align ph) st =
    Some (if p_memsz ph < p_filesz ph then elf else elf\<lparr>elf_segs := descriptor b ph # elf_segs elf\<rparr>, st1)"
proof -
  have "ucast (ucast (p_flags ph) :: u64) = p_flags ph" by (rule bit_word_eqI) (auto simp: bit_simps)
  then show ?thesis by (simp add: add_segment_def assms descriptor_def segment_stack_push_def Let_def)
qed

lemma load_loop_ok:
  fixes a0 :: u64 and m0 :: bmem
  defines "ph \<equiv> \<lambda>n. read_phdr m0 (a0 + word_of_nat (n * SIZEOF_PHDR))"
  assumes "kept X st P" "phdr elf = a0" "\<forall>n \<in> set ns. ucast (p_type (ph n)) \<noteq> PT_NULL"
    "\<forall>n \<in> set ns. \<forall>k < 56. page_base (a0 + word_of_nat (n * SIZEOF_PHDR) + word_of_nat k) \<in> IM"
    "\<forall>a. page_base a \<in> IM \<longrightarrow> bytes_of (words st) a = m0 a" "IM \<subseteq> X" "length (filter listed (map ph ns)) \<le> longest_run (heap st)"
  shows "\<exists>elf' st' D Y. load_loop elf ns st = Some (elf', st') \<and> elf_segs elf' = rev D @ elf_segs elf \<and>
    list_all2 describes D (filter (\<lambda>p. listed p \<and> p_filesz p \<le> p_memsz p) (map ph ns)) \<and> buffer elf' = buffer elf \<and>
    distinct (map s_block D) \<and> s_block ` set D \<subseteq> Y \<and> Y \<inter> X = {} \<and> Y \<subseteq> gran_addr (heap st) ` {..<gcount (heap st)} \<and>
    kept (X \<union> Y) st' P \<and> frame X st st' \<and> same_xl pbase_to_vbase (words st) (words st') P \<and>
    longest_run (heap st) \<le> longest_run (heap st') + length (filter listed (map ph ns))"
  using assms(2-)
proof (induction ns arbitrary: X elf st)
  case Nil
  show ?case by (rule exI [of _ elf], rule exI [of _ st], rule exI [of _ "[]"], rule exI [of _ "{}"]) (use Nil.prems in \<open>simp add: same_xl_def\<close>)
next
  case (Cons n ns)
  have rd: "read_phdr (bytes_of (words st)) (phdr elf + word_of_nat (n * SIZEOF_PHDR)) = ph n"
    unfolding ph_def Cons.prems(2) using Cons.prems(4,5) by (intro read_phdr_cong) auto
  have nn: "ucast (p_type (ph n)) \<noteq> PT_NULL" using Cons.prems(3) by simp
  show ?case
  proof (cases "listed (ph n)")
    case False
    then have skip: "load_loop elf (n # ns) st = load_loop (if ucast (p_type (ph n)) = PT_INTERP then elf\<lparr>need_interpreter := True\<rparr> else elf) ns st"
      unfolding load_loop.simps rd Let_def using nn by (simp add: listed_def)
    let ?e = "if ucast (p_type (ph n)) = PT_INTERP then elf\<lparr>need_interpreter := True\<rparr> else elf"
    have e: "elf_segs ?e = elf_segs elf" "buffer ?e = buffer elf" "phdr ?e = phdr elf" by auto
    have "length (filter listed (map ph ns)) \<le> longest_run (heap st)" using Cons.prems(7) False by simp
    then show ?thesis unfolding skip using Cons.IH [of X st ?e] Cons.prems False by (simp add: e)
  next
    case True
    then have r: "0 < longest_run (heap st)" using Cons.prems(7) True by simp
    obtain i st1 where c: "elf_calloc SIZEOF_SEGMENT st = Some (gran_addr (heap st) i, st1)" "i < gcount (heap st)"
      "kept (insert (gran_addr (heap st) i) X) st1 P" "gran_addr (heap st) i \<notin> X"
      "frame X st st1" "same_xl pbase_to_vbase (words st) (words st1) P" "longest_run (heap st) \<le> Suc (longest_run (heap st1))"
      by (rule elf_calloc_segment [OF Cons.prems(1) r])
    let ?b = "gran_addr (heap st) i" and ?p = "ph n"
    define sg where "sg = descriptor ?b ?p"
    have sg: "s_block sg = ?b" "describes sg ?p" by (simp_all add: sg_def descriptor_def describes_def)
    note add = add_segment_eq [OF c(1), of elf ?p, folded sg_def]
    let ?e = "if p_memsz ?p < p_filesz ?p then elf else elf\<lparr>elf_segs := sg # elf_segs elf\<rparr>"
    have go: "load_loop elf (n # ns) st = load_loop ?e ns st1" unfolding load_loop.simps rd Let_def using True nn by (simp add: listed_def add)
    have e: "phdr ?e = a0" "buffer ?e = buffer elf" using Cons.prems(2) by simp_all
    have m1: "\<forall>a. page_base a \<in> IM \<longrightarrow> bytes_of (words st1) a = m0 a" using Cons.prems(5,6) c(5) by (auto simp: frame_def)
    have r1: "length (filter listed (map ph ns)) \<le> longest_run (heap st1)" using Cons.prems(7) c(7) True by simp
    have t1: "\<forall>n \<in> set ns. ucast (p_type (ph n)) \<noteq> PT_NULL"
      and i1: "\<forall>n \<in> set ns. \<forall>k < 56. page_base (a0 + word_of_nat (n * SIZEOF_PHDR) + word_of_nat k) \<in> IM"
      and x1: "IM \<subseteq> insert ?b X" using Cons.prems(3,4,6) by auto
    obtain elf' st' D Y where ih: "load_loop ?e ns st1 = Some (elf', st')" "elf_segs elf' = rev D @ elf_segs ?e"
        "list_all2 describes D (filter (\<lambda>p. listed p \<and> p_filesz p \<le> p_memsz p) (map ph ns))" "buffer elf' = buffer ?e"
        "distinct (map s_block D)" "s_block ` set D \<subseteq> Y" "Y \<inter> insert ?b X = {}" "Y \<subseteq> gran_addr (heap st1) ` {..<gcount (heap st1)}"
        "kept (insert ?b X \<union> Y) st' P" "frame (insert ?b X) st1 st'" "same_xl pbase_to_vbase (words st1) (words st') P"
        "longest_run (heap st1) \<le> longest_run (heap st') + length (filter listed (map ph ns))"
      using Cons.IH [OF c(3) e(1) t1 i1 m1 x1 r1] by blast
    let ?D = "if p_memsz ?p < p_filesz ?p then D else sg # D"
    have un: "X \<union> insert ?b Y = insert ?b X \<union> Y" by blast
    have "elf_segs elf' = rev ?D @ elf_segs elf" using ih(2) by simp
    moreover have "list_all2 describes ?D (filter (\<lambda>p. listed p \<and> p_filesz p \<le> p_memsz p) (map ph (n # ns)))"
      using ih(3) sg(2) True by (auto simp: not_less)
    moreover have "distinct (map s_block ?D)" "s_block ` set ?D \<subseteq> insert ?b Y" using ih(5,6,7) sg(1) by auto
    moreover have "insert ?b Y \<inter> X = {}" using ih(7) c(4) by blast
    moreover have "insert ?b Y \<subseteq> gran_addr (heap st) ` {..<gcount (heap st)}" using ih(8) c(2,5) by (auto simp: frame_def same_places_def)
    moreover have "kept (X \<union> insert ?b Y) st' P" unfolding un by (rule ih(9))
    moreover have "frame X st st'" using frame_trans [OF c(5) ih(10)] by blast
    moreover have "same_xl pbase_to_vbase (words st) (words st') P" using same_xl_trans [OF c(6) ih(11)] .
    moreover have "longest_run (heap st) \<le> longest_run (heap st') + length (filter listed (map ph (n # ns)))" using ih(12) c(7) True by simp
    moreover have "load_loop elf (n # ns) st = Some (elf', st')" "buffer elf' = buffer elf" using go ih(1,4) e(2) by simp_all
    ultimately show ?thesis by (intro exI conjI) assumption+
  qed
qed


section \<open>One segment\<close>

definition seg_size :: "Elf64_Phdr \<Rightarrow> u64" where
  "seg_size ph = ALIGN (p_memsz ph) (p_align ph)"

definition seg_first :: "Elf64_Phdr \<Rightarrow> nat" where
  "seg_first ph = unat (p_vaddr ph) div 4096"

definition seg_pages :: "Elf64_Phdr \<Rightarrow> nat set" where
  "seg_pages ph = {seg_first ph..<seg_first ph + pages_for (seg_size ph)}"

text \<open>
  What a loadable segment must satisfy: it is code or data, its address is a multiple of its
  alignment, and it has at most 32 pages, the limit of one allocation.
\<close>

definition phdr_ok :: "Elf64_Phdr \<Rightarrow> bool" where
  "phdr_ok ph \<longleftrightarrow> (p_flags ph = PF_R OR PF_X \<or> p_flags ph = PF_R OR PF_W) \<and> p_filesz ph \<le> p_memsz ph \<and>
     0 < unat (p_memsz ph) \<and> unat (p_memsz ph) \<le> 2 ^ 17 \<and> page_aligned (p_align ph) \<and> 0 < unat (p_align ph) \<and> unat (p_align ph) \<le> 2 ^ 17 \<and>
     p_vaddr ph mod p_align ph = 0 \<and> unat (seg_size ph) \<le> 2 ^ 17 \<and> unat (p_vaddr ph) + 2 ^ 17 \<le> 2 ^ 39"

definition loaded :: "u64 set \<Rightarrow> bmem \<Rightarrow> u64 \<Rightarrow> kpts \<Rightarrow> u64 \<Rightarrow> Elf64_Phdr \<Rightarrow> bool" where
  "loaded Z m buf st P ph \<longleftrightarrow> (\<forall>k < unat (p_memsz ph). \<exists>pa at.
     xl pbase_to_vbase (words st) P ((unat (p_vaddr ph) + k) div 4096) = Some (pa, at) \<and> user_perms (elf_prot (p_flags ph)) at \<and>
     pbase_to_vbase pa \<in> Z \<and>
     bytes_of (words st) (pbase_to_vbase pa + word_of_nat ((unat (p_vaddr ph) + k) mod 4096)) =
       (if k < unat (p_filesz ph) then m (buf + p_offset ph + word_of_nat k) else 0))"

lemma phdr_okD:
  assumes "phdr_ok ph"
  shows "p_vaddr ph div p_align ph * p_align ph = p_vaddr ph" "ALIGN (p_vaddr ph mod p_align ph + p_memsz ph) (p_align ph) = seg_size ph"
    "p_align ph \<noteq> 0" "unat (p_vaddr ph) = 4096 * seg_first ph" "page_aligned (p_vaddr ph)" "unat (p_memsz ph) \<le> unat (seg_size ph)"
    "unat (seg_size ph) \<le> 4096 * pages_for (seg_size ph)" "0 < pages_for (seg_size ph)" "pages_for (seg_size ph) \<le> 32"
    "seg_first ph + pages_for (seg_size ph) \<le> 2 ^ 27"
proof -
  have a: "0 < unat (p_align ph)" "unat (p_align ph) \<le> 2 ^ 17" "p_vaddr ph mod p_align ph = 0" "page_aligned (p_align ph)" "unat (p_memsz ph) \<le> 2 ^ 17"
    "0 < unat (p_memsz ph)" "unat (seg_size ph) \<le> 2 ^ 17" "unat (p_vaddr ph) + 2 ^ 17 \<le> 2 ^ 39"
    using assms by (simp_all add: phdr_ok_def)
  show "p_vaddr ph div p_align ph * p_align ph = p_vaddr ph" using div_mult_mod_eq [of "p_vaddr ph" "p_align ph"] a(3) by simp
  show "ALIGN (p_vaddr ph mod p_align ph + p_memsz ph) (p_align ph) = seg_size ph" using a(3) by (simp add: seg_size_def)
  show "p_align ph \<noteq> 0" using a(1) by auto
  have "unat (p_vaddr ph) mod unat (p_align ph) = 0" using a(3) by (metis unat_mod_distrib unsigned_0)
  then have "unat (p_align ph) dvd unat (p_vaddr ph)" by (rule mod_0_imp_dvd)
  moreover have "4096 dvd unat (p_align ph)" using a(4) by (simp add: page_aligned_def)
  ultimately have d: "4096 dvd unat (p_vaddr ph)" by (rule dvd_trans [rotated])
  then show v: "unat (p_vaddr ph) = 4096 * seg_first ph" by (simp add: seg_first_def)
  show "page_aligned (p_vaddr ph)" using d by (simp add: page_aligned_def)
  have "unat (seg_size ph) = (unat (p_memsz ph) + unat (p_align ph) - 1) div unat (p_align ph) * unat (p_align ph)"
    unfolding seg_size_def using a by (intro unat_ALIGN) simp_all
  also have "unat (p_memsz ph) \<le> \<dots>"
    using div_mult_mod_eq [of "unat (p_memsz ph) + unat (p_align ph) - 1" "unat (p_align ph)"]
      mod_less_divisor [OF a(1), of "unat (p_memsz ph) + unat (p_align ph) - 1"] a(1) by linarith
  finally show m: "unat (p_memsz ph) \<le> unat (seg_size ph)" .
  show "unat (seg_size ph) \<le> 4096 * pages_for (seg_size ph)" unfolding pages_for_def by linarith
  show "0 < pages_for (seg_size ph)" using m a(6) by (simp add: pages_for_def div_greater_zero_iff)
  have n: "pages_for (seg_size ph) \<le> (2 ^ 17 + 4095) div 4096" unfolding pages_for_def using a(7) by (intro div_le_mono) simp
  then show "pages_for (seg_size ph) \<le> 32" by simp
  then show "seg_first ph + pages_for (seg_size ph) \<le> 2 ^ 27" using v a(8) by simp
qed

lemma seg_page:
  assumes "phdr_ok ph" "k < unat (p_memsz ph)"
  shows "(unat (p_vaddr ph) + k) div 4096 = seg_first ph + k div 4096" "(unat (p_vaddr ph) + k) mod 4096 = k mod 4096"
    "(unat (p_vaddr ph) + k) div 4096 \<in> seg_pages ph" "k < 4096 * pages_for (seg_size ph)"
proof -
  note d = phdr_okD [OF assms(1)]
  show p: "(unat (p_vaddr ph) + k) div 4096 = seg_first ph + k div 4096" "(unat (p_vaddr ph) + k) mod 4096 = k mod 4096"
    unfolding d(4) by simp_all
  show k: "k < 4096 * pages_for (seg_size ph)" using d(6,7) assms(2) by linarith
  then have "k div 4096 < pages_for (seg_size ph)" by (simp add: less_mult_imp_div_less mult.commute)
  then show "(unat (p_vaddr ph) + k) div 4096 \<in> seg_pages ph" unfolding p by (simp add: seg_pages_def)
qed

lemma loaded_mono:
  assumes l: "loaded Z m buf st P ph" and ok: "phdr_ok ph" and Z: "\<And>q. q \<in> Z \<Longrightarrow> page_aligned q"
    and b: "\<And>a. page_base a \<in> Z \<Longrightarrow> bytes_of (words st') a = bytes_of (words st) a"
    and x: "\<And>n. n \<in> seg_pages ph \<Longrightarrow> xl pbase_to_vbase (words st') P n = xl pbase_to_vbase (words st) P n" and sub: "Z \<subseteq> Z'"
  shows "loaded Z' m buf st' P ph"
  unfolding loaded_def
proof (intro allI impI)
  fix k assume k: "k < unat (p_memsz ph)"
  let ?n = "(unat (p_vaddr ph) + k) div 4096" and ?o = "(unat (p_vaddr ph) + k) mod 4096"
  obtain pa at where pa: "xl pbase_to_vbase (words st) P ?n = Some (pa, at)" "user_perms (elf_prot (p_flags ph)) at" "pbase_to_vbase pa \<in> Z"
    "bytes_of (words st) (pbase_to_vbase pa + word_of_nat ?o) = (if k < unat (p_filesz ph) then m (buf + p_offset ph + word_of_nat k) else 0)"
    using l k unfolding loaded_def by blast
  have "page_base (pbase_to_vbase pa + word_of_nat ?o) = pbase_to_vbase pa" by (rule page_base_add [OF Z [OF pa(3)]]) simp
  then have "bytes_of (words st') (pbase_to_vbase pa + word_of_nat ?o) = bytes_of (words st) (pbase_to_vbase pa + word_of_nat ?o)" using b pa(3) by simp
  then show "\<exists>pa at. xl pbase_to_vbase (words st') P ?n = Some (pa, at) \<and> user_perms (elf_prot (p_flags ph)) at \<and> pbase_to_vbase pa \<in> Z' \<and>
      bytes_of (words st') (pbase_to_vbase pa + word_of_nat ?o) = (if k < unat (p_filesz ph) then m (buf + p_offset ph + word_of_nat k) else 0)"
    using pa x [OF seg_page(3) [OF ok k]] sub by auto
qed

text \<open>Copying a segment: the file part, then zeros.\<close>

definition seg_image :: "u64 \<Rightarrow> u64 \<Rightarrow> nat \<Rightarrow> nat \<Rightarrow> bmem \<Rightarrow> bmem" where
  "seg_image b src fs ms m a = (if unat (a - b) < fs then m (src + (a - b)) else if unat (a - b) < ms then 0 else m a)"

lemma on_bytes_on_bytes: "on_bytes f (on_bytes g st) = on_bytes (\<lambda>m. f (g m)) st"
proof -
  have "words_of (words_of w m) m' = words_of w m'" for w m m' by (intro ext) (simp add: words_of_def)
  then show ?thesis by (simp add: on_bytes_def)
qed

lemma copy_segment_ok:
  assumes ok: "phdr_ok ph" and d: "describes sg ph"
    and safe: "copy_safe b (buffer elf + p_offset ph) (unat (p_filesz ph))"
  shows "copy_segment elf (sg\<lparr>s_vaddr := b\<rparr>) st =
    (0, on_bytes (seg_image b (buffer elf + p_offset ph) (unat (p_filesz ph)) (unat (p_memsz ph))) st)"
proof -
  let ?f = "p_filesz ph" and ?m = "p_memsz ph" and ?src = "buffer elf + p_offset ph"
  have le: "?f \<le> ?m" and fl: "p_flags ph = PF_R OR PF_X \<or> p_flags ph = PF_R OR PF_W" using ok by (simp_all add: phdr_ok_def)
  have cp: "k_memcpy m b ?src ?f = (\<lambda>a. if unat (a - b) < unat ?f then m (?src + (a - b)) else m a)" for m
    unfolding k_memcpy_def using unat_u64_bound [of ?f] by (intro memcpy_loop_eq [OF safe]) simp
  have dm: "unat (?m - ?f) = unat ?m - unat ?f" using le by (simp add: unat_sub_if_size word_le_nat_alt)
  have sp: "unat (a - (b + ?f)) < unat ?m - unat ?f \<longleftrightarrow> unat ?f \<le> unat (a - b) \<and> unat (a - b) < unat ?m" for a
  proof -
    have e: "a - (b + ?f) = (a - b) - ?f" by simp
    show ?thesis unfolding e using le unat_u64_bound [of ?m] unat_u64_bound [of "a - b"]
      by (auto simp: unat_sub_if_size word_le_nat_alt word_size split: if_splits)
  qed
  have img: "(if ?m > ?f then k_memset (k_memcpy m b ?src ?f) (b + ?f) 0 (?m - ?f) else k_memcpy m b ?src ?f) = seg_image b ?src (unat ?f) (unat ?m) m" for m
  proof (cases "?m > ?f")
    case True
    then show ?thesis by (intro ext) (auto simp: k_memset_fill fill_def dm sp cp seg_image_def)
  next
    case False
    then have "?m = ?f" using le by simp
    then show ?thesis by (intro ext) (simp add: cp seg_image_def)
  qed
  have "copy_segment elf (sg\<lparr>s_vaddr := b\<rparr>) st = (0, on_bytes (\<lambda>m. if ?m > ?f then k_memset (k_memcpy m b ?src ?f) (b + ?f) 0 (?m - ?f) else k_memcpy m b ?src ?f) st)"
    using d le fl by (auto simp: copy_segment_def describes_def Let_def leD on_bytes_on_bytes)
  then show ?thesis unfolding img .
qed


lemma seg_image_write:
  assumes h: "page_heap g" and i: "i + n \<le> gcount g" and ms: "ms \<le> 4096 * n" "fs \<le> ms" and a: "page_base a \<notin> block_pages g i n"
  shows "seg_image (gran_addr g i) src fs ms m a = m a"
  using block_range [OF h i, of a] ms a by (auto simp: seg_image_def)

lemma pages_apart_safe:
  assumes h: "page_heap g" and i: "i + n \<le> gcount g" and fs: "fs \<le> 4096 * n"
    and src: "\<And>k. k < fs \<Longrightarrow> page_base (src + word_of_nat k) \<in> X" and X: "X \<inter> block_pages g i n = {}"
  shows "copy_safe (gran_addr g i) src fs"
proof -
  have "gran_addr g i + word_of_nat j \<noteq> src + word_of_nat k" if "j < fs" "k < fs" for j k
  proof -
    have "j < 4096 * n" using \<open>j < fs\<close> fs by simp
    note b = block_byte [OF h i this]
    have "page_base (gran_addr g i + word_of_nat j) \<in> block_pages g i n" unfolding b(1) by (rule b(2))
    then have "page_base (gran_addr g i + word_of_nat j) \<noteq> page_base (src + word_of_nat k)" using src [OF \<open>k < fs\<close>] X by auto
    then show ?thesis by metis
  qed
  then show ?thesis by (auto simp: copy_safe_def)
qed

lemma elf_region_ok:
  assumes ok: "phdr_ok ph" and h: "page_heap g" and i: "i + pages_for (seg_size ph) \<le> gcount g" "free_run g (pages_for (seg_size ph)) i"
  defines "r \<equiv> \<lparr>r_pbase = vbase_to_pbase (gran_addr g i), r_vbase = p_vaddr ph, r_size = seg_size ph\<rparr>"
  shows "region_ok r 0" "vpn r = seg_first ph" "touches r l \<Longrightarrow> l < 2 ^ 18"
proof -
  note d = phdr_okD [OF ok]
  have v: "unat (p_vaddr ph) + 2 ^ 17 \<le> 2 ^ 39" using ok by (simp add: phdr_ok_def)
  then have m: "unat (p_vaddr ph) mod 2 ^ 39 = unat (p_vaddr ph)" "unat (p_vaddr ph) div 2 ^ 39 = 0" by simp_all
  show vp: "vpn r = seg_first ph" unfolding vpn_def r_def using m(1) by (simp add: seg_first_def)
  note b = block_frames [OF h i d(8)]
  have "seg_size ph \<noteq> 0" using d(8) by (auto simp: pages_for_def)
  then show "region_ok r 0" unfolding region_ok_def map_request_def vp unfolding r_def
    using d(4,5,9,10) v m b(1,2) by (simp add: vpage_def)
  show "l < 2 ^ 18" if "touches r l"
    using that d(10) unfolding touches_def vp by (simp add: r_def)
qed


lemma block_loaded:
  assumes ok: "phdr_ok ph" and h: "page_heap g" and i: "i + pages_for (seg_size ph) \<le> gcount g"
    and x: "\<And>n. n < 2 ^ 27 \<Longrightarrow> seg_first ph \<le> n \<Longrightarrow> n < seg_first ph + pages_for (seg_size ph) \<Longrightarrow>
      xl pbase_to_vbase (words st) P n = Some (vbase_to_pbase (gran_addr g i) + 4096 * word_of_nat (n - seg_first ph), at)"
    and at: "user_perms (elf_prot (p_flags ph)) at"
    and m: "\<And>k. k < unat (p_memsz ph) \<Longrightarrow> bytes_of (words st) (gran_addr g i + word_of_nat k) =
      (if k < unat (p_filesz ph) then m (buf + p_offset ph + word_of_nat k) else 0)"
  shows "loaded (block_pages g i (pages_for (seg_size ph))) m buf st P ph"
  unfolding loaded_def
proof (intro allI impI)
  fix j assume j: "j < unat (p_memsz ph)"
  note s = seg_page [OF ok j]
  let ?pa = "vbase_to_pbase (gran_addr g i) + 4096 * word_of_nat (j div 4096)"
  have xl: "xl pbase_to_vbase (words st) P ((unat (p_vaddr ph) + j) div 4096) = Some (?pa, at)"
    using s(1,3) phdr_okD(10) [OF ok] x [of "(unat (p_vaddr ph) + j) div 4096"] by (simp add: seg_pages_def)
  have "gshift g = 12" using h by (simp add: page_heap_def)
  then have pb: "pbase_to_vbase ?pa = gran_addr g (i + j div 4096)" by (simp add: pbase_to_vbase_def vbase_to_pbase_def gran_addr_def algebra_simps)
  have "j = 4096 * (j div 4096) + j mod 4096" by simp
  then have "(word_of_nat j :: u64) = 4096 * word_of_nat (j div 4096) + word_of_nat (j mod 4096)" by (metis of_nat_add of_nat_mult of_nat_numeral)
  then have ad: "pbase_to_vbase ?pa + word_of_nat (j mod 4096) = gran_addr g i + word_of_nat j" by (simp add: pbase_to_vbase_def vbase_to_pbase_def)
  show "\<exists>pa at. xl pbase_to_vbase (words st) P ((unat (p_vaddr ph) + j) div 4096) = Some (pa, at) \<and> user_perms (elf_prot (p_flags ph)) at \<and>
      pbase_to_vbase pa \<in> block_pages g i (pages_for (seg_size ph)) \<and>
      bytes_of (words st) (pbase_to_vbase pa + word_of_nat ((unat (p_vaddr ph) + j) mod 4096)) = (if j < unat (p_filesz ph) then m (buf + p_offset ph + word_of_nat j) else 0)"
    using xl at block_byte(2) [OF h i s(4)] pb ad s(2) m [OF j] by (intro exI [of _ ?pa] exI [of _ at]) simp
qed

lemma load_one:
  assumes ok: "phdr_ok ph" and k: "kept X st P" and P: "P \<noteq> 0" and d: "describes sg ph"
    and r: "pages_for (seg_size ph) + tables_for (seg_first ph) (seg_size ph) \<le> longest_run (heap st)"
    and no: "\<And>l. l < 2 ^ 18 \<Longrightarrow> nosect pbase_to_vbase (words st) P l"
    and im: "\<And>j. j < unat (p_filesz ph) \<Longrightarrow> page_base (buffer elf + p_offset ph + word_of_nat j) \<in> IM" "IM \<subseteq> X"
    and m: "\<And>a. page_base a \<in> IM \<Longrightarrow> bytes_of (words st) a = m0 a"
  obtains b st1 st2 B where "elf_map P (p_vaddr ph) (seg_size ph) (p_flags ph) st = Some (b, st1)" "copy_segment elf (sg\<lparr>s_vaddr := b\<rparr>) st1 = (0, st2)"
    "B \<inter> X = {}" "kept (X \<union> B) st2 P" "frame X st st2" "loaded B m0 (buffer elf) st2 P ph"
    "\<And>n. n < 2 ^ 27 \<Longrightarrow> n \<notin> seg_pages ph \<Longrightarrow> xl pbase_to_vbase (words st2) P n = xl pbase_to_vbase (words st) P n"
    "\<And>l. l < 2 ^ 18 \<Longrightarrow> nosect pbase_to_vbase (words st2) P l"
    "longest_run (heap st) \<le> longest_run (heap st2) + pages_for (seg_size ph) + tables_for (seg_first ph) (seg_size ph)"
proof -
  let ?n = "pages_for (seg_size ph)" and ?g = "heap st" and ?src = "buffer elf + p_offset ph"
  note D = phdr_okD [OF ok]
  have h: "page_heap ?g" using k by (simp add: kept_def)
  have v: "valid_request ?g (seg_size ph)" using h ok D(6) by (simp add: page_heap_def valid_request_def phdr_ok_def)
  have r1: "?n \<le> longest_run ?g" using r by simp
  obtain i st0 where c: "elf_calloc (seg_size ph) st = Some (gran_addr ?g i, st0)" "i + ?n \<le> gcount ?g" "free_run ?g ?n i"
    "kept (X \<union> block_pages ?g i ?n) st0 P" "X \<inter> block_pages ?g i ?n = {}"
    "frame X st st0" "same_xl pbase_to_vbase (words st) (words st0) P" "longest_run ?g \<le> longest_run (heap st0) + ?n"
    by (rule elf_calloc_kept [OF k v r1])
  let ?b = "gran_addr ?g i" and ?B = "block_pages ?g i ?n"
  let ?r = "\<lparr>r_pbase = vbase_to_pbase ?b, r_vbase = p_vaddr ph, r_size = seg_size ph\<rparr>"
  note reg = elf_region_ok [OF ok h c(2,3)]
  have t: "tables_for (vpn ?r) (r_size ?r) \<le> longest_run (heap st0)" unfolding reg(2) using r c(8) by simp
  have no0: "\<forall>l. touches ?r l \<longrightarrow> nosect pbase_to_vbase (words st0) P l" using c(7) no reg(3) by (simp add: same_xl_def)
  obtain st1 at where a: "as_map st0 P ?r (elf_prot (p_flags ph)) RAM_NORMAL = Some st1" "kept (X \<union> ?B) st1 P" "same_on (X \<union> ?B) (words st0) (words st1)"
    "same_places (heap st0) (heap st1)" "longest_run (heap st0) \<le> longest_run (heap st1) + tables_for (seg_first ph) (seg_size ph)"
    "user_perms (elf_prot (p_flags ph)) at"
    and mp: "mapped pbase_to_vbase (words st0) (words st1) P (seg_first ph) (seg_first ph + ?n) (vbase_to_pbase ?b) at"
    using as_map_kept [OF c(4) P reg(1) t no0, of "elf_prot (p_flags ph)"] unfolding reg(2) by auto
  have fr1: "frame (X \<union> ?B) st0 st1" unfolding frame_def using same_on_bytes [OF a(3)] a(2,4) by (auto simp: kept_def pages_kept_def)
  let ?f = "seg_image ?b ?src (unat (p_filesz ph)) (unat (p_memsz ph))" and ?st2 = "on_bytes (seg_image ?b ?src (unat (p_filesz ph)) (unat (p_memsz ph))) st1"
  have ms: "unat (p_memsz ph) \<le> 4096 * ?n" "unat (p_filesz ph) \<le> unat (p_memsz ph)" using D(6,7) ok by (simp_all add: phdr_ok_def word_le_nat_alt)
  have fs: "unat (p_filesz ph) \<le> 4096 * ?n" using ms by simp
  have safe: "copy_safe ?b ?src (unat (p_filesz ph))" using im by (intro pages_apart_safe [OF h c(2) fs _ c(5)]) auto
  have f: "?f m a = m a" if "page_base a \<notin> ?B" for m a by (rule seg_image_write [OF h c(2) ms that])
  note w = write_kept [OF a(2) Un_upper2, where f = ?f, OF f]
  have fr2: "frame X st1 ?st2" unfolding frame_def same_places_def using f c(5) by auto
  have fr: "frame X st st1" using frame_trans [OF c(6) fr1] by blast
  have mapx: "elf_map P (p_vaddr ph) (seg_size ph) (p_flags ph) st = Some (?b, st1)" by (simp add: elf_map_def c(1) a(1))
  have x2: "xl pbase_to_vbase (words ?st2) P n = (if seg_first ph \<le> n \<and> n < seg_first ph + ?n
      then Some (vbase_to_pbase ?b + 4096 * word_of_nat (n - seg_first ph), at) else xl pbase_to_vbase (words st) P n)" if "n < 2 ^ 27" for n
    using w(2) mp c(7) that by (simp add: same_xl_def mapped_def)
  have im1: "bytes_of (words st1) a = m0 a" if "page_base a \<in> IM" for a using fr m [OF that] that im(2) by (auto simp: frame_def)
  have byt: "bytes_of (words ?st2) (?b + word_of_nat j) = (if j < unat (p_filesz ph) then m0 (buffer elf + p_offset ph + word_of_nat j) else 0)"
    if "j < unat (p_memsz ph)" for j
  proof -
    have "unat (word_of_nat j :: u64) = j" using that unat_u64_bound [of "p_memsz ph"] by (simp add: unsigned_of_nat take_bit_nat_eq_self)
    then show ?thesis using that im1 [OF im(1)] by (simp add: seg_image_def)
  qed
  have ld: "loaded ?B m0 (buffer elf) ?st2 P ph" using x2 by (intro block_loaded [OF ok h c(2) _ a(6) byt]) simp_all
  have ns: "nosect pbase_to_vbase (words ?st2) P l" if "l < 2 ^ 18" for l
  proof -
    have "nosect pbase_to_vbase (words st0) P l" using c(7) no that by (simp add: same_xl_def)
    then have "nosect pbase_to_vbase (words st1) P l" using mapped_nosect [OF mp _ that] D(9) by simp
    then show ?thesis using w(2) that by (simp add: same_xl_def)
  qed
  have lr: "longest_run ?g \<le> longest_run (heap ?st2) + ?n + tables_for (seg_first ph) (seg_size ph)" using c(8) a(5) by simp
  have dis: "?B \<inter> X = {}" using c(5) by blast
  have frX: "frame X st ?st2" using frame_trans [OF fr fr2] by blast
  have xo: "xl pbase_to_vbase (words ?st2) P n = xl pbase_to_vbase (words st) P n" if "n < 2 ^ 27" "n \<notin> seg_pages ph" for n
    using x2 [OF that(1)] that(2) by (auto simp: seg_pages_def)
  show ?thesis by (rule that [OF mapx copy_segment_ok [OF ok d safe] dis w(1) frX ld xo ns lr])
qed


section \<open>All segments\<close>

definition loadable :: "Elf64_Phdr \<Rightarrow> bool" where
  "loadable ph \<longleftrightarrow> ucast (p_type ph) = PT_LOAD"

definition seg_need :: "Elf64_Phdr \<Rightarrow> nat" where
  "seg_need ph = (if loadable ph then pages_for (seg_size ph) + tables_for (seg_first ph) (seg_size ph) else 0)"

definition seg_apart :: "Elf64_Phdr \<Rightarrow> Elf64_Phdr \<Rightarrow> bool" where
  "seg_apart p q \<longleftrightarrow> (loadable p \<longrightarrow> loadable q \<longrightarrow> seg_pages p \<inter> seg_pages q = {})"

lemma note_segment_ok:
  assumes "phdr_ok ph" "describes sg ph"
  shows "\<exists>task'. note_segment task sg = Some task' \<and> t_addrspace task' = t_addrspace task \<and> t_context task' = t_context task"
  using assms by (auto simp: note_segment_def phdr_ok_def describes_def)

lemma seg_page_bound: "phdr_ok ph \<Longrightarrow> n \<in> seg_pages ph \<Longrightarrow> n < 2 ^ 27"
  using phdr_okD(10) [of ph] by (simp add: seg_pages_def)

lemma populate_loop_ok:
  assumes "list_all2 describes sgs phs" "kept X st P" "P \<noteq> 0" "t_addrspace task = P" "sum_list (map seg_need phs) \<le> longest_run (heap st)"
    and "\<And>l. l < 2 ^ 18 \<Longrightarrow> nosect pbase_to_vbase (words st) P l" "\<And>ph. ph \<in> set phs \<Longrightarrow> loadable ph \<Longrightarrow> phdr_ok ph"
    and "\<And>ph j. ph \<in> set phs \<Longrightarrow> loadable ph \<Longrightarrow> j < unat (p_filesz ph) \<Longrightarrow> page_base (buffer elf + p_offset ph + word_of_nat j) \<in> IM"
    and "IM \<subseteq> X" "\<And>a. page_base a \<in> IM \<Longrightarrow> bytes_of (words st) a = m0 a" "sorted_wrt seg_apart phs"
  shows "\<exists>ds task' st' Z. populate_loop elf sgs task st = Some (ds, task', st') \<and> map s_block ds = map s_block sgs \<and>
    t_context task' = t_context task \<and> Z \<inter> X = {} \<and> kept (X \<union> Z) st' P \<and> frame X st st' \<and>
    (\<forall>ph \<in> set phs. loadable ph \<longrightarrow> loaded Z m0 (buffer elf) st' P ph) \<and>
    (\<forall>n < 2 ^ 27. (\<forall>ph \<in> set phs. loadable ph \<longrightarrow> n \<notin> seg_pages ph) \<longrightarrow> xl pbase_to_vbase (words st') P n = xl pbase_to_vbase (words st) P n)"
  using assms
proof (induction sgs phs arbitrary: X st task rule: list_all2_induct)
  case Nil
  then show ?case by (intro exI [of _ "{}"] exI) auto
next
  case (Cons sg sgs ph phs)
  note prems = Cons.prems
  show ?case
  proof (cases "loadable ph")
    case False
    then have ne: "s_type sg \<noteq> PT_LOAD" using Cons.hyps(1) by (simp add: loadable_def describes_def)
    have need: "sum_list (map seg_need phs) \<le> longest_run (heap st)" using prems(4) by simp
    have apart: "sorted_wrt seg_apart phs" using prems(10) by simp
    obtain ds task' st' Z where ih: "populate_loop elf sgs task st = Some (ds, task', st')" "map s_block ds = map s_block sgs" "t_context task' = t_context task"
      "Z \<inter> X = {}" "kept (X \<union> Z) st' P" "frame X st st'" "\<forall>ph \<in> set phs. loadable ph \<longrightarrow> loaded Z m0 (buffer elf) st' P ph"
      "\<forall>n < 2 ^ 27. (\<forall>ph \<in> set phs. loadable ph \<longrightarrow> n \<notin> seg_pages ph) \<longrightarrow> xl pbase_to_vbase (words st') P n = xl pbase_to_vbase (words st) P n"
      using Cons.IH [OF prems(1,2,3) need prems(5) prems(6) prems(7) prems(8) prems(9) apart] by auto
    then show ?thesis using ne False by (intro exI [of _ "sg # ds"] exI [of _ task'] exI [of _ st'] exI [of _ Z]) simp
  next
    case True
    have ok: "phdr_ok ph" using prems(6) True by simp
    have sn: "seg_need ph = pages_for (seg_size ph) + tables_for (seg_first ph) (seg_size ph)" using True by (simp add: seg_need_def)
    have rn: "pages_for (seg_size ph) + tables_for (seg_first ph) (seg_size ph) \<le> longest_run (heap st)" using prems(4) sn by simp
    have im: "\<And>j. j < unat (p_filesz ph) \<Longrightarrow> page_base (buffer elf + p_offset ph + word_of_nat j) \<in> IM" using prems(7) True by simp
    obtain b st1 st2 B where o: "elf_map P (p_vaddr ph) (seg_size ph) (p_flags ph) st = Some (b, st1)" "copy_segment elf (sg\<lparr>s_vaddr := b\<rparr>) st1 = (0, st2)"
      "B \<inter> X = {}" "kept (X \<union> B) st2 P" "frame X st st2" "loaded B m0 (buffer elf) st2 P ph"
      "\<And>n. n < 2 ^ 27 \<Longrightarrow> n \<notin> seg_pages ph \<Longrightarrow> xl pbase_to_vbase (words st2) P n = xl pbase_to_vbase (words st) P n"
      "\<And>l. l < 2 ^ 18 \<Longrightarrow> nosect pbase_to_vbase (words st2) P l"
      "longest_run (heap st) \<le> longest_run (heap st2) + pages_for (seg_size ph) + tables_for (seg_first ph) (seg_size ph)"
      by (rule load_one [OF ok prems(1,2) Cons.hyps(1) rn prems(5) im prems(8,9)]) blast+
    obtain task1 where t1: "note_segment task sg = Some task1" "t_addrspace task1 = t_addrspace task" "t_context task1 = t_context task"
      using note_segment_ok [OF ok Cons.hyps(1)] by blast
    have need: "sum_list (map seg_need phs) \<le> longest_run (heap st2)" using prems(4) o(9) sn by simp
    have m2: "bytes_of (words st2) a = m0 a" if "page_base a \<in> IM" for a using o(5) prems(8,9) that by (auto simp: frame_def)
    have "sorted_wrt seg_apart phs" "\<forall>q \<in> set phs. seg_apart ph q" using prems(10) by simp_all
    then have apart: "sorted_wrt seg_apart phs" "\<And>q. q \<in> set phs \<Longrightarrow> loadable q \<Longrightarrow> seg_pages ph \<inter> seg_pages q = {}"
      using True by (simp_all add: seg_apart_def [of ph])
    have as: "t_addrspace task1 = P" and oks: "\<And>q. q \<in> set phs \<Longrightarrow> loadable q \<Longrightarrow> phdr_ok q" and sub: "IM \<subseteq> X \<union> B"
      and ims: "\<And>q j. q \<in> set phs \<Longrightarrow> loadable q \<Longrightarrow> j < unat (p_filesz q) \<Longrightarrow> page_base (buffer elf + p_offset q + word_of_nat j) \<in> IM"
      using prems(3,6,7,8) t1(2) by auto
    obtain ds task' st' Z where ih: "populate_loop elf sgs task1 st2 = Some (ds, task', st')" "map s_block ds = map s_block sgs" "t_context task' = t_context task1"
      "Z \<inter> (X \<union> B) = {}" "kept (X \<union> B \<union> Z) st' P" "frame (X \<union> B) st2 st'" "\<forall>ph \<in> set phs. loadable ph \<longrightarrow> loaded Z m0 (buffer elf) st' P ph"
      "\<forall>n < 2 ^ 27. (\<forall>ph \<in> set phs. loadable ph \<longrightarrow> n \<notin> seg_pages ph) \<longrightarrow> xl pbase_to_vbase (words st') P n = xl pbase_to_vbase (words st2) P n"
      using Cons.IH [OF o(4) prems(2) as need o(8) oks ims sub m2 apart(1)] by auto
    have al: "page_aligned q" if "q \<in> B" for q using o(4) that by (auto simp: kept_def pages_kept_def kpage_ok_def)
    have mine: "loaded (B \<union> Z) m0 (buffer elf) st' P ph"
    proof (rule loaded_mono [OF o(6) ok al])
      show "bytes_of (words st') a = bytes_of (words st2) a" if "page_base a \<in> B" for a using ih(6) that by (simp add: frame_def)
      show "xl pbase_to_vbase (words st') P n = xl pbase_to_vbase (words st2) P n" if "n \<in> seg_pages ph" for n
      proof -
        have "\<forall>q \<in> set phs. loadable q \<longrightarrow> n \<notin> seg_pages q" using apart(2) that by auto
        then show ?thesis using ih(8) seg_page_bound [OF ok that] by simp
      qed
    qed simp_all
    have rest: "loaded (B \<union> Z) m0 (buffer elf) st' P q" if "q \<in> set phs" "loadable q" for q
    proof (rule loaded_mono [of Z])
      show "loaded Z m0 (buffer elf) st' P q" using ih(7) that by blast
      show "page_aligned p" if "p \<in> Z" for p using ih(5) that by (auto simp: kept_def pages_kept_def kpage_ok_def)
    qed (use oks that in simp_all)
    have run: "populate_loop elf (sg # sgs) task st = Some (sg\<lparr>s_vaddr := b\<rparr> # ds, task', st')"
      using Cons.hyps(1) True ok phdr_okD [OF ok] o(1,2) t1 ih(1) prems(3)
      by (simp add: loadable_def describes_def Let_def)
    have un: "X \<union> (B \<union> Z) = X \<union> B \<union> Z" by blast
    have "kept (X \<union> (B \<union> Z)) st' P" unfolding un by (rule ih(5))
    moreover have "(B \<union> Z) \<inter> X = {}" using o(3) ih(4) by blast
    moreover have "frame X st st'" using frame_trans [OF o(5) ih(6)] by blast
    moreover have "\<forall>q \<in> set (ph # phs). loadable q \<longrightarrow> loaded (B \<union> Z) m0 (buffer elf) st' P q" using mine rest by simp
    moreover have "\<forall>n < 2 ^ 27. (\<forall>q \<in> set (ph # phs). loadable q \<longrightarrow> n \<notin> seg_pages q) \<longrightarrow> xl pbase_to_vbase (words st') P n = xl pbase_to_vbase (words st) P n"
      using ih(8) o(7) True by simp
    moreover have "map s_block (sg\<lparr>s_vaddr := b\<rparr> # ds) = map s_block (sg # sgs)" "t_context task' = t_context task" using ih(2,3) t1(3) by simp_all
    ultimately show ?thesis using run by (intro exI conjI) assumption+
  qed
qed


lemma kept_mono: "kept X st P \<Longrightarrow> Y \<subseteq> X \<Longrightarrow> kept Y st P"
  unfolding kept_def pages_kept_def using kt.wf_mono [of _ P "free_pages (heap st) \<union> X" "free_pages (heap st) \<union> Y"] by blast

lemma remove_segs_ok:
  assumes "kept X st P" "distinct (map s_block sgs)" "s_block ` set sgs \<subseteq> X" "s_block ` set sgs \<subseteq> gran_addr (heap st) ` {..<gcount (heap st)}"
  shows "\<exists>st'. remove_segs sgs st = Some st' \<and> kept (X - s_block ` set sgs) st' P \<and> words st' = words st"
  using assms
proof (induction sgs arbitrary: X st)
  case (Cons sg sgs)
  obtain i where i: "s_block sg = gran_addr (heap st) i" "i < gcount (heap st)" using Cons.prems(4) by auto
  have inX: "gran_addr (heap st) i \<in> X" using Cons.prems(3) i(1) by simp
  have sz: "0 < unat SIZEOF_SEGMENT" "unat SIZEOF_SEGMENT \<le> 4096" by (simp_all add: SIZEOF_SEGMENT_def)
  obtain g where g: "gran_free (heap st) (gran_addr (heap st) i) SIZEOF_SEGMENT = Some g" "kept (X - {gran_addr (heap st) i}) (st\<lparr>heap := g\<rparr>) P"
    "gran_addr g = gran_addr (heap st)" "gcount g = gcount (heap st)"
    by (rule give_back_kept [OF Cons.prems(1) i(2) inX sz])
  have "\<exists>st'. remove_segs sgs (st\<lparr>heap := g\<rparr>) = Some st' \<and> kept (X - {gran_addr (heap st) i} - s_block ` set sgs) st' P \<and> words st' = words (st\<lparr>heap := g\<rparr>)"
  proof (rule Cons.IH [OF g(2)])
    have "s_block sg \<notin> s_block ` set sgs" using Cons.prems(2) by simp
    then show "s_block ` set sgs \<subseteq> X - {gran_addr (heap st) i}" unfolding i(1) using Cons.prems(3) by (simp add: subset_Diff_insert)
  qed (use Cons.prems(2,4) g(3,4) in simp_all)
  moreover have "X - s_block ` set (sg # sgs) = X - {gran_addr (heap st) i} - s_block ` set sgs" using i(1) by auto
  ultimately show ?case using g(1) i(1) by (auto simp: elf_free_def)
qed simp

section \<open>The loader\<close>

text \<open>
  A file of \<open>n\<close> bytes that the loader can load: it passes the header checks, its program headers and the contents of its segments lie inside the
  file, and its loadable segments are in order and apart.
\<close>

definition elf_file_ok :: "bmem \<Rightarrow> u64 \<Rightarrow> nat \<Rightarrow> bool" where
  "elf_file_ok m buf n \<longleftrightarrow>
     elf64_header_check (Some (read_ehdr m buf)) = 0 \<and> elf_arch_check (Some (read_ehdr m buf)) = 0 \<and>
     unat (h_phoff (read_ehdr m buf)) + SIZEOF_PHDR * unat (h_phnum (read_ehdr m buf)) \<le> n \<and>
     (\<forall>ph \<in> set (elf_phdrs m buf). ucast (p_type ph) \<noteq> PT_NULL \<and> (loadable ph \<longrightarrow> phdr_ok ph \<and> unat (p_offset ph) + unat (p_filesz ph) \<le> n)) \<and>
     sorted_wrt seg_apart (elf_phdrs m buf)"

definition elf_need :: "Elf64_Phdr list \<Rightarrow> nat" where
  "elf_need phs = length (filter listed phs) + sum_list (map seg_need phs)"

lemma sum_filter_le: "sum_list (map f (filter Q xs)) \<le> (sum_list (map f xs) :: nat)"
  by (induction xs) auto

lemma kept_phdrs:
  assumes "\<And>ph. ph \<in> set phs \<Longrightarrow> loadable ph \<Longrightarrow> phdr_ok ph" "sorted_wrt seg_apart phs"
  defines "Q \<equiv> \<lambda>p. listed p \<and> p_filesz p \<le> p_memsz p"
  shows "sorted_wrt seg_apart (rev (filter Q phs))" "sum_list (map seg_need (rev (filter Q phs))) \<le> sum_list (map seg_need phs)"
    "ph \<in> set phs \<Longrightarrow> loadable ph \<Longrightarrow> ph \<in> set (rev (filter Q phs))"
proof -
  have sym: "seg_apart p q \<longleftrightarrow> seg_apart q p" for p q by (auto simp: seg_apart_def)
  then have "(\<lambda>p q. seg_apart q p) = seg_apart" by (intro ext) simp
  then show "sorted_wrt seg_apart (rev (filter Q phs))" using sorted_wrt_filter [OF assms(2), of Q] by (simp add: sorted_wrt_rev)
  show "sum_list (map seg_need (rev (filter Q phs))) \<le> sum_list (map seg_need phs)"
    using sum_filter_le [of seg_need Q phs] by (simp add: rev_map [symmetric])
  show "ph \<in> set (rev (filter Q phs))" if "ph \<in> set phs" "loadable ph"
    using assms(1) [OF that] that by (auto simp: Q_def listed_def loadable_def phdr_ok_def)
qed



lemma load_segments_ok:
  assumes wf: "elf_file_ok (bytes_of (words st)) (buffer elf) n" and elf: "elf_segs elf = []" "is_64bit elf"
    and hd: "phdr elf = buffer elf + h_phoff (read_ehdr (bytes_of (words st)) (buffer elf))" "unat (e_phnum elf) = unat (h_phnum (read_ehdr (bytes_of (words st)) (buffer elf)))"
    and k: "kept IM st P" and im: "\<And>x j. unat x + j < n \<Longrightarrow> page_base (buffer elf + x + word_of_nat j) \<in> IM"
    and r: "length (filter listed (elf_phdrs (bytes_of (words st)) (buffer elf))) \<le> longest_run (heap st)"
  obtains elf' st' D Y where "load_segments elf st = Some (elf', st')" "elf_segs elf' = rev D" "buffer elf' = buffer elf"
    "list_all2 describes D (filter (\<lambda>p. listed p \<and> p_filesz p \<le> p_memsz p) (elf_phdrs (bytes_of (words st)) (buffer elf)))"
    "distinct (map s_block D)" "s_block ` set D \<subseteq> Y" "Y \<inter> IM = {}" "Y \<subseteq> gran_addr (heap st) ` {..<gcount (heap st)}"
    "kept (IM \<union> Y) st' P" "frame IM st st'" "same_xl pbase_to_vbase (words st) (words st') P"
    "longest_run (heap st) \<le> longest_run (heap st') + length (filter listed (elf_phdrs (bytes_of (words st)) (buffer elf)))"
proof -
  let ?m = "bytes_of (words st)" and ?h = "read_ehdr (bytes_of (words st)) (buffer elf)"
  let ?n = "unat (h_phnum ?h)" and ?a = "buffer elf + h_phoff ?h" and ?phs = "elf_phdrs ?m (buffer elf)"
  have phs: "?phs = map (\<lambda>n. read_phdr ?m (?a + word_of_nat (n * SIZEOF_PHDR))) [0..<?n]" by (simp add: elf_phdrs_def Let_def)
  have F: "unat (h_phoff ?h) + SIZEOF_PHDR * ?n \<le> n" "\<And>ph. ph \<in> set ?phs \<Longrightarrow> ucast (p_type ph) \<noteq> PT_NULL" using wf by (simp_all add: elf_file_ok_def)
  have t: "\<forall>n \<in> set [0..<?n]. ucast (p_type (read_phdr ?m (?a + word_of_nat (n * SIZEOF_PHDR)))) \<noteq> PT_NULL" using F(2) unfolding phs by auto
  have i: "\<forall>n \<in> set [0..<?n]. \<forall>j < 56. page_base (?a + word_of_nat (n * SIZEOF_PHDR) + word_of_nat j) \<in> IM"
  proof (intro ballI allI impI)
    fix q j :: nat assume q: "q \<in> set [0..<?n]" and j: "j < 56"
    have "q * 56 + 56 \<le> 56 * ?n" using q by simp
    then have "unat (h_phoff ?h) + (q * 56 + j) < n" using F(1) j by (simp add: SIZEOF_PHDR_def)
    then show "page_base (?a + word_of_nat (q * SIZEOF_PHDR) + word_of_nat j) \<in> IM" using im [of "h_phoff ?h" "q * 56 + j"] by (simp add: SIZEOF_PHDR_def add.assoc)
  qed
  have "load_segments elf st = load_loop elf [0..<?n] st" using elf(2) hd(2) by (simp add: load_segments_def)
  then show ?thesis using load_loop_ok [OF k hd(1) t i _ order_refl r [unfolded phs]] that elf(1) unfolding phs by auto
qed

lemma elf_initialize_eq:
  assumes "elf_file_ok (bytes_of (words st)) (buffer elf) n" "buffer elf \<noteq> 0" "0 < unat (elf_size elf)"
  defines "hdr \<equiv> read_ehdr (bytes_of (words st)) (buffer elf)"
  obtains elf1 where "elf_initialize task elf st = do {
      (elf2, st) \<leftarrow> load_segments elf1 st;
      (elf3, task', st) \<leftarrow> populate_segments (task\<lparr>t_context := context_set_entry (t_context task) (h_entry hdr)\<rparr>) elf2 st;
      (elf4, st) \<leftarrow> remove_segments elf3 st;
      Some (0, task', elf4, st) }"
    "phdr elf1 = buffer elf + h_phoff hdr" "elf_segs elf1 = elf_segs elf" "buffer elf1 = buffer elf" "is_64bit elf1" "unat (e_phnum elf1) = unat (h_phnum hdr)"
proof -
  have ok: "elf64_header_check (Some hdr) = 0" "elf_arch_check (Some hdr) = 0" using assms(1) by (simp_all add: elf_file_ok_def hdr_def)
  have sz: "elf_size elf \<noteq> 0" using assms(3) by auto
  let ?e = "elf\<lparr>is_64bit := True, shdr := buffer elf + h_shoff hdr, phdr := buffer elf + h_phoff hdr, e_type := h_type hdr, e_entry := h_entry hdr, e_phoff := h_phoff hdr,
    e_shoff := h_shoff hdr, e_phnum := ucast (h_phnum hdr), e_shnum := ucast (h_shnum hdr), e_phentsize := ucast (h_phentsize hdr), e_shentsize := ucast (h_shentsize hdr)\<rparr>"
  show ?thesis
    by (rule that [of ?e]) (use ok sz assms(2) in \<open>simp_all add: elf_initialize_def hdr_def [symmetric] Let_def unat_ucast_up\<close>)
qed

lemma place_segments_ok:
  assumes sg: "list_all2 describes (elf_segs elf) ps" "distinct (map s_block (elf_segs elf))" "s_block ` set (elf_segs elf) \<subseteq> Y" "Y \<inter> IM = {}"
      "Y \<subseteq> gran_addr (heap st) ` {..<gcount (heap st)}"
    and k: "kept (IM \<union> Y) st P" "P \<noteq> 0" "t_addrspace task = P" "sum_list (map seg_need ps) \<le> longest_run (heap st)"
    and no: "\<And>l. l < 2 ^ 18 \<Longrightarrow> nosect pbase_to_vbase (words st) P l" and ok: "\<And>ph. ph \<in> set ps \<Longrightarrow> loadable ph \<Longrightarrow> phdr_ok ph"
    and im: "\<And>ph j. ph \<in> set ps \<Longrightarrow> loadable ph \<Longrightarrow> j < unat (p_filesz ph) \<Longrightarrow> page_base (buffer elf + p_offset ph + word_of_nat j) \<in> IM"
      "\<And>a. page_base a \<in> IM \<Longrightarrow> bytes_of (words st) a = m0 a" and apart: "sorted_wrt seg_apart ps"
  shows "\<exists>task' elf' st' Z. do { (elf, task, st) \<leftarrow> populate_segments task elf st; (elf, st) \<leftarrow> remove_segments elf st; Some (0, task, elf, st) } =
      Some (0 :: 32 word, task', elf', st') \<and> t_context task' = t_context task \<and> Z \<inter> IM = {} \<and> kept (IM \<union> Z) st' P \<and>
    (\<forall>a. page_base a \<in> IM \<longrightarrow> bytes_of (words st') a = m0 a) \<and> (\<forall>ph \<in> set ps. loadable ph \<longrightarrow> loaded Z m0 (buffer elf) st' P ph) \<and>
    (\<forall>n < 2 ^ 27. (\<forall>ph \<in> set ps. loadable ph \<longrightarrow> n \<notin> seg_pages ph) \<longrightarrow> xl pbase_to_vbase (words st') P n = xl pbase_to_vbase (words st) P n)"
proof -
  obtain ds task' st3 Z where p: "populate_loop elf (elf_segs elf) task st = Some (ds, task', st3)" "map s_block ds = map s_block (elf_segs elf)" "t_context task' = t_context task"
    "Z \<inter> (IM \<union> Y) = {}" "kept (IM \<union> Y \<union> Z) st3 P" "frame (IM \<union> Y) st st3" "\<forall>ph \<in> set ps. loadable ph \<longrightarrow> loaded Z m0 (buffer elf) st3 P ph"
    "\<forall>n < 2 ^ 27. (\<forall>ph \<in> set ps. loadable ph \<longrightarrow> n \<notin> seg_pages ph) \<longrightarrow> xl pbase_to_vbase (words st3) P n = xl pbase_to_vbase (words st) P n"
    using populate_loop_ok [OF sg(1) k no ok im(1) Un_upper1 im(2) apart] by auto
  have bl: "s_block ` set ds = s_block ` set (elf_segs elf)" using arg_cong [OF p(2), of set] by simp
  have "distinct (map s_block ds)" unfolding p(2) by (rule sg(2))
  moreover have "s_block ` set ds \<subseteq> IM \<union> Y \<union> Z" "s_block ` set ds \<subseteq> gran_addr (heap st3) ` {..<gcount (heap st3)}"
    unfolding bl using sg(3,5) p(6) by (auto simp: frame_def same_places_def)
  ultimately obtain st4 where r: "remove_segs ds st3 = Some st4" "kept (IM \<union> Y \<union> Z - s_block ` set ds) st4 P" "words st4 = words st3"
    using remove_segs_ok [OF p(5)] by blast
  have "IM \<union> Z \<subseteq> IM \<union> Y \<union> Z - s_block ` set ds" unfolding bl using sg(3,4) p(4) by blast
  then have "kept (IM \<union> Z) st4 P" by (rule kept_mono [OF r(2)])
  moreover have "do { (elf, task, st) \<leftarrow> populate_segments task elf st; (elf, st) \<leftarrow> remove_segments elf st; Some (0, task, elf, st) } =
      Some (0 :: 32 word, task', elf\<lparr>elf_segs := []\<rparr>, st4)" using p(1) r(1) by (simp add: populate_segments_def remove_segments_def)
  moreover have "\<forall>ph \<in> set ps. loadable ph \<longrightarrow> loaded Z m0 (buffer elf) st4 P ph" using p(7) r(3) by (simp add: loaded_def)
  moreover have "\<forall>y. page_base y \<in> IM \<longrightarrow> bytes_of (words st4) y = m0 y" using p(6) im(2) r(3) by (simp add: frame_def)
  moreover have "Z \<inter> IM = {}" using p(4) by blast
  ultimately show ?thesis using p(3,8) r(3) by metis
qed

text \<open>
  C39.  Loading a well-formed file returns 0 for every heap that has a long enough run of free granules.  The task will start at the entry
  point of the file; every byte of every loadable segment is found through the task's page table at its virtual address, with the contents of the file and then
  zeros, in pages of its own and with the permissions of the segment; the translation of other
  addresses, the image and all other kept memory are as before.
\<close>

theorem elf_initialize_loads:
  assumes wf: "elf_file_ok (bytes_of (words st)) (buffer elf) (unat (elf_size elf))"
    and elf: "buffer elf \<noteq> 0" "0 < unat (elf_size elf)" "elf_segs elf = []"
    and k: "kept IM st P" and im: "\<forall>j < unat (elf_size elf). page_base (buffer elf + word_of_nat j) \<in> IM"
    and P: "t_addrspace task = P" "P \<noteq> 0" and no: "\<forall>l < 2 ^ 18. nosect pbase_to_vbase (words st) P l"
    and need: "elf_need (elf_phdrs (bytes_of (words st)) (buffer elf)) \<le> longest_run (heap st)"
  shows "\<exists>task' elf' st' Z. elf_initialize task elf st = Some (0, task', elf', st') \<and>
    t_context task' PC = h_entry (read_ehdr (bytes_of (words st)) (buffer elf)) \<and> Z \<inter> IM = {} \<and> kept (IM \<union> Z) st' P \<and>
    (\<forall>a. page_base a \<in> IM \<longrightarrow> bytes_of (words st') a = bytes_of (words st) a) \<and>
    (\<forall>ph \<in> set (elf_phdrs (bytes_of (words st)) (buffer elf)). loadable ph \<longrightarrow> loaded Z (bytes_of (words st)) (buffer elf) st' P ph) \<and>
    (\<forall>n < 2 ^ 27. (\<forall>ph \<in> set (elf_phdrs (bytes_of (words st)) (buffer elf)). loadable ph \<longrightarrow> n \<notin> seg_pages ph) \<longrightarrow>
      xl pbase_to_vbase (words st') P n = xl pbase_to_vbase (words st) P n)"
proof -
  let ?m = "bytes_of (words st)" and ?phs = "elf_phdrs (bytes_of (words st)) (buffer elf)" and ?Q = "\<lambda>p. listed p \<and> p_filesz p \<le> p_memsz p"
  have F: "\<And>ph. ph \<in> set ?phs \<Longrightarrow> loadable ph \<Longrightarrow> phdr_ok ph" "\<And>ph. ph \<in> set ?phs \<Longrightarrow> loadable ph \<Longrightarrow> unat (p_offset ph) + unat (p_filesz ph) \<le> unat (elf_size elf)"
    "sorted_wrt seg_apart ?phs" using wf by (simp_all add: elf_file_ok_def)
  have inside: "page_base (buffer elf + x + word_of_nat j) \<in> IM" if "unat x + j < unat (elf_size elf)" for x j
    using im [rule_format, OF that] by (simp add: add.assoc)
  let ?t = "task\<lparr>t_context := context_set_entry (t_context task) (h_entry (read_ehdr ?m (buffer elf)))\<rparr>"
  obtain elf1 where e: "elf_initialize task elf st = do {
      (elf2, st) \<leftarrow> load_segments elf1 st; (elf3, task', st) \<leftarrow> populate_segments ?t elf2 st;
      (elf4, st) \<leftarrow> remove_segments elf3 st; Some (0, task', elf4, st) }"
    and e1: "phdr elf1 = buffer elf + h_phoff (read_ehdr ?m (buffer elf))" "elf_segs elf1 = elf_segs elf" "buffer elf1 = buffer elf" "is_64bit elf1"
      "unat (e_phnum elf1) = unat (h_phnum (read_ehdr ?m (buffer elf)))" by (rule elf_initialize_eq [OF wf elf(1,2), of task])
  have r1: "length (filter listed ?phs) \<le> longest_run (heap st)" using need by (simp add: elf_need_def)
  obtain elf2 st2 D Y where l: "load_segments elf1 st = Some (elf2, st2)" "elf_segs elf2 = rev D" "buffer elf2 = buffer elf" "list_all2 describes D (filter ?Q ?phs)"
    "distinct (map s_block D)" "s_block ` set D \<subseteq> Y" "Y \<inter> IM = {}" "Y \<subseteq> gran_addr (heap st) ` {..<gcount (heap st)}"
    "kept (IM \<union> Y) st2 P" "frame IM st st2" "same_xl pbase_to_vbase (words st) (words st2) P" "longest_run (heap st) \<le> longest_run (heap st2) + length (filter listed ?phs)"
    by (rule load_segments_ok [where elf = elf1 and st = st, unfolded e1(2,3), OF wf elf(3) e1(4,1,5) k inside r1])
  let ?ps = "rev (filter ?Q ?phs)"
  note kp = kept_phdrs [OF F(1,3)]
  have a: "list_all2 describes (elf_segs elf2) ?ps" "distinct (map s_block (elf_segs elf2))" "s_block ` set (elf_segs elf2) \<subseteq> Y"
    "Y \<subseteq> gran_addr (heap st2) ` {..<gcount (heap st2)}"
    using l(2,4,5,6,8,10) by (simp_all add: list_all2_rev rev_map [symmetric] frame_def same_places_def)
  have b: "sum_list (map seg_need ?ps) \<le> longest_run (heap st2)" using kp(2) need l(12) unfolding elf_need_def by linarith
  have c: "nosect pbase_to_vbase (words st2) P i" if "i < 2 ^ 18" for i using no l(11) that by (simp add: same_xl_def)
  have d: "phdr_ok ph" if "ph \<in> set ?ps" "loadable ph" for ph using F(1) that by simp
  have i: "page_base (buffer elf2 + p_offset ph + word_of_nat j) \<in> IM" if "ph \<in> set ?ps" "loadable ph" "j < unat (p_filesz ph)" for ph j
    using F(2) [of ph] that unfolding l(3) by (intro inside) simp
  have m: "bytes_of (words st2) x = ?m x" if "page_base x \<in> IM" for x using l(10) that by (simp add: frame_def)
  have t: "t_addrspace ?t = P" using P(1) by simp
  obtain task' elf' st' Z where p: "do { (elf, task, st) \<leftarrow> populate_segments ?t elf2 st2; (elf, st) \<leftarrow> remove_segments elf st; Some (0, task, elf, st) } =
      Some (0 :: 32 word, task', elf', st')" "t_context task' = t_context ?t" "Z \<inter> IM = {}" "kept (IM \<union> Z) st' P"
    "\<forall>a. page_base a \<in> IM \<longrightarrow> bytes_of (words st') a = ?m a" "\<forall>ph \<in> set ?ps. loadable ph \<longrightarrow> loaded Z ?m (buffer elf) st' P ph"
    "\<forall>n < 2 ^ 27. (\<forall>ph \<in> set ?ps. loadable ph \<longrightarrow> n \<notin> seg_pages ph) \<longrightarrow> xl pbase_to_vbase (words st') P n = xl pbase_to_vbase (words st2) P n"
    using place_segments_ok [OF a(1,2,3) l(7) a(4) l(9) P(2) t b c d i m kp(1)] unfolding l(3) by auto
  have "elf_initialize task elf st = Some (0, task', elf', st')" using p(1) unfolding e l(1) by simp
  moreover have "\<forall>ph \<in> set ?phs. loadable ph \<longrightarrow> loaded Z ?m (buffer elf) st' P ph" using p(6) kp(3) by blast
  moreover have "\<forall>n < 2 ^ 27. (\<forall>ph \<in> set ?phs. loadable ph \<longrightarrow> n \<notin> seg_pages ph) \<longrightarrow> xl pbase_to_vbase (words st') P n = xl pbase_to_vbase (words st) P n"
    using p(7) l(11) by (simp add: same_xl_def)
  moreover have "t_context task' PC = h_entry (read_ehdr ?m (buffer elf))" using p(2) by (simp add: context_set_entry_def)
  ultimately show ?thesis using p(3,4,5) by blast
qed

text \<open>An executable with a code segment of eight bytes at \<open>0x10000\<close> and a data segment of four bytes, followed by 28 zeros, at \<open>0x20000\<close>.\<close>

definition demo_file :: "nat \<Rightarrow> u8" where
  "demo_file i = (case map_of
     [(0, 0x7f), (1, 0x45), (2, 0x4c), (3, 0x46), (4, 2), (5, 1), (6, 1), (16, 2), (18, 183), (20, 1), (26, 1), (32, 64), (52, 64), (54, 56), (56, 2), (58, 64), (60, 1),
      (64, 1), (68, 5), (73, 2), (82, 1), (96, 8), (104, 8), (113, 16),
      (120, 1), (124, 6), (128, 8), (129, 2), (138, 2), (152, 4), (160, 32), (169, 16),
      (512, 0x1f), (513, 0x20), (514, 0x03), (515, 0xd5), (519, 0x14), (520, 0x2a)] i of None \<Rightarrow> 0 | Some b \<Rightarrow> b)"

definition demo_bytes :: bmem where
  "demo_bytes a = (let i = unat (a - 0xffffff8000800000) in if i < 524 then demo_file i else 0)"

abbreviation demo_load :: kpts where
  "demo_load \<equiv> \<lparr>words = words_of (\<lambda>_. 0) demo_bytes, heap = demo_pages\<rparr>"

definition demo_chin :: chin_elf where
  "demo_chin = \<lparr>need_interpreter = False, is_64bit = True, buffer = 0xffffff8000800000, elf_size = 524, e_type = 0, e_entry = 0, e_phoff = 0,
     e_shoff = 0, e_phnum = 0, e_shnum = 0, e_phentsize = 0, e_shentsize = 0, shdr = 0, phdr = 0, elf_segs = []\<rparr>"

lemma load_le_split: "load_le 2 m a = push_bit 8 (ucast (m (a + 1))) OR ucast (m a)"
  "load_le 4 m a = push_bit 16 (load_le 2 m (a + 2)) OR load_le 2 m a" "load_le 8 m a = push_bit 32 (load_le 4 m (a + 4)) OR load_le 4 m a"
  by (simp_all add: eval_nat_numeral add.assoc push_bit_or ac_simps)

lemmas demo_read = read_ehdr_def read_phdr_def load_le_split demo_bytes_def demo_file_def

lemma demo_ehdr:
  "elf64_header_check (Some (read_ehdr demo_bytes 0xffffff8000800000)) = 0" "elf_arch_check (Some (read_ehdr demo_bytes 0xffffff8000800000)) = 0"
  "h_entry (read_ehdr demo_bytes 0xffffff8000800000) = 0x10000" "h_phoff (read_ehdr demo_bytes 0xffffff8000800000) = 64"
  "h_phnum (read_ehdr demo_bytes 0xffffff8000800000) = 2"
  by (simp_all add: demo_read elf64_header_check_def elf_arch_check_def EI_CLASS_def EI_DATA_def EI_VERSION_def ELFCLASS64_def ELFDATA2LSB_def
    ET_DYN_def ET_REL_def ET_EXEC_def EM_ARM64_def SIZEOF_PHDR_def SIZEOF_SHDR_def)

abbreviation demo_code :: Elf64_Phdr where
  "demo_code \<equiv> \<lparr>p_type = 1, p_flags = 5, p_offset = 0x200, p_vaddr = 0x10000, p_paddr = 0, p_filesz = 8, p_memsz = 8, p_align = 0x1000\<rparr>"

abbreviation demo_data :: Elf64_Phdr where
  "demo_data \<equiv> \<lparr>p_type = 1, p_flags = 6, p_offset = 0x208, p_vaddr = 0x20000, p_paddr = 0, p_filesz = 4, p_memsz = 32, p_align = 0x1000\<rparr>"

lemma demo_phdrs: "elf_phdrs demo_bytes 0xffffff8000800000 = [demo_code, demo_data]"
  by (simp add: elf_phdrs_def demo_ehdr upt_rec SIZEOF_PHDR_def) (simp add: demo_read)

lemma demo_zero:
  assumes "j < 512" shows "words_of (\<lambda>_. 0) demo_bytes (slot 0xffffff8000900000 j) = 0"
proof -
  have a: "slot 0xffffff8000900000 j AND mask 3 = 0" using slot_aligned [OF demo_P(1)] .
  have "demo_bytes (slot 0xffffff8000900000 j + word_of_nat k) = bytes_of (\<lambda>_. 0) (slot 0xffffff8000900000 j + word_of_nat k)" if k: "k < 8" for k
  proof -
    obtain i where i: "i = 8 * j + k" "i < 4096" using assms k by simp
    have "unat (word_of_nat i :: u64) = i" using i(2) by (simp add: unsigned_of_nat take_bit_nat_eq_self)
    then have "unat (0x100000 + word_of_nat i :: u64) = 0x100000 + i" using i(2) by (simp add: unat_add_small)
    moreover have "slot 0xffffff8000900000 j + word_of_nat k - 0xffffff8000800000 = 0x100000 + word_of_nat i"
      by (simp add: slot_def i(1) algebra_simps)
    ultimately show ?thesis by (simp add: demo_bytes_def bytes_of_def)
  qed
  then show ?thesis using load_bytes_of [OF a, of demo_bytes "\<lambda>_. 0"] a by (simp add: words_of_def)
qed

lemma demo_kept: "kept {0xffffff8000800000} demo_load 0xffffff8000900000"
proof -
  have q: "page_aligned 0xffffff8000800000" "unat (0xffffff8000800000 :: u64) < 0xffffff8001000000" by (simp_all add: page_aligned_def)
  have "pages_kept {0xffffff8000800000} demo_pages" using demo_root(1) [OF q] q(1) by (simp add: pages_kept_def kpage_ok_def RAM_VBASE_def)
  then show ?thesis using kt.empty_table(1) [where w = "words_of (\<lambda>_. 0) demo_bytes", OF demo_P(1) _ demo_zero] demo_root(1) [OF demo_P] demo_page_heap(1) by (simp add: kept_def)
qed

lemma demo_file_ok: "elf_file_ok demo_bytes 0xffffff8000800000 524"
  by (simp add: elf_file_ok_def demo_ehdr demo_phdrs SIZEOF_PHDR_def PT_NULL_def phdr_ok_def seg_apart_def seg_pages_def seg_first_def seg_size_def
    pages_for_def ALIGN_def page_aligned_def PF_R_def PF_W_def PF_X_def)

lemma demo_need: "elf_need [demo_code, demo_data] \<le> longest_run demo_pages"
proof -
  have "elf_need [demo_code, demo_data] = 8"
    by (simp add: elf_need_def listed_def PT_LOAD_def seg_need_def loadable_def seg_size_def seg_first_def tables_for_def slots_def pages_for_def ALIGN_def)
  then show ?thesis unfolding longest_run_iff using demo_run [of 8] by simp
qed

theorem elf_initialize_loads_witness:
  "\<exists>task' elf' st' Z. elf_initialize (tcb_zero\<lparr>t_addrspace := 0xffffff8000900000\<rparr>) demo_chin demo_load = Some (0, task', elf', st') \<and>
    t_context task' PC = 0x10000 \<and> loaded Z demo_bytes 0xffffff8000800000 st' 0xffffff8000900000 demo_code \<and>
    loaded Z demo_bytes 0xffffff8000800000 st' 0xffffff8000900000 demo_data"
proof -
  have im: "page_base (0xffffff8000800000 + word_of_nat j) = 0xffffff8000800000" if "j < 524" for j
    by (rule page_base_add) (use that in \<open>simp_all add: page_aligned_def\<close>)
  have e: "buffer demo_chin = 0xffffff8000800000" "unat (elf_size demo_chin) = 524" "elf_segs demo_chin = []" by (simp_all add: demo_chin_def)
  have ld: "loadable demo_code" "loadable demo_data" by (simp_all add: loadable_def PT_LOAD_def)
  have no: "\<forall>l < 2 ^ 18. nosect pbase_to_vbase (words demo_load) 0xffffff8000900000 l"
    using kt.empty_table(3) [where w = "words_of (\<lambda>_. 0) demo_bytes" and F = "{}", OF demo_P(1) _ demo_zero] by simp
  show ?thesis
    using elf_initialize_loads [of demo_load demo_chin "{0xffffff8000800000}" "0xffffff8000900000" "tcb_zero\<lparr>t_addrspace := 0xffffff8000900000\<rparr>"]
      demo_file_ok demo_kept no demo_need im ld by (simp add: e demo_phdrs demo_ehdr) blast
qed

section \<open>Rejected files\<close>

text \<open>
  The files that are accepted: 64-bit little-endian objects for AArch64 with program headers and sections of the
  standard sizes.
\<close>

definition elf_valid :: "Elf64_Ehdr \<Rightarrow> bool" where
  "elf_valid h \<longleftrightarrow> map (h_ident h) [0..<7] = [0x7F, 0x45, 0x4C, 0x46, 2, 1, 1] \<and> h_machine h = 183 \<and> h_type h \<in> {1, 2, 3} \<and>
     h_phentsize h = 56 \<and> h_phnum h \<noteq> 0 \<and> unat (h_phnum h) \<le> 1170 \<and>
     h_shentsize h = 64 \<and> h_shnum h \<noteq> 0 \<and> unat (h_shstrndx h) < unat (h_shnum h)"

lemma checks_valid: "elf64_header_check (Some h) = 0 \<and> elf_arch_check (Some h) = 0 \<longleftrightarrow> elf_valid h"
proof -
  have s: "unat w = n \<longleftrightarrow> w = word_of_nat n" if "n < 2 ^ 16" for w :: u16 and n
    using that by (auto simp: word_unat_eq_iff unsigned_of_nat take_bit_nat_eq_self)
  have "[0..<7] = [0, 1, 2, 3, 4, 5, 6]" by code_simp
  then have m: "map f [0..<7] = xs \<longleftrightarrow> [f 0, f 1, f 2, f 3, f 4, f 5, f 6] = xs" for f :: "nat \<Rightarrow> u8" and xs by simp
  show ?thesis
    unfolding elf_valid_def m
    by (auto simp: elf64_header_check_def elf_arch_check_def EI_CLASS_def EI_DATA_def EI_VERSION_def ELFCLASS64_def
      ELFDATA2LSB_def ET_DYN_def ET_REL_def ET_EXEC_def EM_ARM64_def SIZEOF_PHDR_def SIZEOF_SHDR_def s not_less not_le word_le_nat_alt word_less_nat_alt)
qed

lemma check_values: "elf64_header_check h = 0 \<or> elf64_header_check h = - 1" "elf_arch_check h = 0 \<or> elf_arch_check h = - 1"
  by (auto simp: elf64_header_check_def elf_arch_check_def split: option.split)

text \<open>
  C40.  What the loader returns tells whether the file was accepted: 0 for a valid header and \<open>-ENOEXEC\<close>
  for any other, and then the task, the page tables and the heap are unchanged.
\<close>

theorem elf_initialize_checks_header:
  assumes "elf_initialize task elf st = Some (r, task', elf', st')"
  shows "(if elf_valid (read_ehdr (bytes_of (words st)) (buffer elf)) then r = 0
    else r = - 8 \<and> task' = task \<and> st' = st \<and> elf' = elf\<lparr>is_64bit := True\<rparr>)"
proof -
  let ?h = "Some (read_ehdr (bytes_of (words st)) (buffer elf))"
  have "(- 1 :: 32 word) <s 0" "\<not> (0 :: 32 word) <s 0" by (simp_all add: word_sless_alt)
  then show ?thesis
    using assms check_values(1) [of ?h] check_values(2) [of ?h] checks_valid [of "read_ehdr (bytes_of (words st)) (buffer elf)"]
    by (auto simp: elf_initialize_def k_assert_def ENOEXEC_def Let_def split: if_splits bind_splits)
qed

theorem elf_initialize_checks_header_witness:
  "\<exists>r task' elf' st'. elf_initialize tcb_zero demo_chin demo_pts = Some (r, task', elf', st') \<and> r = - 8 \<and> task' = tcb_zero \<and> st' = demo_pts"
proof -
  have z: "bytes_of (\<lambda>_. 0) a = 0" for a by (simp add: bytes_of_def)
  have n: "\<not> elf_valid (read_ehdr (bytes_of (words demo_pts)) (buffer demo_chin))"
    by (simp add: elf_valid_def read_ehdr_def z upt_rec)
  have c: "elf64_header_check (Some (read_ehdr (bytes_of (words demo_pts)) (buffer demo_chin))) <s 0"
    by (simp add: elf64_header_check_def read_ehdr_def z word_sless_alt)
  then obtain r task' elf' st' where e: "elf_initialize tcb_zero demo_chin demo_pts = Some (r, task', elf', st')"
    by (simp add: elf_initialize_def k_assert_def demo_chin_def Let_def)
  show ?thesis using elf_initialize_checks_header [OF e] n e by simp
qed

end
