(* ===== verification/Spec2Isabelle.thy ===== *)
theory Spec2Isabelle
  imports K_Bitmap K_Graninfo K_List K_String K_Context K_Task K_Sched K_Mmap K_Format K_Setup K_Load
begin

text \<open>
  \<^bold>\<open>A verification of the chinos kernel\<close>, the C kernel under \<^verbatim>\<open>src/os\<close>, for the configuration it is
  built in: one AArch64 core, 4 KiB pages, 39-bit virtual addresses, three table levels, assertions on.
  The model is a shallow embedding.  Every C function is a definition of the same name on explicit state;
  where HOL has a constant of that name the definition has a prefix (\<open>k_bit\<close>, \<open>raw_ffs\<close>).  A definition
  of type \<open>'a option\<close> has the value \<open>None\<close> where the kernel halts (a failed \<^verbatim>\<open>assert\<close>, \<^verbatim>\<open>PANIC\<close>),
  where C leaves the behaviour undefined, and where a loop does not end; that a function returns is
  therefore part of what the theorems state.  Machine integers are words of their C width.

  \<^bold>\<open>The parts and their theories.\<close>
  \<^item> \<open>K_Prelude\<close>: the integer types, assertions, arrays behind a pointer, the bit view of an array of words, searches.
  \<^item> \<open>K_Util\<close>: \<^verbatim>\<open>include/uapi/util.h\<close> (bits, masks, alignment, bit fields, hash).
  \<^item> \<open>K_Bitmap\<close>: \<^verbatim>\<open>lib/libutils\<close> (bit scans, searches, range and whole-bitmap operations).
  \<^item> \<open>K_Alloc\<close>, \<open>K_Gran\<close>, \<open>K_Graninfo\<close>: the granule allocator \<^verbatim>\<open>core/mm/mm_gran.c\<close> and its statistics
    \<^verbatim>\<open>core/mm/mm_graninfo.c\<close>.  \<open>K_Alloc\<close> is the contract of an allocator, a locale that \<open>K_Gran\<close> interprets.
  \<^item> \<open>K_List\<close>: the intrusive lists of \<^verbatim>\<open>include/uapi/list.h\<close>, with the locale of a family of queues.
  \<^item> \<open>K_String\<close>: \<^verbatim>\<open>lib/libc/k_mem*.c\<close> and \<^verbatim>\<open>k_str*.c\<close>.
  \<^item> \<open>K_Printf\<close>, \<open>K_Convert\<close>, \<open>K_Format\<close>: \<^verbatim>\<open>lib/libc/k_printf.c\<close> down to the bytes sent by \<^verbatim>\<open>dev/uart/pl011/uart.c\<close>.
  \<^item> \<open>K_Context\<close>, \<open>K_Task\<close>, \<open>K_Sched\<close>: register contexts with the instructions that save and restore them
    (\<^verbatim>\<open>arch/arm64/context.c\<close>, the macros of \<^verbatim>\<open>vector.S\<close>), tasks and address space
    numbers (\<^verbatim>\<open>core/sched/task.c\<close>), the scheduler and sleeping (\<^verbatim>\<open>core/sched/scheduler.c\<close>, \<^verbatim>\<open>timer.c\<close>).
  \<^item> \<open>K_Pagetable\<close>, \<open>K_Ptmap\<close>: \<^verbatim>\<open>arch/arm64/pagetable.c\<close>; the translation \<open>xl\<close> that the hardware makes from tables;
    the locales \<open>table_pages\<close> and \<open>table_alloc\<close> of what the mapping code relies on.
  \<^item> \<open>K_Setup\<close>: the boot mapping \<^verbatim>\<open>arch/arm64/setup.c\<close>, one interpretation of \<open>table_alloc\<close>.
  \<^item> \<open>K_Addrspace\<close>, \<open>K_Mmap\<close>: \<^verbatim>\<open>core/mm/addrspace.c\<close>, the other interpretation, and \<^verbatim>\<open>core/mm/mmap.c\<close>.
  \<^item> \<open>K_Memview\<close>, \<open>K_Reserve\<close>, \<open>K_Elf\<close>, \<open>K_Load\<close>: the ELF loader \<^verbatim>\<open>lib/libelf\<close>.  \<open>K_Memview\<close> relates the bytes that the
    loader copies to the words that hold tables, \<open>K_Reserve\<close> keeps the blocks taken from the heap apart from
    both, \<open>K_Elf\<close> has the data and operations and \<open>K_Load\<close> the proof.

  The parts build on each other as the code does.  The scheduler keeps tasks in the lists of \<open>K_List\<close> and marks
  priorities in a bitmap; tasks hold a context and an address space number from a bitmap; address spaces map
  pages through the table code with table pages from the granule heap; \<^verbatim>\<open>sys_mmap\<close>, \<^verbatim>\<open>sys_brk\<close> and the
  loader take frames from the same heap and map them into the address space of the task.

  \<^bold>\<open>What the theorems show.\<close>
  \<^item> Granule heap: allocation is first fit and exact, in every run live blocks are disjoint and can be released, releasing undoes
    allocating, a wrong release halts, the word read past the table has no influence, the statistics are exact
    and predict allocations.
  \<^item> Bitmaps: every search returns the least matching position, the range and whole-bitmap operations
    change exactly their bits.
  \<^item> Lists: the operations on cells refine operations on sequences; for the null-terminated lists also that no access goes
    through a null pointer.
  \<^item> Memory, strings and output: each function writes exactly its range and returns the value C prescribes,
    or what the code gives instead; \<^verbatim>\<open>kprintf\<close> sends the text that ISO C prescribes; the digit buffer is large enough.
  \<^item> Translation: \<^verbatim>\<open>pt_map\<close> changes the translation exactly on its range; the kernel address space, the boot tables and user mappings
    have the intended permissions; \<^verbatim>\<open>sys_mmap\<close> and \<^verbatim>\<open>sys_brk\<close> map what they record, and areas do not overlap.
  \<^item> Tasks and scheduling: what a new task starts with, saving and restoring are inverse, identifiers are unique, address space numbers
    are not shared in a generation; the scheduler refines queues by priority, runs a ready task of the highest priority in every
    reachable state, and wakes sleepers at the first decision after their time.
  \<^item> Loader: exactly the valid headers are accepted, and every byte of a loadable segment is visible at its address
    with the permissions of the segment.

  \<^bold>\<open>Loops and bounds.\<close>  Loops that count down are \<open>fun\<close> or \<open>function\<close> with a measure.  Loops that follow pointers,
  scan for a terminator or count in a type that can wrap are \<open>partial_function (option)\<close>, with theorems that they
  return; no definition uses fuel.  The bounds in hypotheses are those of the code's types: a heap of at most 2 GiB, because
  \<^verbatim>\<open>gran_alloc\<close> computes offsets in an \<^verbatim>\<open>int\<close>; requests of at most 32 granules, one entry of the table; fields of at most
  255 characters, because their length is a byte; at most \<open>2\<^sup>3\<^sup>2 - 32\<close> granules for \<^verbatim>\<open>gran_dump\<close>, because its index wraps.

  \<^bold>\<open>Parameters.\<close>  What the hardware and the linker provide is an argument or a field of the state: the clock readings, the
  identification registers, the addresses of the image and of its sections, the address of the interrupt stack, and the
  engine that finds the digits of a floating-point number.  The named hypotheses state what the
  boot configuration gives (\<open>boot_layout\<close>, \<open>boot_ok\<close>) or the shape of the data an operation gets (\<open>wf_gran\<close>, \<open>as_wf\<close>, \<open>sched_rel\<close>,
  \<open>is_list\<close>, \<open>c_string\<close>, \<open>phdr_ok\<close>).

  \<^bold>\<open>Not modelled.\<close>  Device drivers other than the output of a character (interrupt controller, generic timer): reads and
  writes of device registers.  Dispatch of interrupts, traps and system calls: tables of function pointers around the modelled
  handlers, each path ending in an \<^verbatim>\<open>eret\<close>.  \<^verbatim>\<open>init.c\<close>: a sequence of calls to the modelled parts.  The
  reset code, caches and barriers: they have no counterpart in a model of one core without caches.  Floating-point digits.
  The C library under \<^verbatim>\<open>src/app\<close>, which the kernel does not use.
\<close>

end
